(* ===== verification/Prelude.thy ===== *)
theory Prelude
  imports Main "HOL-Library.Word"
begin

unbundle bit_operations_syntax

text \<open>
  Shared vocabulary of the development: the machine integers of the x86-64 target, Rust panics as
  values of a sum type, the arithmetic of the two build profiles, and the generic lemmas on sums,
  lists and words that the component theories use.

  \<^item> \<open>u8\<close>, \<open>u16\<close>, \<open>u64\<close> and \<open>usize\<close> are words of the widths Rust gives them.
  \<^item> A call that may panic returns \<open>'a res\<close>: \<open>Inl\<close> of the cause of the panic, \<open>Inr\<close> of the
    value. \<open>bind_res\<close> sequences such calls.
  \<^item> \<open>dbg\<close> is \<^verbatim>\<open>cfg!(debug_assertions)\<close>: in a debug build an arithmetic overflow and a failed
    \<^verbatim>\<open>debug_assert!\<close> panic, in a release build the first wraps around and the second is not
    compiled in. Definitions that depend on it take it as their first argument, so every theorem
    that does not fix \<open>dbg\<close> holds for both profiles.
\<close>

type_synonym u8 = "8 word"
type_synonym u16 = "16 word"
type_synonym u32 = "32 word"
type_synonym u64 = "64 word"
type_synonym usize = "64 word"

named_theorems res_intro \<open>introduction rules that show that a computation does not panic\<close>
named_theorems res_elim \<open>equivalences that invert a computation that returned\<close>

subsection \<open>Panics as values\<close>

datatype panic =
    Overflow
  | Index_Out_Of_Bounds
  | Division_By_Zero
  | Assert_Failed
  | Debug_Assert_Failed
  | Unwrap_None
  | Expect_Failed
  | Unreachable
  | Explicit_Panic
  | Crate_Panic

type_synonym 'a res = "panic + 'a"

definition bind_res :: "'a res \<Rightarrow> ('a \<Rightarrow> 'b res) \<Rightarrow> 'b res" where
  "bind_res m f = (case m of Inl e \<Rightarrow> Inl e | Inr x \<Rightarrow> f x)"

definition assert_res :: "bool \<Rightarrow> unit res" where
  "assert_res b = (if b then Inr () else Inl Assert_Failed)"

definition debug_assert :: "bool \<Rightarrow> bool \<Rightarrow> unit res" where
  "debug_assert dbg b = (if dbg \<and> \<not> b then Inl Debug_Assert_Failed else Inr ())"

definition expect_some :: "panic \<Rightarrow> 'a option \<Rightarrow> 'a res" where
  "expect_some e x = (case x of None \<Rightarrow> Inl e | Some y \<Rightarrow> Inr y)"

definition index_res :: "'a list \<Rightarrow> nat \<Rightarrow> 'a res" where
  "index_res xs i = (if i < length xs then Inr (xs ! i) else Inl Index_Out_Of_Bounds)"

definition update_res :: "'a list \<Rightarrow> nat \<Rightarrow> 'a \<Rightarrow> 'a list res" where
  "update_res xs i x = (if i < length xs then Inr (xs[i := x]) else Inl Index_Out_Of_Bounds)"

lemma bind_res_Inr [simp]: "bind_res (Inr x) f = f x"
  by (simp add: bind_res_def)

lemma bind_res_Inl [simp]: "bind_res (Inl e) f = Inl e"
  by (simp add: bind_res_def)

lemma bind_res_Inr_right [simp]: "bind_res m Inr = m"
  by (cases m) simp_all

lemma bind_res_cong [fundef_cong]: "m = m' \<Longrightarrow> (\<And>x. m' = Inr x \<Longrightarrow> f x = g x) \<Longrightarrow> bind_res m f = bind_res m' g"
  by (cases m') simp_all

lemma bind_res_eq_Inr [res_elim]: "bind_res m f = Inr y \<longleftrightarrow> (\<exists>x. m = Inr x \<and> f x = Inr y)"
  by (cases m) simp_all

lemma bind_res_assoc: "bind_res (bind_res m f) g = bind_res m (\<lambda>x. bind_res (f x) g)"
  by (cases m) simp_all

lemma assert_res_eq_Inr [res_elim]: "assert_res b = Inr u \<longleftrightarrow> b"
  by (simp add: assert_res_def)

lemma assert_res_True [simp]: "b \<Longrightarrow> assert_res b = Inr ()"
  by (simp add: assert_res_def)

lemma debug_assert_True [simp]: "b \<Longrightarrow> debug_assert dbg b = Inr ()"
  by (simp add: debug_assert_def)

lemma debug_assert_release [simp]: "debug_assert False b = Inr ()"
  by (simp add: debug_assert_def)

lemma debug_assert_eq_Inr [res_elim]: "debug_assert dbg b = Inr u \<longleftrightarrow> (dbg \<longrightarrow> b)"
  by (simp add: debug_assert_def)

lemma expect_some_simps [simp]:
  "expect_some e (Some x) = Inr x" "expect_some e None = Inl e"
  by (simp_all add: expect_some_def)

lemma expect_some_eq_Inr [res_elim]: "expect_some e x = Inr y \<longleftrightarrow> x = Some y"
  by (simp add: expect_some_def split: option.splits)

lemma index_res_Inr [simp]: "i < length xs \<Longrightarrow> index_res xs i = Inr (xs ! i)"
  by (simp add: index_res_def)

lemma index_res_eq_Inr [res_elim]: "index_res xs i = Inr x \<longleftrightarrow> i < length xs \<and> x = xs ! i"
  by (auto simp: index_res_def)

lemma index_res_beyond: "length xs \<le> i \<Longrightarrow> index_res xs i = Inl Index_Out_Of_Bounds"
  by (simp add: index_res_def)

lemma update_res_Inr [simp]: "i < length xs \<Longrightarrow> update_res xs i x = Inr (xs[i := x])"
  by (simp add: update_res_def)

lemma update_res_eq_Inr [res_elim]:
  "update_res xs i x = Inr ys \<longleftrightarrow> i < length xs \<and> ys = xs[i := x]"
  by (auto simp: update_res_def)

subsection \<open>Loops that may never end\<close>

text \<open>A computation with such a loop is of type \<open>'a run\<close>: \<open>None\<close> when it never ends, otherwise a panic or a value.\<close>

type_synonym 'a run = "'a res option"

definition bind_run :: "'a run \<Rightarrow> ('a \<Rightarrow> 'b run) \<Rightarrow> 'b run" where
  "bind_run m f = (case m of None \<Rightarrow> None | Some (Inl e) \<Rightarrow> Some (Inl e) | Some (Inr x) \<Rightarrow> f x)"

lemma bind_run_simps [simp]:
  "bind_run (Some (Inr x)) f = f x" "bind_run (Some (Inl e)) f = Some (Inl e)" "bind_run None f = None"
  by (simp_all add: bind_run_def)

lemma bind_run_eq_Inr [res_elim]: "bind_run m f = Some (Inr y) \<longleftrightarrow> (\<exists>x. m = Some (Inr x) \<and> f x = Some (Inr y))"
  by (auto simp: bind_run_def split: option.splits sum.splits)

text \<open>
  Polling a device: \<open>ready n\<close> is whether the \<open>n\<close>-th read finds it ready, and the loop ends with the number of the
  first read from \<open>n\<close> on that does.
\<close>

partial_function (option) poll :: "(nat \<Rightarrow> bool) \<Rightarrow> nat \<Rightarrow> nat option" where
  "poll ready n = (if ready n then Some n else poll ready (Suc n))"

lemma poll_first:
  assumes "n \<le> m" "ready m" "\<And>i. n \<le> i \<Longrightarrow> i < m \<Longrightarrow> \<not> ready i"
  shows "poll ready n = Some m"
  using assms
proof (induction rule: inc_induct)
  case base
  then show ?case by (simp add: poll.simps)
next
  case (step n)
  then show ?case by (subst poll.simps) simp
qed

lemma poll_Some:
  assumes "poll ready n = Some m"
  shows "n \<le> m \<and> ready m \<and> (\<forall>i. n \<le> i \<and> i < m \<longrightarrow> \<not> ready i)"
proof (rule poll.raw_induct [where P = "\<lambda>ready n m. n \<le> m \<and> ready m \<and> (\<forall>i. n \<le> i \<and> i < m \<longrightarrow> \<not> ready i)", OF _ assms], goal_cases)
  case (1 poll ready n m)
  show ?case
  proof (cases "ready n")
    case True
    with 1(2) show ?thesis by auto
  next
    case False
    with 1(2) have "Suc n \<le> m \<and> ready m \<and> (\<forall>i. Suc n \<le> i \<and> i < m \<longrightarrow> \<not> ready i)" by (intro 1(1)) simp
    moreover have "Suc n \<le> i" if "n \<le> i" "ready i" for i using that False by (cases "i = n") simp_all
    ultimately show ?thesis using Suc_leD by blast
  qed
qed

lemma poll_ends: "(\<exists>m. poll ready n = Some m) \<longleftrightarrow> (\<exists>i \<ge> n. ready i)"
proof
  assume "\<exists>i \<ge> n. ready i"
  define m where "m = (LEAST i. n \<le> i \<and> ready i)"
  have "n \<le> m \<and> ready m" unfolding m_def by (rule LeastI_ex) (use \<open>\<exists>i \<ge> n. ready i\<close> in blast)
  moreover have "\<not> ready i" if "n \<le> i" "i < m" for i using that not_less_Least [of i] unfolding m_def by blast
  ultimately show "\<exists>m. poll ready n = Some m" using poll_first by blast
qed (use poll_Some in blast)

subsection \<open>Arithmetic of the two build profiles\<close>

definition add_w :: "bool \<Rightarrow> 'a::len word \<Rightarrow> 'a word \<Rightarrow> 'a word res" where
  "add_w dbg a b =
     (if dbg \<and> 2 ^ LENGTH('a) \<le> unat a + unat b then Inl Overflow else Inr (a + b))"

definition sub_w :: "bool \<Rightarrow> 'a::len word \<Rightarrow> 'a word \<Rightarrow> 'a word res" where
  "sub_w dbg a b = (if dbg \<and> unat a < unat b then Inl Overflow else Inr (a - b))"

definition mul_w :: "bool \<Rightarrow> 'a::len word \<Rightarrow> 'a word \<Rightarrow> 'a word res" where
  "mul_w dbg a b =
     (if dbg \<and> 2 ^ LENGTH('a) \<le> unat a * unat b then Inl Overflow else Inr (a * b))"

lemma add_w_Inr: "unat a + unat b < 2 ^ LENGTH('a) \<Longrightarrow> add_w dbg a b = Inr (a + b :: 'a::len word)"
  by (simp add: add_w_def)

lemma sub_w_Inr: "unat b \<le> unat a \<Longrightarrow> sub_w dbg a b = Inr (a - b :: 'a::len word)"
  by (simp add: sub_w_def)

lemma mul_w_Inr: "unat a * unat b < 2 ^ LENGTH('a) \<Longrightarrow> mul_w dbg a b = Inr (a * b :: 'a::len word)"
  by (simp add: mul_w_def)

lemma unat_add_no_wrap:
  "unat a + unat b < 2 ^ LENGTH('a) \<Longrightarrow> unat (a + b :: 'a::len word) = unat a + unat b"
  by (simp add: unat_word_ariths)

lemma unat_mult_no_wrap:
  "unat a * unat b < 2 ^ LENGTH('a) \<Longrightarrow> unat (a * b :: 'a::len word) = unat a * unat b"
  by (simp add: unat_word_ariths)

lemma unat_minus_no_wrap: "unat b \<le> unat a \<Longrightarrow> unat (a - b :: 'a::len word) = unat a - unat b"
  by (simp add: unat_sub_if')

lemma unat_of_nat_small: "n < 2 ^ LENGTH('a) \<Longrightarrow> unat (of_nat n :: 'a::len word) = n"
  by (simp add: unat_of_nat)

lemma word_and_not_eq_minus: "x AND NOT m = x - (x AND m)" for x m :: "'a::len word"
proof -
  have "(x AND NOT m) + (x AND m) = (x AND NOT m) OR (x AND m)"
    by (rule disjunctive_add) (auto simp: bit_simps)
  also have "\<dots> = x"
    by (rule bit_eqI) (auto simp: bit_simps)
  finally show ?thesis by (simp add: eq_diff_eq)
qed

lemma word_of_nat_and_mask: "(of_nat n :: 'a::len word) AND mask k = of_nat (n mod 2 ^ k)"
proof -
  have "(of_nat n :: 'a word) AND mask k = of_nat n AND of_nat (mask k)"
    by (simp add: of_nat_mask_eq)
  also have "\<dots> = of_nat (n AND mask k)" by (rule of_nat_and_eq [symmetric])
  finally show ?thesis by (simp add: take_bit_eq_mask [symmetric] take_bit_eq_mod)
qed

subsection \<open>Sums over the agents of a concurrent system\<close>

lemma sum_list_map_update:
  "i < length xs \<Longrightarrow>
   sum_list (map f (xs[i := y])) + f (xs ! i) = sum_list (map f xs) + (f y :: nat)"
proof (induction xs arbitrary: i)
  case Nil
  then show ?case by simp
next
  case (Cons x xs)
  then show ?case by (cases i) auto
qed

lemma sum_list_map_nth_le:
  "i < length xs \<Longrightarrow> (f (xs ! i) :: nat) \<le> sum_list (map f xs)"
  by (simp add: member_le_sum_list)

lemma sum_list_map_two_le:
  assumes "i < length xs" "j < length xs" "i \<noteq> j"
  shows "f (xs ! i) + f (xs ! j) \<le> (sum_list (map f xs) :: nat)"
  using assms
proof (induction xs arbitrary: i j)
  case Nil
  then show ?case by simp
next
  case (Cons x xs)
  then show ?case
    by (cases i; cases j) (auto dest: sum_list_map_nth_le [of _ xs f] intro: trans_le_add2)
qed

lemma sum_list_replicate_0 [simp]: "sum_list (replicate n 0) = (0 :: nat)"
  by (induction n) auto

subsection \<open>Step relations and their invariants\<close>

text \<open>
  The reachable states of a machine with start states \<open>start\<close> and step relation \<open>step\<close>. The locale
  \<open>machine\<close> is the contract every concurrent or sequential component of the kernel is shown to
  satisfy: an invariant that holds at the start and that every step keeps.
\<close>

inductive reach :: "('s \<Rightarrow> bool) \<Rightarrow> ('s \<Rightarrow> 's \<Rightarrow> bool) \<Rightarrow> 's \<Rightarrow> bool" for start step where
  reach_start: "start s \<Longrightarrow> reach start step s"
| reach_step: "reach start step s \<Longrightarrow> step s t \<Longrightarrow> reach start step t"

lemma reach_mono:
  assumes "reach start step s"
    and "\<And>s. start s \<Longrightarrow> start' s" and "\<And>s t. step s t \<Longrightarrow> step' s t"
  shows "reach start' step' s"
  using assms(1)
proof induction
  case (reach_start s)
  then show ?case by (blast intro: reach.reach_start assms(2))
next
  case (reach_step s t)
  then show ?case by (blast intro: reach.reach_step assms(3))
qed

locale machine =
  fixes start :: "'s \<Rightarrow> bool"
    and step :: "'s \<Rightarrow> 's \<Rightarrow> bool"
    and inv :: "'s \<Rightarrow> bool"
  assumes inv_start: "start s \<Longrightarrow> inv s"
    and inv_step: "inv s \<Longrightarrow> step s t \<Longrightarrow> inv t"
begin

lemma inv_reach: "reach start step s \<Longrightarrow> inv s"
  by (induction rule: reach.induct) (auto intro: inv_start inv_step)

lemma inv_implies:
  assumes "reach start step s" and "\<And>s. inv s \<Longrightarrow> P s"
  shows "P s"
  using assms inv_reach by blast

end

end
