(* ===== verification/Percpu.thy ===== *)
theory Percpu
  imports Prelude
begin

text \<open>
  Model of \<^verbatim>\<open>src/src/cpu/percpu.rs\<close>: the preemption counter of the one CPU the kernel runs on
  (\<^verbatim>\<open>PerCpu::current()\<close> is \<^verbatim>\<open>&CPUS[0]\<close>). The counter is an \<^verbatim>\<open>AtomicUsize\<close>, whose \<^verbatim>\<open>fetch_add\<close> and
  \<^verbatim>\<open>fetch_sub\<close> wrap around in both build profiles. The address space pointer of the structure is
  never read by the kernel and is not part of the model.
\<close>

definition MAX_CPUS :: nat where
  "MAX_CPUS = 8"

record PerCpu =
  preempt_count :: usize

definition CPUS :: "PerCpu list" where
  "CPUS = [\<lparr>preempt_count = 0\<rparr>]"

definition current :: "PerCpu list \<Rightarrow> PerCpu res" where
  "current cpus = index_res cpus 0"

definition preempt_inc :: "usize \<Rightarrow> usize" where
  "preempt_inc c = c + 1"

definition preempt_dec :: "usize \<Rightarrow> usize" where
  "preempt_dec c = c - 1"

definition without_preempts :: "(usize \<Rightarrow> 'a \<times> usize) \<Rightarrow> usize \<Rightarrow> 'a \<times> usize" where
  "without_preempts f c =
     (let c1 = preempt_inc c; (rv, c2) = f c1 in (rv, preempt_dec c2))"

lemma preempt_dec_inc [simp]: "preempt_dec (preempt_inc c) = c"
  by (simp add: preempt_dec_def preempt_inc_def)

lemma preempt_inc_of_nat: "preempt_inc (of_nat n) = of_nat (n + 1)"
  by (simp add: preempt_inc_def)

lemma preempt_dec_of_nat: "preempt_dec (of_nat (n + 1)) = of_nat n"
  by (simp add: preempt_dec_def)

lemma current_CPUS: "current CPUS = Inr \<lparr>preempt_count = 0\<rparr>"
  by (simp add: current_def CPUS_def)

text \<open>A closure that leaves the counter as it found it leaves it balanced around the call.\<close>

lemma without_preempts_balanced:
  assumes "\<And>c. snd (f c) = c"
  shows "without_preempts f c = (fst (f (preempt_inc c)), c)"
  using assms by (simp add: without_preempts_def Let_def case_prod_beta)

end
