(* ===== verification/Spin_Lock.thy ===== *)
theory Spin_Lock
  imports Percpu
begin

text \<open>
  Model of \<^verbatim>\<open>src/src/ds/sync/spinlock.rs\<close>. An \<^emph>\<open>agent\<close> is one call of \<^verbatim>\<open>lock\<close> or \<^verbatim>\<open>try_lock\<close>
  together with the guard it returns, up to the end of that guard's \<^verbatim>\<open>drop\<close>; a thread that holds
  two guards is two agents. The state is the lock word, the protected data, the preemption counter
  and the program point of every agent; one step is one atomic operation of one agent, and any
  agent may move next. Atomic operations are interleaved sequentially consistently (the memory
  orderings of the source are at least acquire on taking the lock and release on dropping it).

  \<^item> \<open>Lock_Cas\<close>, \<open>Lock_Spin\<close>: the outer and the inner loop of \<^verbatim>\<open>lock\<close>;
  \<^item> \<open>Try_Cas\<close>, \<open>Try_Dec\<close>: the \<^verbatim>\<open>compare_exchange\<close> of \<^verbatim>\<open>try_lock\<close> and its \<^verbatim>\<open>else\<close> branch;
  \<^item> \<open>Held\<close>: a \<^verbatim>\<open>SpinLockGuard\<close> exists; \<open>Drop_Dec\<close>: after the store of its \<^verbatim>\<open>drop\<close>.
\<close>

datatype spin_pc = Idle | Lock_Cas | Lock_Spin | Try_Cas | Try_Dec | Held | Drop_Dec

record 'a spin_lock =
  locked :: bool
  lock_data :: 'a

record 'a spin_sys =
  spin :: "'a spin_lock"
  preempts :: usize
  agents :: "spin_pc list"

definition spin_new :: "'a \<Rightarrow> 'a spin_lock" where
  "spin_new d = \<lparr>locked = False, lock_data = d\<rparr>"

text \<open>
  \<^verbatim>\<open>AtomicBool::compare_exchange(false, true, ..)\<close>: the new value of the flag and whether the result
  is \<^verbatim>\<open>Err\<close>.
\<close>

definition cas_false_true :: "bool \<Rightarrow> bool \<times> bool" where
  "cas_false_true b = (True, b)"

subsection \<open>The operations, one atomic operation at a time\<close>

definition lock_cas :: "'a spin_lock \<Rightarrow> spin_pc \<times> 'a spin_lock" where
  "lock_cas l = (let (b, is_err) = cas_false_true (locked l) in
     (if is_err then Lock_Spin else Held, l\<lparr>locked := b\<rparr>))"

definition lock_spin :: "'a spin_lock \<Rightarrow> spin_pc" where
  "lock_spin l = (if locked l then Lock_Spin else Lock_Cas)"

definition try_lock_cas :: "'a spin_lock \<Rightarrow> spin_pc \<times> 'a spin_lock" where
  "try_lock_cas l = (let (b, is_err) = cas_false_true (locked l) in
     (if is_err then Held else Try_Dec, l\<lparr>locked := b\<rparr>))"

definition drop_store :: "'a spin_lock \<Rightarrow> 'a spin_lock" where
  "drop_store l = l\<lparr>locked := False\<rparr>"

datatype spin_call = Call_Lock | Call_Try_Lock

fun call_pc :: "spin_call \<Rightarrow> spin_pc" where
  "call_pc Call_Lock = Lock_Cas"
| "call_pc Call_Try_Lock = Try_Cas"

text \<open>
  The steps of a system whose code enters the lock only through the calls in \<open>calls\<close>.
\<close>

inductive spin_step :: "spin_call set \<Rightarrow> 'a spin_sys \<Rightarrow> 'a spin_sys \<Rightarrow> bool"
  for calls :: "spin_call set" where
  call: "c \<in> calls \<Longrightarrow> i < length (agents s) \<Longrightarrow> agents s ! i = Idle \<Longrightarrow>
     spin_step calls s
       (s\<lparr>preempts := preempt_inc (preempts s), agents := (agents s)[i := call_pc c]\<rparr>)"
| lock_cas: "i < length (agents s) \<Longrightarrow> agents s ! i = Lock_Cas \<Longrightarrow>
     lock_cas (spin s) = (p, l) \<Longrightarrow>
     spin_step calls s (s\<lparr>spin := l, agents := (agents s)[i := p]\<rparr>)"
| lock_spin: "i < length (agents s) \<Longrightarrow> agents s ! i = Lock_Spin \<Longrightarrow>
     spin_step calls s (s\<lparr>agents := (agents s)[i := lock_spin (spin s)]\<rparr>)"
| try_cas: "i < length (agents s) \<Longrightarrow> agents s ! i = Try_Cas \<Longrightarrow>
     try_lock_cas (spin s) = (p, l) \<Longrightarrow>
     spin_step calls s (s\<lparr>spin := l, agents := (agents s)[i := p]\<rparr>)"
| try_dec: "i < length (agents s) \<Longrightarrow> agents s ! i = Try_Dec \<Longrightarrow>
     spin_step calls s
       (s\<lparr>preempts := preempt_dec (preempts s), agents := (agents s)[i := Idle]\<rparr>)"
| guard_write: "i < length (agents s) \<Longrightarrow> agents s ! i = Held \<Longrightarrow>
     spin_step calls s (s\<lparr>spin := (spin s)\<lparr>lock_data := d\<rparr>\<rparr>)"
| guard_drop: "i < length (agents s) \<Longrightarrow> agents s ! i = Held \<Longrightarrow>
     spin_step calls s (s\<lparr>spin := drop_store (spin s), agents := (agents s)[i := Drop_Dec]\<rparr>)"
| drop_dec: "i < length (agents s) \<Longrightarrow> agents s ! i = Drop_Dec \<Longrightarrow>
     spin_step calls s
       (s\<lparr>preempts := preempt_dec (preempts s), agents := (agents s)[i := Idle]\<rparr>)"

definition spin_start :: "'a spin_sys \<Rightarrow> bool" where
  "spin_start s \<longleftrightarrow> (\<exists>d n. s = \<lparr>spin = spin_new d, preempts = 0, agents = replicate n Idle\<rparr>)"

lemmas spin_atomic_defs = lock_cas_def lock_spin_def try_lock_cas_def drop_store_def
  cas_false_true_def

subsection \<open>Invariants\<close>

text \<open>How many guards exist, and how often the agents have raised the preemption counter.\<close>

fun held_weight :: "spin_pc \<Rightarrow> nat" where
  "held_weight Held = 1"
| "held_weight _ = 0"

fun preempt_weight :: "spin_pc \<Rightarrow> nat" where
  "preempt_weight Idle = 0"
| "preempt_weight _ = 1"

lemma held_weight_eq: "held_weight p = (if p = Held then 1 else 0)"
  by (cases p) simp_all

lemma preempt_weight_eq: "preempt_weight p = (if p = Idle then 0 else 1)"
  by (cases p) simp_all

definition guards :: "'a spin_sys \<Rightarrow> nat" where
  "guards s = sum_list (map held_weight (agents s))"

definition raised :: "'a spin_sys \<Rightarrow> nat" where
  "raised s = sum_list (map preempt_weight (agents s))"

definition preempt_inv :: "'a spin_sys \<Rightarrow> bool" where
  "preempt_inv s \<longleftrightarrow> preempts s = of_nat (raised s)"

fun try_pc :: "spin_pc \<Rightarrow> bool" where
  "try_pc Try_Cas = True"
| "try_pc Try_Dec = True"
| "try_pc _ = False"

definition mutex_inv :: "'a spin_sys \<Rightarrow> bool" where
  "mutex_inv s \<longleftrightarrow> guards s = (if locked (spin s) then 1 else 0) \<and> list_all (\<lambda>p. \<not> try_pc p) (agents s)"

lemma guards_update:
  "i < length (agents s) \<Longrightarrow>
   sum_list (map held_weight ((agents s)[i := p])) + held_weight (agents s ! i)
   = guards s + held_weight p"
  by (simp add: guards_def sum_list_map_update)

lemma raised_update:
  "i < length (agents s) \<Longrightarrow>
   sum_list (map preempt_weight ((agents s)[i := p])) + preempt_weight (agents s ! i)
   = raised s + preempt_weight p"
  by (simp add: raised_def sum_list_map_update)

lemma list_all_update: "list_all P xs \<Longrightarrow> P x \<Longrightarrow> list_all P (xs[i := x])"
  by (auto simp: list_all_iff dest: set_update_subset_insert [THEN subsetD])

lemma preempt_inv_start: "spin_start s \<Longrightarrow> preempt_inv s"
  by (auto simp: spin_start_def preempt_inv_def raised_def)

lemma mutex_inv_start: "spin_start s \<Longrightarrow> mutex_inv s"
  by (auto simp: spin_start_def mutex_inv_def guards_def spin_new_def  list_all_iff)

lemma raised_same:
  "i < length (agents s) \<Longrightarrow> preempt_weight (agents s ! i) = preempt_weight p \<Longrightarrow>
   sum_list (map preempt_weight ((agents s)[i := p])) = raised s"
  using raised_update [of i s p] by simp

lemma raised_inc:
  "i < length (agents s) \<Longrightarrow> preempt_weight (agents s ! i) = 0 \<Longrightarrow> preempt_weight p = 1 \<Longrightarrow>
   sum_list (map preempt_weight ((agents s)[i := p])) = raised s + 1"
  using raised_update [of i s p] by simp

lemma raised_dec:
  "i < length (agents s) \<Longrightarrow> preempt_weight (agents s ! i) = 1 \<Longrightarrow> preempt_weight p = 0 \<Longrightarrow>
   raised s = sum_list (map preempt_weight ((agents s)[i := p])) + 1"
  using raised_update [of i s p] by simp

lemma call_pc_weights [simp]: "preempt_weight (call_pc c) = 1" "held_weight (call_pc c) = 0"
  by (cases c; simp)+

lemma preempt_inv_step: "preempt_inv s \<Longrightarrow> spin_step calls s t \<Longrightarrow> preempt_inv t"
proof (erule spin_step.cases, goal_cases)
  case (1 c i s)
  then show ?case
    by (simp add: preempt_inv_def raised_inc raised_def preempt_inc_of_nat)
next
  case (5 i s)
  then show ?case
    using raised_dec [of i s Idle]
    by (simp add: preempt_inv_def preempt_dec_def raised_def)
next
  case (8 i s)
  then show ?case
    using raised_dec [of i s Idle]
    by (simp add: preempt_inv_def preempt_dec_def raised_def)
qed (auto simp: preempt_inv_def raised_same raised_def spin_atomic_defs split: if_splits)

lemma guards_same:
  "i < length (agents s) \<Longrightarrow> held_weight (agents s ! i) = held_weight p \<Longrightarrow>
   sum_list (map held_weight ((agents s)[i := p])) = guards s"
  using guards_update [of i s p] by simp

lemma guards_inc:
  "i < length (agents s) \<Longrightarrow> held_weight (agents s ! i) = 0 \<Longrightarrow>
   sum_list (map held_weight ((agents s)[i := Held])) = Suc (guards s)"
  using guards_update [of i s Held] by simp

lemma guards_dec:
  "i < length (agents s) \<Longrightarrow> agents s ! i = Held \<Longrightarrow> held_weight p = 0 \<Longrightarrow>
   guards s = Suc (sum_list (map held_weight ((agents s)[i := p])))"
  using guards_update [of i s p] by simp

lemma mutex_inv_step:
  assumes inv: "mutex_inv s" and step: "spin_step {Call_Lock} s t"
  shows "mutex_inv t"
  using step inv
proof cases
  case (lock_cas i p l)
  with inv show ?thesis
    by (auto simp: mutex_inv_def guards_same guards_inc [unfolded guards_def] guards_def
        spin_atomic_defs list_all_update split: if_splits)
next
  case (try_cas i p l)
  with inv show ?thesis by (auto simp: mutex_inv_def list_all_length)
next
  case (try_dec i)
  with inv show ?thesis by (auto simp: mutex_inv_def list_all_length)
next
  case (guard_drop i)
  with inv guards_dec [of i s Drop_Dec] show ?thesis
    by (auto simp: mutex_inv_def guards_def drop_store_def list_all_update split: if_splits)
qed (auto simp: mutex_inv_def guards_same guards_def lock_spin_def list_all_update)

interpretation spin_preempt: machine spin_start "spin_step calls" preempt_inv
  by unfold_locales (auto intro: preempt_inv_start preempt_inv_step)

interpretation spin_mutex: machine spin_start "spin_step {Call_Lock}" mutex_inv
  by unfold_locales (auto intro: mutex_inv_start mutex_inv_step)

lemma raised_count: "raised s = length (filter (\<lambda>p. p \<noteq> Idle) (agents s))"
proof -
  have "sum_list (map preempt_weight ps) = length (filter (\<lambda>p. p \<noteq> Idle) ps)" for ps
    by (induction ps) (simp_all add: preempt_weight_eq)
  then show ?thesis by (simp add: raised_def)
qed

lemma guards_count: "guards s = length (filter (\<lambda>p. p = Held) (agents s))"
proof -
  have "sum_list (map held_weight ps) = length (filter (\<lambda>p. p = Held) ps)" for ps
    by (induction ps) (simp_all add: held_weight_eq)
  then show ?thesis by (simp add: guards_def)
qed

text \<open>Two concrete states of a system with two agents: the first holds the guard, or is dropping it.\<close>

definition spin_held_state :: "spin_pc \<Rightarrow> nat spin_sys" where
  "spin_held_state p =
     \<lparr>spin = \<lparr>locked = (p = Held), lock_data = 0\<rparr>, preempts = 2, agents = [p, Lock_Cas]\<rparr>"

lemma spin_held_reachable: "reach spin_start (spin_step {Call_Lock}) (spin_held_state Held)"
proof -
  let ?R = "reach spin_start (spin_step {Call_Lock}) :: nat spin_sys \<Rightarrow> bool"
  let ?st = "\<lambda>b c ps. \<lparr>spin = \<lparr>locked = b, lock_data = 0 :: nat\<rparr>, preempts = c, agents = ps\<rparr>"
  have "?R (?st False 0 [Idle, Idle])"
    by (rule reach_start) (auto simp: spin_start_def spin_new_def numeral_2_eq_2 intro!: exI [of _ 2])
  from reach_step [OF this spin_step.call [of Call_Lock _ 0]]
  have "?R (?st False 1 [Lock_Cas, Idle])" by (simp add: preempt_inc_def)
  from reach_step [OF this spin_step.lock_cas [of 0]]
  have "?R (?st True 1 [Held, Idle])" by (simp add: lock_cas_def cas_false_true_def)
  from reach_step [OF this spin_step.call [of Call_Lock _ 1]]
  show ?thesis by (simp add: preempt_inc_def spin_held_state_def)
qed

lemma spin_dropping_reachable: "reach spin_start (spin_step {Call_Lock}) (spin_held_state Drop_Dec)"
  using reach_step [OF spin_held_reachable spin_step.guard_drop [of 0]]
  by (simp add: spin_held_state_def drop_store_def)

text \<open>
  Once \<^verbatim>\<open>try_lock\<close> has answered \<^verbatim>\<open>None\<close> on a free lock the flag stays set with no guard to clear it;
  \<open>wedged\<close> is kept by every step of a system that goes on with \<^verbatim>\<open>lock\<close> alone.
\<close>

definition wedged :: "'a spin_sys \<Rightarrow> bool" where
  "wedged s \<longleftrightarrow> locked (spin s) \<and> guards s = 0 \<and> list_all (\<lambda>p. p \<noteq> Try_Cas) (agents s)"

lemma guards_0_no_held: "guards s = 0 \<Longrightarrow> i < length (agents s) \<Longrightarrow> agents s ! i \<noteq> Held"
  using sum_list_map_nth_le [of i "agents s" held_weight] by (auto simp del: sum_list_eq_0_iff simp: guards_def)

lemma wedged_step:
  assumes inv: "wedged s" and step: "spin_step {Call_Lock} s t"
  shows "wedged t"
  using step inv
proof cases
  case (try_cas i p l)
  with inv show ?thesis by (auto simp: wedged_def list_all_length)
next
  case (guard_drop i)
  with inv guards_0_no_held [of s i] show ?thesis by (simp add: wedged_def)
qed (use inv in \<open>auto simp: wedged_def guards_same [unfolded guards_def] guards_def
      spin_atomic_defs list_all_update\<close>)

interpretation spin_wedged: machine wedged "spin_step {Call_Lock}" wedged
  by unfold_locales (auto intro: wedged_step)

subsection \<open>Properties\<close>

text \<open>
  Claim C8 (mutual exclusion). In a system that enters a \<^verbatim>\<open>SpinLock\<close> through \<^verbatim>\<open>lock\<close> only, at most one
  agent holds a guard, and the lock word is set exactly while one does, whatever the number of
  agents and the interleaving of their atomic operations.
\<close>

theorem spin_lock_mutual_exclusion:
  assumes "reach spin_start (spin_step {Call_Lock}) s"
  shows "length (filter (\<lambda>p. p = Held) (agents s)) = (if locked (spin s) then 1 else 0)"
  using spin_mutex.inv_reach [OF assms] by (simp add: mutex_inv_def guards_count)

theorem spin_lock_mutual_exclusion_witness:
  "length (filter (\<lambda>p. p = Held) (agents (spin_held_state Held))) = 1"
  using spin_lock_mutual_exclusion [OF spin_held_reachable] by (simp add: spin_held_state_def)

text \<open>
  Claim C28 (preemption counter). In every reachable state of a system that may use both \<^verbatim>\<open>lock\<close> and
  \<^verbatim>\<open>try_lock\<close>, the preemption counter is the number of agents that are inside a call, hold a guard
  or are dropping one, so it is back at zero when none is left.
\<close>

theorem spin_lock_preempt_balanced:
  assumes "reach spin_start (spin_step calls) s"
  shows "preempts s = of_nat (length (filter (\<lambda>p. p \<noteq> Idle) (agents s)))"
  using spin_preempt.inv_reach [OF assms] by (simp add: preempt_inv_def raised_count)

theorem spin_lock_preempt_balanced_witness:
  "preempts (spin_held_state Held)
   = of_nat (length (filter (\<lambda>p. p \<noteq> Idle) (agents (spin_held_state Held))))"
  by (rule spin_lock_preempt_balanced [OF spin_held_reachable])



text \<open>
  Claim C34 (\<^verbatim>\<open>try_lock\<close> breaks mutual exclusion). The test in \<^verbatim>\<open>try_lock\<close> is inverted: it builds a guard
  when the \<^verbatim>\<open>compare_exchange\<close> failed. A system that also calls \<^verbatim>\<open>try_lock\<close> reaches a state in which
  two agents hold a guard at once.
\<close>

theorem spin_try_lock_two_guards:
  "\<exists>s :: nat spin_sys. reach spin_start (spin_step {Call_Lock, Call_Try_Lock}) s \<and>
     agents s = [Held, Held] \<and> locked (spin s)"
proof -
  let ?R = "reach spin_start (spin_step {Call_Lock, Call_Try_Lock}) :: nat spin_sys \<Rightarrow> bool"
  let ?st = "\<lambda>b c ps. \<lparr>spin = \<lparr>locked = b, lock_data = 0 :: nat\<rparr>, preempts = c, agents = ps\<rparr>"
  have "?R (?st False 0 [Idle, Idle])"
    by (rule reach_start) (auto simp: spin_start_def spin_new_def numeral_2_eq_2 intro!: exI [of _ 2])
  from reach_step [OF this spin_step.call [of Call_Lock _ 0]]
  have "?R (?st False 1 [Lock_Cas, Idle])" by (simp add: preempt_inc_def)
  from reach_step [OF this spin_step.lock_cas [of 0]]
  have "?R (?st True 1 [Held, Idle])" by (simp add: lock_cas_def cas_false_true_def)
  from reach_step [OF this spin_step.call [of Call_Try_Lock _ 1]]
  have "?R (?st True 2 [Held, Try_Cas])" by (simp add: preempt_inc_def)
  from reach_step [OF this spin_step.try_cas [of 1]]
  have "?R (?st True 2 [Held, Held])" by (simp add: try_lock_cas_def cas_false_true_def)
  then show ?thesis by fastforce
qed



end
