(* ===== verification/Rw_Spin_Lock.thy ===== *)
theory Rw_Spin_Lock
  imports Percpu
begin

unbundle bit_operations_syntax

text \<open>
  Model of \<^verbatim>\<open>src/src/ds/sync/rwspinlock.rs\<close>: the reader/writer spin lock with an upgradeable read mode.
  As for \<open>Spin_Lock\<close>, an agent is one call of an acquiring operation together with the guard it
  returns, up to the end of the guard's \<^verbatim>\<open>drop\<close>, including the upgrades and downgrades in between.
  A state holds the lock word, the data, the preemption counter and the program point of every agent;
  \<open>rw_exec\<close> is the next atomic operation of an agent that is inside a call, \<open>rw_call\<close> the start of a
  call, and \<open>rw_step\<close> lets any agent move.

  The lock word is a 64-bit word and its updates wrap, as \<^verbatim>\<open>AtomicUsize\<close>'s do. \<open>fails\<close> is the choice
  of \<^verbatim>\<open>compare_exchange_weak\<close> to fail although the comparison holds.
\<close>

definition READER :: usize where
  "READER = push_bit 2 1"

definition UPGRADED :: usize where
  "UPGRADED = push_bit 1 1"

definition WRITER :: usize where
  "WRITER = 1"

record 'a rw_lock =
  lock_word :: usize
  rw_data :: 'a

definition rw_new :: "'a \<Rightarrow> 'a rw_lock" where
  "rw_new user_data = \<lparr>lock_word = 0, rw_data = user_data\<rparr>"

definition into_inner :: "'a rw_lock \<Rightarrow> 'a" where
  "into_inner l = rw_data l"

subsection \<open>Atomic operations on the lock word\<close>

text \<open>Each returns the outcome the code tests and the new value of the word.\<close>

definition compare_exchange :: "usize \<Rightarrow> usize \<Rightarrow> usize \<Rightarrow> bool \<Rightarrow> bool \<Rightarrow> bool \<times> usize" where
  "compare_exchange atomic cur new strong fails =
     (if atomic = cur \<and> (strong \<or> \<not> fails) then (True, new) else (False, atomic))"

definition read_add :: "usize \<Rightarrow> bool \<times> usize" where
  "read_add v = (v AND (WRITER OR UPGRADED) = 0, v + READER)"

definition read_undo :: "usize \<Rightarrow> usize" where
  "read_undo v = v - READER"

definition try_write_internal :: "bool \<Rightarrow> bool \<Rightarrow> usize \<Rightarrow> bool \<times> usize" where
  "try_write_internal strong fails v = compare_exchange v 0 WRITER strong fails"

definition upgradeable_or :: "usize \<Rightarrow> bool \<times> usize" where
  "upgradeable_or v = (v AND (WRITER OR UPGRADED) = 0, v OR UPGRADED)"

definition try_upgrade_internal :: "bool \<Rightarrow> bool \<Rightarrow> usize \<Rightarrow> bool \<times> usize" where
  "try_upgrade_internal strong fails v = compare_exchange v UPGRADED WRITER strong fails"

definition downgrade_add :: "usize \<Rightarrow> usize" where
  "downgrade_add v = v + READER"

definition read_drop_ok :: "usize \<Rightarrow> bool" where
  "read_drop_ok v \<longleftrightarrow> v AND NOT (WRITER OR UPGRADED) > 0"

definition read_drop_sub :: "usize \<Rightarrow> usize" where
  "read_drop_sub v = v - READER"

definition upgradeable_drop_ok :: "usize \<Rightarrow> bool" where
  "upgradeable_drop_ok v \<longleftrightarrow> v AND (WRITER OR UPGRADED) = UPGRADED"

definition upgradeable_drop_sub :: "usize \<Rightarrow> usize" where
  "upgradeable_drop_sub v = v - UPGRADED"

definition write_drop_ok :: "usize \<Rightarrow> bool" where
  "write_drop_ok v \<longleftrightarrow> v AND WRITER = WRITER"

definition write_drop_and :: "usize \<Rightarrow> usize" where
  "write_drop_and v = v AND NOT (WRITER OR UPGRADED)"

subsection \<open>Agents\<close>

text \<open>
  The program points. \<open>Reading\<close>, \<open>Writing\<close> and \<open>Upgradeable\<close> are live guards; the others are named after
  the call and the atomic operation that comes next. \<open>Panicked\<close> is a failed \<^verbatim>\<open>debug_assert!\<close>.
\<close>

datatype rw_pc =
    Idle
  | Read_Add | Read_Sub | Reading
  | Try_Read_Add | Try_Read_Sub | Try_Read_Dec
  | Write_Cas | Writing
  | Try_Write_Cas | Try_Write_Dec
  | Upg_Or | Upgradeable
  | Try_Upg_Or | Try_Upg_Dec
  | Upgrade_Cas | Try_Upgrade_Cas
  | Upg_Down_Add | Upg_Down_Inc | Upg_Down_Assert | Upg_Down_Sub | Upg_Down_Dec
  | Write_Down_Add | Write_Down_Inc | Write_Down_Assert | Write_Down_And | Write_Down_Dec
  | Read_Drop_Assert | Read_Drop_Sub | Read_Drop_Dec
  | Upg_Drop_Assert | Upg_Drop_Sub | Upg_Drop_Dec
  | Write_Drop_Assert | Write_Drop_And | Write_Drop_Dec
  | Panicked

datatype rw_op =
    Op_Read | Op_Try_Read | Op_Write | Op_Try_Write | Op_Upgradeable_Read | Op_Try_Upgradeable_Read
  | Op_Upgrade | Op_Try_Upgrade | Op_Downgrade | Op_Drop

text \<open>
  The calls the types allow: the acquiring operations from \<open>Idle\<close>, each of which first raises the
  preemption counter, and the operations of the three guards.
\<close>

fun rw_call :: "rw_op \<Rightarrow> rw_pc \<Rightarrow> usize \<Rightarrow> (rw_pc \<times> usize) option" where
  "rw_call Op_Read p c = (if p = Idle then Some (Read_Add, preempt_inc c) else None)"
| "rw_call Op_Try_Read p c = (if p = Idle then Some (Try_Read_Add, preempt_inc c) else None)"
| "rw_call Op_Write p c = (if p = Idle then Some (Write_Cas, preempt_inc c) else None)"
| "rw_call Op_Try_Write p c = (if p = Idle then Some (Try_Write_Cas, preempt_inc c) else None)"
| "rw_call Op_Upgradeable_Read p c = (if p = Idle then Some (Upg_Or, preempt_inc c) else None)"
| "rw_call Op_Try_Upgradeable_Read p c = (if p = Idle then Some (Try_Upg_Or, preempt_inc c) else None)"
| "rw_call Op_Upgrade p c = (if p = Upgradeable then Some (Upgrade_Cas, c) else None)"
| "rw_call Op_Try_Upgrade p c = (if p = Upgradeable then Some (Try_Upgrade_Cas, c) else None)"
| "rw_call Op_Downgrade p c =
     (if p = Upgradeable then Some (Upg_Down_Add, c)
      else if p = Writing then Some (Write_Down_Add, c) else None)"
| "rw_call Op_Drop p c =
     (if p = Reading then Some (Read_Drop_Assert, c)
      else if p = Upgradeable then Some (Upg_Drop_Assert, c)
      else if p = Writing then Some (Write_Drop_Assert, c) else None)"

definition debug_assert_pc :: "bool \<Rightarrow> bool \<Rightarrow> rw_pc \<Rightarrow> rw_pc" where
  "debug_assert_pc dbg ok p = (if dbg \<and> \<not> ok then Panicked else p)"

text \<open>One atomic operation: program point, lock word and preemption counter.\<close>

fun rw_exec :: "bool \<Rightarrow> bool \<Rightarrow> rw_pc \<Rightarrow> usize \<Rightarrow> usize \<Rightarrow> rw_pc \<times> usize \<times> usize" where
  "rw_exec dbg fails Read_Add v c =
     (let (ok, v') = read_add v in (if ok then Reading else Read_Sub, v', c))"
| "rw_exec dbg fails Read_Sub v c = (Read_Add, read_undo v, c)"
| "rw_exec dbg fails Try_Read_Add v c =
     (let (ok, v') = read_add v in (if ok then Reading else Try_Read_Sub, v', c))"
| "rw_exec dbg fails Try_Read_Sub v c = (Try_Read_Dec, read_undo v, c)"
| "rw_exec dbg fails Try_Read_Dec v c = (Idle, v, preempt_dec c)"
| "rw_exec dbg fails Write_Cas v c =
     (let (ok, v') = try_write_internal False fails v in (if ok then Writing else Write_Cas, v', c))"
| "rw_exec dbg fails Try_Write_Cas v c =
     (let (ok, v') = try_write_internal True fails v in (if ok then Writing else Try_Write_Dec, v', c))"
| "rw_exec dbg fails Try_Write_Dec v c = (Idle, v, preempt_dec c)"
| "rw_exec dbg fails Upg_Or v c =
     (let (ok, v') = upgradeable_or v in (if ok then Upgradeable else Upg_Or, v', c))"
| "rw_exec dbg fails Try_Upg_Or v c =
     (let (ok, v') = upgradeable_or v in (if ok then Upgradeable else Try_Upg_Dec, v', c))"
| "rw_exec dbg fails Try_Upg_Dec v c = (Idle, v, preempt_dec c)"
| "rw_exec dbg fails Upgrade_Cas v c =
     (let (ok, v') = try_upgrade_internal False fails v in (if ok then Writing else Upgrade_Cas, v', c))"
| "rw_exec dbg fails Try_Upgrade_Cas v c =
     (let (ok, v') = try_upgrade_internal True fails v in (if ok then Writing else Upgradeable, v', c))"
| "rw_exec dbg fails Upg_Down_Add v c = (Upg_Down_Inc, downgrade_add v, c)"
| "rw_exec dbg fails Upg_Down_Inc v c = (Upg_Down_Assert, v, preempt_inc c)"
| "rw_exec dbg fails Upg_Down_Assert v c =
     (debug_assert_pc dbg (upgradeable_drop_ok v) Upg_Down_Sub, v, c)"
| "rw_exec dbg fails Upg_Down_Sub v c = (Upg_Down_Dec, upgradeable_drop_sub v, c)"
| "rw_exec dbg fails Upg_Down_Dec v c = (Reading, v, preempt_dec c)"
| "rw_exec dbg fails Write_Down_Add v c = (Write_Down_Inc, downgrade_add v, c)"
| "rw_exec dbg fails Write_Down_Inc v c = (Write_Down_Assert, v, preempt_inc c)"
| "rw_exec dbg fails Write_Down_Assert v c =
     (debug_assert_pc dbg (write_drop_ok v) Write_Down_And, v, c)"
| "rw_exec dbg fails Write_Down_And v c = (Write_Down_Dec, write_drop_and v, c)"
| "rw_exec dbg fails Write_Down_Dec v c = (Reading, v, preempt_dec c)"
| "rw_exec dbg fails Read_Drop_Assert v c =
     (debug_assert_pc dbg (read_drop_ok v) Read_Drop_Sub, v, c)"
| "rw_exec dbg fails Read_Drop_Sub v c = (Read_Drop_Dec, read_drop_sub v, c)"
| "rw_exec dbg fails Read_Drop_Dec v c = (Idle, v, preempt_dec c)"
| "rw_exec dbg fails Upg_Drop_Assert v c =
     (debug_assert_pc dbg (upgradeable_drop_ok v) Upg_Drop_Sub, v, c)"
| "rw_exec dbg fails Upg_Drop_Sub v c = (Upg_Drop_Dec, upgradeable_drop_sub v, c)"
| "rw_exec dbg fails Upg_Drop_Dec v c = (Idle, v, preempt_dec c)"
| "rw_exec dbg fails Write_Drop_Assert v c =
     (debug_assert_pc dbg (write_drop_ok v) Write_Drop_And, v, c)"
| "rw_exec dbg fails Write_Drop_And v c = (Write_Drop_Dec, write_drop_and v, c)"
| "rw_exec dbg fails Write_Drop_Dec v c = (Idle, v, preempt_dec c)"
| "rw_exec dbg fails Idle v c = (Idle, v, c)"
| "rw_exec dbg fails Reading v c = (Reading, v, c)"
| "rw_exec dbg fails Writing v c = (Writing, v, c)"
| "rw_exec dbg fails Upgradeable v c = (Upgradeable, v, c)"
| "rw_exec dbg fails Panicked v c = (Panicked, v, c)"

record 'a rw_sys =
  rw :: "'a rw_lock"
  rw_preempts :: usize
  rw_agents :: "rw_pc list"

inductive rw_step :: "bool \<Rightarrow> 'a rw_sys \<Rightarrow> 'a rw_sys \<Rightarrow> bool" for dbg :: bool where
  call: "i < length (rw_agents s) \<Longrightarrow> rw_call op (rw_agents s ! i) (rw_preempts s) = Some (p, c) \<Longrightarrow>
     rw_step dbg s (s\<lparr>rw_preempts := c, rw_agents := (rw_agents s)[i := p]\<rparr>)"
| exec: "i < length (rw_agents s) \<Longrightarrow>
     rw_exec dbg fails (rw_agents s ! i) (lock_word (rw s)) (rw_preempts s) = (p, v, c) \<Longrightarrow>
     rw_step dbg s (s\<lparr>rw := (rw s)\<lparr>lock_word := v\<rparr>, rw_preempts := c,
       rw_agents := (rw_agents s)[i := p]\<rparr>)"
| deref_mut: "i < length (rw_agents s) \<Longrightarrow> rw_agents s ! i = Writing \<Longrightarrow>
     rw_step dbg s (s\<lparr>rw := (rw s)\<lparr>rw_data := d\<rparr>\<rparr>)"

text \<open>
  At most \<open>2 ^ 62 - 1\<close> agents: the reader count lives in the upper 62 bits of the word.
\<close>

definition rw_start :: "'a rw_sys \<Rightarrow> bool" where
  "rw_start s \<longleftrightarrow> (\<exists>d n. n < 2 ^ 62 \<and> s = \<lparr>rw = rw_new d, rw_preempts = 0, rw_agents = replicate n Idle\<rparr>)"

subsection \<open>The lock word as a reader count and two flags\<close>

definition enc :: "nat \<Rightarrow> bool \<Rightarrow> bool \<Rightarrow> usize" where
  "enc r u w = of_nat (4 * r + (if u then 2 else 0) + (if w then 1 else 0))"

lemma flag_values [simp]: "READER = 4" "UPGRADED = 2" "WRITER = 1"
  by (simp_all add: READER_def UPGRADED_def WRITER_def)

lemma enc_and_3: "enc r u w AND 3 = (if u then 2 else 0) + (if w then 1 else 0)"
proof -
  have "enc r u w AND mask 2 = of_nat ((4 * r + (if u then 2 else 0) + (if w then 1 else 0)) mod 2 ^ 2)"
    unfolding enc_def by (rule word_of_nat_and_mask)
  moreover have "mask 2 = (3 :: usize)" by (simp add: mask_eq_exp_minus_1)
  moreover have "(4 * r + (if u then 2 else 0) + (if w then 1 else 0)) mod 2 ^ 2
      = (if u then 2 else 0) + (if w then 1 else 0 :: nat)"
    by (cases u; cases w; simp; presburger)
  ultimately show ?thesis by (cases u; cases w) simp_all
qed

lemma enc_and_1: "enc r u w AND 1 = (if w then 1 else 0)"
proof -
  have "enc r u w AND mask 1 = of_nat ((4 * r + (if u then 2 else 0) + (if w then 1 else 0)) mod 2 ^ 1)"
    unfolding enc_def by (rule word_of_nat_and_mask)
  moreover have "(4 * r + (if u then 2 else 0) + (if w then 1 else 0)) mod 2 ^ 1
      = (if w then 1 else 0 :: nat)"
    by (cases u; cases w; simp; presburger)
  ultimately show ?thesis by (cases u; cases w) (simp_all add: mask_eq_exp_minus_1)
qed

lemma enc_or_2: "enc r u w OR 2 = enc r True w"
proof -
  have "(4 * r + (if u then 2 else 0) + (if w then 1 else 0)) OR 2 = 4 * r + 2 + (if w then 1 else (0::nat))"
    by (simp add: or_nat_rec [of _ 2] or_nat_rec [of _ "Suc 0"])
  then have "(of_nat (4 * r + (if u then 2 else 0) + (if w then 1 else 0)) :: usize) OR of_nat 2
     = of_nat (4 * r + 2 + (if w then 1 else 0))"
    by (metis of_nat_or_eq)
  then show ?thesis by (simp add: enc_def)
qed
lemma enc_clear: "enc r u w AND NOT 3 = enc r False False"
  unfolding word_and_not_eq_minus enc_and_3 by (simp add: enc_def)
lemma enc_arith:
  "enc r u w + 4 = enc (Suc r) u w" "enc (Suc r) u w - 4 = enc r u w"
  "enc r True w - 2 = enc r False w"
  by (simp_all add: enc_def)

lemma unat_enc: "r < 2 ^ 62 \<Longrightarrow> unat (enc r u w) = 4 * r + (if u then 2 else 0) + (if w then 1 else 0)"
  unfolding enc_def by (subst unat_of_nat_small) auto
lemma enc_eq_0: "r < 2 ^ 62 \<Longrightarrow> enc r u w = 0 \<longleftrightarrow> r = 0 \<and> \<not> u \<and> \<not> w"
  using unat_enc [of r u w] by (auto simp: unat_eq_0 [symmetric] split: if_splits)
lemma enc_eq_2: "r < 2 ^ 62 \<Longrightarrow> enc r u w = 2 \<longleftrightarrow> r = 0 \<and> u \<and> \<not> w"
  using unat_enc [of r u w] by (auto simp: word_unat_eq_iff split: if_splits)

lemmas enc_simps = enc_and_3 enc_and_1 enc_or_2 enc_clear enc_arith enc_eq_0 enc_eq_2

lemma enc_positive: "r < 2 ^ 62 \<Longrightarrow> 0 < enc r False False \<longleftrightarrow> 0 < r"
  by (simp add: word_gt_0 enc_eq_0)

lemma enc_WRITER: "WRITER = enc 0 False True" "UPGRADED = enc 0 True False" "0 = enc 0 False False"
  by (simp_all add: enc_def)

subsection \<open>What an agent contributes to the lock\<close>

text \<open>
  \<open>rd\<close>: one unit of the reader count; \<open>up\<close>: the upgradeable mode; \<open>wr\<close>: the writer bit; \<open>sh\<close>: a read
  guard that is usable (the reader count also holds failed attempts that are about to be undone and
  the reservation of a downgrade in progress); \<open>pre\<close>: the preemption counter. \<open>weights\<close> is the table of
  these five contributions.
\<close>

fun weights :: "rw_pc \<Rightarrow> nat \<times> nat \<times> nat \<times> nat \<times> nat" where
  "weights Idle = (0, 0, 0, 0, 0)"
| "weights Read_Add = (0, 0, 0, 0, 1)"
| "weights Read_Sub = (1, 0, 0, 0, 1)"
| "weights Reading = (1, 0, 0, 1, 1)"
| "weights Try_Read_Add = (0, 0, 0, 0, 1)"
| "weights Try_Read_Sub = (1, 0, 0, 0, 1)"
| "weights Try_Read_Dec = (0, 0, 0, 0, 1)"
| "weights Write_Cas = (0, 0, 0, 0, 1)"
| "weights Writing = (0, 0, 1, 0, 1)"
| "weights Try_Write_Cas = (0, 0, 0, 0, 1)"
| "weights Try_Write_Dec = (0, 0, 0, 0, 1)"
| "weights Upg_Or = (0, 0, 0, 0, 1)"
| "weights Upgradeable = (0, 1, 0, 0, 1)"
| "weights Try_Upg_Or = (0, 0, 0, 0, 1)"
| "weights Try_Upg_Dec = (0, 0, 0, 0, 1)"
| "weights Upgrade_Cas = (0, 1, 0, 0, 1)"
| "weights Try_Upgrade_Cas = (0, 1, 0, 0, 1)"
| "weights Upg_Down_Add = (0, 1, 0, 0, 1)"
| "weights Upg_Down_Inc = (1, 1, 0, 0, 1)"
| "weights Upg_Down_Assert = (1, 1, 0, 0, 2)"
| "weights Upg_Down_Sub = (1, 1, 0, 0, 2)"
| "weights Upg_Down_Dec = (1, 0, 0, 1, 2)"
| "weights Write_Down_Add = (0, 0, 1, 0, 1)"
| "weights Write_Down_Inc = (1, 0, 1, 0, 1)"
| "weights Write_Down_Assert = (1, 0, 1, 0, 2)"
| "weights Write_Down_And = (1, 0, 1, 0, 2)"
| "weights Write_Down_Dec = (1, 0, 0, 1, 2)"
| "weights Read_Drop_Assert = (1, 0, 0, 1, 1)"
| "weights Read_Drop_Sub = (1, 0, 0, 1, 1)"
| "weights Read_Drop_Dec = (0, 0, 0, 0, 1)"
| "weights Upg_Drop_Assert = (0, 1, 0, 0, 1)"
| "weights Upg_Drop_Sub = (0, 1, 0, 0, 1)"
| "weights Upg_Drop_Dec = (0, 0, 0, 0, 1)"
| "weights Write_Drop_Assert = (0, 0, 1, 0, 1)"
| "weights Write_Drop_And = (0, 0, 1, 0, 1)"
| "weights Write_Drop_Dec = (0, 0, 0, 0, 1)"
| "weights Panicked = (0, 0, 0, 0, 0)"

definition rd :: "rw_pc \<Rightarrow> nat" where
  "rd p = (case weights p of (r, u, w, s, n) \<Rightarrow> r)"

definition up :: "rw_pc \<Rightarrow> nat" where
  "up p = (case weights p of (r, u, w, s, n) \<Rightarrow> u)"

definition wr :: "rw_pc \<Rightarrow> nat" where
  "wr p = (case weights p of (r, u, w, s, n) \<Rightarrow> w)"

definition sh :: "rw_pc \<Rightarrow> nat" where
  "sh p = (case weights p of (r, u, w, s, n) \<Rightarrow> s)"

definition pre :: "rw_pc \<Rightarrow> nat" where
  "pre p = (case weights p of (r, u, w, s, n) \<Rightarrow> n)"

lemmas weight_defs = rd_def up_def wr_def sh_def pre_def

definition tot :: "(rw_pc \<Rightarrow> nat) \<Rightarrow> rw_pc list \<Rightarrow> nat" where
  "tot f ps = sum_list (map f ps)"

lemma tot_update: "i < length ps \<Longrightarrow> tot f (ps[i := p]) = tot f ps + f p - f (ps ! i)"
  using sum_list_map_update [of i ps f p] by (simp add: tot_def)

lemma tot_nth_le: "i < length ps \<Longrightarrow> f (ps ! i) \<le> tot f ps"
  by (simp add: tot_def sum_list_map_nth_le)

lemma tot_mono: "(\<And>p. f p \<le> g p) \<Longrightarrow> tot f ps \<le> tot g ps"
  by (simp add: tot_def sum_list_mono)

lemma sh_le_rd: "tot sh ps \<le> tot rd ps"
  proof (rule tot_mono)
  show "sh p \<le> rd p" for p by (cases p) (simp_all add: sh_def rd_def)
qed

lemma rd_le_length: "tot rd ps \<le> length ps"
  proof -
  have "rd p \<le> 1" for p by (cases p) (simp_all add: rd_def)
  then have "tot rd ps \<le> tot (\<lambda>_. 1) ps" by (rule tot_mono)
  then show ?thesis by (simp add: tot_def sum_list_triv)
qed

lemma tot_Idle: "f Idle = 0 \<Longrightarrow> tot f (replicate n Idle) = 0"
  by (simp add: tot_def)

definition word_inv :: "usize \<Rightarrow> rw_pc list \<Rightarrow> bool \<Rightarrow> bool" where
  "word_inv v ps u \<longleftrightarrow>
     v = enc (tot rd ps) u (tot wr ps = 1)
     \<and> tot wr ps + tot up ps \<le> 1
     \<and> (tot up ps = 1 \<longrightarrow> u) \<and> (u \<longrightarrow> tot up ps + tot wr ps = 1)
     \<and> (tot wr ps = 1 \<longrightarrow> tot sh ps = 0)"

definition rw_inv :: "'a rw_sys \<Rightarrow> bool" where
  "rw_inv s \<longleftrightarrow>
     length (rw_agents s) < 2 ^ 62
     \<and> (\<exists>u. word_inv (lock_word (rw s)) (rw_agents s) u)
     \<and> rw_preempts s = of_nat (tot pre (rw_agents s))
     \<and> Panicked \<notin> set (rw_agents s)"

lemma tot_same: "i < length ps \<Longrightarrow> f p = f (ps ! i) \<Longrightarrow> tot f (ps[i := p]) = tot f ps"
  by (simp add: tot_update)

lemma tot_Suc: "i < length ps \<Longrightarrow> f p = Suc (f (ps ! i)) \<Longrightarrow> tot f (ps[i := p]) = Suc (tot f ps)"
  by (simp add: tot_update)

lemma tot_pred: "i < length ps \<Longrightarrow> f (ps ! i) = Suc (f p) \<Longrightarrow> tot f ps = Suc (tot f (ps[i := p]))"
  using tot_nth_le [of i ps f] by (simp add: tot_update)

lemma word_keep:
  assumes "word_inv v ps u" "i < length ps"
    and "rd p = rd (ps ! i)" "up p = up (ps ! i)" "wr p = wr (ps ! i)" "sh p = sh (ps ! i)"
  shows "word_inv v (ps[i := p]) u"
  using assms by (simp add: word_inv_def tot_same)

lemma word_add:
  assumes "word_inv v ps u" "i < length ps"
    and "rd p = Suc (rd (ps ! i))" "up p = up (ps ! i)" "wr p = wr (ps ! i)" "sh p = sh (ps ! i)"
  shows "word_inv (v + 4) (ps[i := p]) u"
  using assms by (simp add: word_inv_def tot_same tot_Suc enc_arith)

lemma word_sub:
  assumes "word_inv v ps u" "i < length ps"
    and "rd (ps ! i) = Suc (rd p)" "up p = up (ps ! i)" "wr p = wr (ps ! i)" "sh p \<le> sh (ps ! i)"
  shows "word_inv (v - 4) (ps[i := p]) u"
  using assms tot_pred [of i ps rd p]
  by (auto simp: word_inv_def tot_same tot_update [of i ps sh] enc_arith)

lemma word_read:
  assumes "word_inv v ps u" "i < length ps" "v AND 3 = 0"
    and "rd p = Suc (rd (ps ! i))" "up p = up (ps ! i)" "wr p = wr (ps ! i)"
  shows "word_inv (v + 4) (ps[i := p]) u"
  using assms
  by (auto simp: word_inv_def tot_same tot_Suc enc_arith enc_and_3 split: if_splits)

lemma word_invD:
  assumes "word_inv v ps u"
  shows "v = enc (tot rd ps) u (tot wr ps = 1)" "tot wr ps + tot up ps \<le> 1"
    "tot up ps = 1 \<Longrightarrow> u" "u \<Longrightarrow> tot up ps + tot wr ps = 1" "tot wr ps = 1 \<Longrightarrow> tot sh ps = 0"
  using assms by (simp_all add: word_inv_def)

lemma word_write:
  assumes inv: "word_inv 0 ps u" and i: "i < length ps" and len: "length ps < 2 ^ 62"
    and p: "rd p = rd (ps ! i)" "up p = up (ps ! i)" "wr p = Suc (wr (ps ! i))" "sh p = sh (ps ! i)"
  shows "word_inv 1 (ps[i := p]) False"
proof -
  have "tot rd ps = 0" "\<not> u" "tot wr ps \<noteq> 1"
    using enc_eq_0 [of "tot rd ps" u "tot wr ps = 1"] rd_le_length [of ps] len word_invD(1) [OF inv]
    by simp_all
  with word_invD(2,3) [OF inv] sh_le_rd [of ps]
  have "tot rd ps = 0" "tot wr ps = 0" "tot up ps = 0" "tot sh ps = 0" by linarith+
  then show ?thesis
    using i p by (simp add: word_inv_def tot_same tot_Suc enc_def)
qed

lemma word_upgrade:
  assumes inv: "word_inv 2 ps u" and i: "i < length ps" and len: "length ps < 2 ^ 62"
    and p: "rd p = rd (ps ! i)" "up (ps ! i) = Suc (up p)" "wr p = Suc (wr (ps ! i))" "sh p = sh (ps ! i)"
  shows "word_inv 1 (ps[i := p]) False"
proof -
  have "tot rd ps = 0" "u" "tot wr ps \<noteq> 1"
    using enc_eq_2 [of "tot rd ps" u "tot wr ps = 1"] rd_le_length [of ps] len word_invD(1) [OF inv]
    by simp_all
  with word_invD(2,4) [OF inv] sh_le_rd [of ps]
  have "tot rd ps = 0" "tot wr ps = 0" "tot up ps = 1" "tot sh ps = 0" by linarith+
  then show ?thesis
    using i p tot_pred [of i ps up p] by (simp add: word_inv_def tot_same tot_Suc enc_def)
qed

lemma word_or:
  assumes "word_inv v ps u" "i < length ps" "v AND 3 = 0"
    and "rd p = rd (ps ! i)" "up p = Suc (up (ps ! i))" "wr p = wr (ps ! i)" "sh p = sh (ps ! i)"
  shows "word_inv (v OR 2) (ps[i := p]) True"
  using assms
  by (auto simp: word_inv_def tot_same tot_Suc enc_or_2 enc_and_3 split: if_splits)

lemma word_or_taken:
  assumes "word_inv v ps u" "i < length ps" "v AND 3 \<noteq> 0"
    and "rd p = rd (ps ! i)" "up p = up (ps ! i)" "wr p = wr (ps ! i)" "sh p = sh (ps ! i)"
  shows "word_inv (v OR 2) (ps[i := p]) True"
  using assms
  by (auto simp: word_inv_def tot_same enc_or_2 enc_and_3 split: if_splits)

lemma word_drop_upgradeable:
  assumes "word_inv v ps u" "i < length ps"
    and "rd p = rd (ps ! i)" "up (ps ! i) = Suc (up p)" "wr p = wr (ps ! i)"
  shows "word_inv (v - 2) (ps[i := p]) False"
  using assms tot_pred [of i ps up p]
  by (auto simp: word_inv_def tot_same enc_arith)

lemma word_drop_write:
  assumes inv: "word_inv v ps u" and i: "i < length ps"
    and p: "rd p = rd (ps ! i)" "up p = up (ps ! i)" "wr (ps ! i) = Suc (wr p)"
  shows "word_inv (v - (v AND 3)) (ps[i := p]) False"
proof -
  have "tot wr ps = 1" "tot wr (ps[i := p]) = 0" "tot up ps = 0"
    using tot_pred [OF i p(3)] word_invD(2) [OF inv] by linarith+
  moreover have "v - (v AND 3) = enc (tot rd ps) False False"
    unfolding word_invD(1) [OF inv] enc_and_3 by (simp add: enc_def)
  ultimately show ?thesis
    using i p by (simp add: word_inv_def tot_same)
qed

subsection \<open>Every step keeps the invariant\<close>

lemmas rw_atomic_defs = read_add_def read_undo_def try_write_internal_def upgradeable_or_def
  try_upgrade_internal_def compare_exchange_def downgrade_add_def read_drop_sub_def
  upgradeable_drop_sub_def

lemma write_drop_and_eq: "write_drop_and v = v - (v AND 3)"
  unfolding write_drop_and_def word_and_not_eq_minus by simp

lemma drop_asserts:
  assumes inv: "word_inv v ps u" and i: "i < length ps" and len: "length ps < 2 ^ 62"
  shows "rd (ps ! i) = 1 \<Longrightarrow> read_drop_ok v"
    and "up (ps ! i) = 1 \<Longrightarrow> upgradeable_drop_ok v"
    and "wr (ps ! i) = 1 \<Longrightarrow> write_drop_ok v"
proof -
  note v = word_invD [OF inv] and le = tot_nth_le [OF i]
  show "read_drop_ok v" if "rd (ps ! i) = 1"
  proof -
    have "v - (v AND 3) = enc (tot rd ps) False False"
      unfolding v(1) enc_and_3 by (simp add: enc_def)
    then show ?thesis
      using le [of rd] that enc_positive [of "tot rd ps"] rd_le_length [of ps] len
      unfolding read_drop_ok_def word_and_not_eq_minus by simp
  qed
  show "upgradeable_drop_ok v" if "up (ps ! i) = 1"
  proof -
    have "tot up ps = 1" "tot wr ps = 0" using le [of up] v(2) that by linarith+
    with v(3) show ?thesis by (simp add: upgradeable_drop_ok_def v(1) enc_and_3)
  qed
  show "write_drop_ok v" if "wr (ps ! i) = 1"
  proof -
    have "tot wr ps = 1" using le [of wr] v(2) that by linarith
    then show ?thesis by (simp add: write_drop_ok_def v(1) enc_and_1)
  qed
qed

lemma rw_exec_word:
  assumes inv: "word_inv v ps u" and i: "i < length ps" and len: "length ps < 2 ^ 62"
    and step: "rw_exec dbg fails (ps ! i) v c = (p, v', c')"
  shows "\<exists>u'. word_inv v' (ps[i := p]) u'"
  using step inv
    word_keep [OF inv i, of p] word_add [OF inv i, of p] word_sub [OF inv i, of p]
    word_read [OF inv i _, of p] word_or [OF inv i _, of p] word_or_taken [OF inv i _, of p]
    word_write [OF _ i len, of u p] word_upgrade [OF _ i len, of u p]
    word_drop_upgradeable [OF inv i, of p] word_drop_write [OF inv i, of p]
    drop_asserts [OF inv i len]
  by (cases "ps ! i")
    (auto simp: rw_atomic_defs write_drop_and_eq weight_defs debug_assert_pc_def split: if_splits)

lemma rw_exec_pre:
  assumes "rw_exec dbg fails q v c = (p, v', c')" and "p \<noteq> Panicked"
  shows "pre p = pre q \<and> c' = c \<or> pre p = Suc (pre q) \<and> c' = preempt_inc c
    \<or> pre q = Suc (pre p) \<and> c' = preempt_dec c"
  using assms
  by (cases q)
    (auto simp: rw_atomic_defs pre_def debug_assert_pc_def split: if_splits)

lemma preempt_count_update:
  assumes "i < length ps" and "c = of_nat (tot pre ps)"
    and "pre p = pre (ps ! i) \<and> c' = c \<or> pre p = Suc (pre (ps ! i)) \<and> c' = preempt_inc c
      \<or> pre (ps ! i) = Suc (pre p) \<and> c' = preempt_dec c"
  shows "c' = of_nat (tot pre (ps[i := p]))"
  using assms(3)
proof (elim disjE conjE)
  assume "pre p = pre (ps ! i)" "c' = c"
  then show ?thesis using assms(1,2) by (simp add: tot_same)
next
  assume "pre p = Suc (pre (ps ! i))" "c' = preempt_inc c"
  then show ?thesis using assms(1,2) by (simp add: tot_Suc preempt_inc_def)
next
  assume "pre (ps ! i) = Suc (pre p)" "c' = preempt_dec c"
  then show ?thesis using assms(1,2) tot_pred [of i ps pre p] by (simp add: preempt_dec_def)
qed

lemma rw_exec_no_panic:
  assumes "word_inv v ps u" "i < length ps" "length ps < 2 ^ 62"
    and "rw_exec dbg fails (ps ! i) v c = (p, v', c')" "ps ! i \<noteq> Panicked"
  shows "p \<noteq> Panicked"
  using assms(4,5) drop_asserts [OF assms(1-3)]
  by (cases "ps ! i") (auto simp: rw_atomic_defs weight_defs debug_assert_pc_def split: if_splits)

lemma rw_call_weights:
  assumes "rw_call op q c = Some (p, c')"
  shows "rd p = rd q" "up p = up q" "wr p = wr q" "sh p = sh q" "p \<noteq> Panicked"
    "pre p = pre q \<and> c' = c \<or> pre p = Suc (pre q) \<and> c' = preempt_inc c"
  using assms by (cases op; simp add: weight_defs split: if_splits; auto)+

lemma rw_inv_start:
  assumes "rw_start s"
  shows "rw_inv s"
proof -
  obtain d n where n: "n < 2 ^ 62"
    and s: "s = \<lparr>rw = rw_new d, rw_preempts = 0, rw_agents = replicate n Idle\<rparr>"
    using assms by (auto simp: rw_start_def)
  have "tot rd (replicate n Idle) = 0" "tot up (replicate n Idle) = 0" "tot wr (replicate n Idle) = 0"
    "tot sh (replicate n Idle) = 0" "tot pre (replicate n Idle) = 0"
    by (simp_all add: tot_Idle weight_defs)
  then have "word_inv 0 (replicate n Idle) False"
    by (simp add: word_inv_def enc_def)
  then show ?thesis
    using n \<open>tot pre (replicate n Idle) = 0\<close> unfolding rw_inv_def s
    by (auto simp: rw_new_def)
qed

lemma notin_set_update: "x \<notin> set xs \<Longrightarrow> x \<noteq> y \<Longrightarrow> x \<notin> set (xs[i := y])"
  by (auto dest: set_update_subset_insert [THEN subsetD])

lemma rw_inv_step:
  assumes inv: "rw_inv s" and step: "rw_step dbg s t"
  shows "rw_inv t"
proof -
  obtain u where len: "length (rw_agents s) < 2 ^ 62"
    and u: "word_inv (lock_word (rw s)) (rw_agents s) u"
    and pre: "rw_preempts s = of_nat (tot pre (rw_agents s))"
    and ok: "Panicked \<notin> set (rw_agents s)"
    using inv by (auto simp: rw_inv_def)
  from step show ?thesis
  proof cases
    case (call i op p c)
    note w = rw_call_weights [OF call(3)]
    have "word_inv (lock_word (rw s)) ((rw_agents s)[i := p]) u"
      by (rule word_keep [OF u call(2) w(1-4)])
    moreover have "c = of_nat (tot pre ((rw_agents s)[i := p]))"
      using w(6) by (intro preempt_count_update [OF call(2) pre]) blast
    ultimately show ?thesis
      using call len ok w(5) by (auto simp: rw_inv_def notin_set_update)
  next
    case (exec i fails p v c)
    have "rw_agents s ! i \<noteq> Panicked" using ok exec(2) nth_mem by fastforce
    then have p: "p \<noteq> Panicked"
      by (rule rw_exec_no_panic [OF u exec(2) len exec(3)])
    have "c = of_nat (tot pre ((rw_agents s)[i := p]))"
      by (rule preempt_count_update [OF exec(2) pre rw_exec_pre [OF exec(3) p]])
    with rw_exec_word [OF u exec(2) len exec(3)] show ?thesis
      using exec(1) len ok p by (auto simp: rw_inv_def notin_set_update)
  next
    case (deref_mut i d)
    with inv show ?thesis by (simp add: rw_inv_def)
  qed
qed

interpretation rw_machine: machine rw_start "rw_step dbg" rw_inv
  by unfold_locales (auto intro: rw_inv_start rw_inv_step)

lemma tot_two_le:
  "i < length ps \<Longrightarrow> j < length ps \<Longrightarrow> i \<noteq> j \<Longrightarrow> f (ps ! i) + f (ps ! j) \<le> tot f ps"
  by (simp add: tot_def sum_list_map_two_le)

text \<open>Scheduled runs, to exhibit reachable states: \<open>(i, Some op)\<close> lets agent \<open>i\<close> call \<open>op\<close>,
  \<open>(i, None)\<close> lets it do its next atomic operation.\<close>

fun rw_move :: "bool \<Rightarrow> nat \<times> rw_op option \<Rightarrow> 'a rw_sys \<Rightarrow> 'a rw_sys option" where
  "rw_move dbg (i, Some op) s =
     (if i < length (rw_agents s) then
        map_option (\<lambda>(p, c). s\<lparr>rw_preempts := c, rw_agents := (rw_agents s)[i := p]\<rparr>)
          (rw_call op (rw_agents s ! i) (rw_preempts s))
      else None)"
| "rw_move dbg (i, None) s =
     (if i < length (rw_agents s) then
        (case rw_exec dbg False (rw_agents s ! i) (lock_word (rw s)) (rw_preempts s) of
           (p, v, c) \<Rightarrow> Some (s\<lparr>rw := (rw s)\<lparr>lock_word := v\<rparr>, rw_preempts := c,
             rw_agents := (rw_agents s)[i := p]\<rparr>))
      else None)"

fun rw_run :: "bool \<Rightarrow> (nat \<times> rw_op option) list \<Rightarrow> 'a rw_sys \<Rightarrow> 'a rw_sys option" where
  "rw_run dbg [] s = Some s"
| "rw_run dbg (m # ms) s = Option.bind (rw_move dbg m s) (rw_run dbg ms)"

definition rw_init :: "nat \<Rightarrow> nat rw_sys" where
  "rw_init n = \<lparr>rw = rw_new 0, rw_preempts = 0, rw_agents = replicate n Idle\<rparr>"

lemma rw_move_step: "rw_move dbg m s = Some t \<Longrightarrow> rw_step dbg s t"
  by (cases "(dbg, m, s)" rule: rw_move.cases)
    (auto intro: rw_step.call rw_step.exec split: if_splits prod.splits)

lemma rw_run_reach: "reach st (rw_step dbg) s \<Longrightarrow> rw_run dbg ms s = Some t \<Longrightarrow> reach st (rw_step dbg) t"
proof (induction ms arbitrary: s)
  case (Cons m ms)
  then obtain s' where s': "rw_move dbg m s = Some s'" "rw_run dbg ms s' = Some t"
    by (auto simp: bind_eq_Some_conv)
  have "reach st (rw_step dbg) s'"
    using Cons.prems(1) rw_move_step [OF s'(1)] by (rule reach_step)
  then show ?case using s'(2) by (rule Cons.IH)
qed simp

lemma rw_run_reachable:
  "n < 2 ^ 62 \<Longrightarrow> rw_run dbg ms (rw_init n) = Some t \<Longrightarrow> reach rw_start (rw_step dbg) t"
  by (rule rw_run_reach [OF reach_start]) (auto simp: rw_start_def rw_init_def)

lemma rw_init_2: "rw_init 2 = \<lparr>rw = rw_new 0, rw_preempts = 0, rw_agents = [Idle, Idle]\<rparr>"
  by (simp add: rw_init_def numeral_2_eq_2)

lemmas rw_run_eval = rw_init_2 rw_new_def rw_atomic_defs write_drop_and_eq debug_assert_pc_def
  read_drop_ok_def upgradeable_drop_ok_def write_drop_ok_def preempt_inc_def preempt_dec_def

subsection \<open>Properties\<close>

definition guard_compatible :: "rw_pc \<Rightarrow> rw_pc \<Rightarrow> bool" where
  "guard_compatible p q \<longleftrightarrow>
     p = Reading \<and> q = Reading \<or> p = Reading \<and> q = Upgradeable \<or> p = Upgradeable \<and> q = Reading"

lemma reach_word_inv:
  assumes "reach rw_start (rw_step dbg) s"
  obtains u where "word_inv (lock_word (rw s)) (rw_agents s) u" "length (rw_agents s) < 2 ^ 62"
  using rw_machine.inv_reach [OF assms] by (auto simp: rw_inv_def)

lemma rw_guards_compatible:
  assumes "reach rw_start (rw_step dbg) s"
    and "i < length (rw_agents s)" "j < length (rw_agents s)" "i \<noteq> j"
    and "rw_agents s ! i \<in> {Reading, Upgradeable, Writing}"
    and "rw_agents s ! j \<in> {Reading, Upgradeable, Writing}"
  shows "guard_compatible (rw_agents s ! i) (rw_agents s ! j)"
proof -
  let ?ps = "rw_agents s"
  obtain u where inv: "word_inv (lock_word (rw s)) ?ps u"
    using reach_word_inv [OF assms(1)] .
  note two = tot_two_le [OF assms(2-4)] and i = tot_nth_le [OF assms(2)] and j = tot_nth_le [OF assms(3)]
  show ?thesis
    using assms(5,6) word_invD(2,5) [OF inv] two [of wr] two [of up] i [of wr] i [of up] i [of sh]
      j [of wr] j [of up] j [of sh]
    by (auto simp: guard_compatible_def weight_defs)
qed

text \<open>
  Claim C1 (mutual exclusion). In every reachable state, under any interleaving of any number of
  agents, two live guards of the same lock are compatible: read guards coexist with each other and
  with one upgradeable guard, a write guard excludes every other guard, and there are never two
  upgradeable guards.
\<close>

theorem rw_mutual_exclusion:
  assumes "reach rw_start (rw_step dbg) s"
    and "i < length (rw_agents s)" "j < length (rw_agents s)" "i \<noteq> j"
    and "rw_agents s ! i \<in> {Reading, Upgradeable, Writing}"
    and "rw_agents s ! j \<in> {Reading, Upgradeable, Writing}"
  shows "guard_compatible (rw_agents s ! i) (rw_agents s ! j)"
  using assms by (rule rw_guards_compatible)

theorem rw_mutual_exclusion_witness:
  "guard_compatible Reading Upgradeable"
proof -
  let ?t = "\<lparr>rw = \<lparr>lock_word = 6, rw_data = 0 :: nat\<rparr>, rw_preempts = 2, rw_agents = [Reading, Upgradeable]\<rparr>"
  have "rw_run True [(0, Some Op_Read), (0, None), (1, Some Op_Upgradeable_Read), (1, None)] (rw_init 2)
      = Some ?t"
    by (simp add: rw_run_eval)
  then have "reach rw_start (rw_step True) ?t" by (rule rw_run_reachable [rotated]) simp
  from rw_mutual_exclusion [OF this, of 0 1] show ?thesis by simp
qed

text \<open>
  Claim C17 (no assertion fails). The \<^verbatim>\<open>debug_assert!\<close>s in the three \<^verbatim>\<open>drop\<close> implementations hold in
  every execution: no agent ever reaches the panicking program point, in either build profile.
\<close>

theorem rw_drop_never_panics:
  assumes "reach rw_start (rw_step dbg) s"
  shows "Panicked \<notin> set (rw_agents s)"
  using rw_machine.inv_reach [OF assms] by (simp add: rw_inv_def)

theorem rw_drop_never_panics_witness:
  "Panicked \<notin> set [Idle, Read_Drop_Dec]"
proof -
  let ?t = "\<lparr>rw = \<lparr>lock_word = 0, rw_data = 0 :: nat\<rparr>, rw_preempts = 1, rw_agents = [Idle, Read_Drop_Dec]\<rparr>"
  have "rw_run True [(1, Some Op_Read), (1, None), (1, Some Op_Drop), (1, None), (1, None)] (rw_init 2)
      = Some ?t"
    by (simp add: rw_run_eval)
  then have "reach rw_start (rw_step True) ?t" by (rule rw_run_reachable [rotated]) simp
  from rw_drop_never_panics [OF this] show ?thesis by simp
qed

lemma tot_filter_rest:
  assumes "set ps \<subseteq> {Idle, Reading, Upgradeable, Writing}"
  shows "tot pre ps = length (filter (\<lambda>p. p \<noteq> Idle) ps)"
    and "tot rd ps = length (filter (\<lambda>p. p = Reading) ps)"
    and "tot up ps = length (filter (\<lambda>p. p = Upgradeable) ps)"
    and "tot wr ps = length (filter (\<lambda>p. p = Writing) ps)"
  using assms by (induction ps; auto simp: tot_def weight_defs)+



text \<open>
  Claim C18 (stable reads). While a read guard or an upgradeable guard is live, no step of any agent
  changes the protected data.
\<close>

theorem rw_readers_see_stable_data:
  assumes reach: "reach rw_start (rw_step dbg) s"
    and guard: "j < length (rw_agents s)" "rw_agents s ! j = Reading \<or> rw_agents s ! j = Upgradeable"
    and step: "rw_step dbg s t"
  shows "rw_data (rw t) = rw_data (rw s)"
  using step
proof cases
  case (deref_mut i d)
  with guard have "i \<noteq> j" by auto
  with rw_guards_compatible [OF reach deref_mut(2) guard(1)] deref_mut(3) guard(2)
  show ?thesis by (auto simp: guard_compatible_def)
qed simp_all

theorem rw_readers_see_stable_data_witness:
  "rw_data (rw \<lparr>rw = \<lparr>lock_word = 4, rw_data = 7 :: nat\<rparr>, rw_preempts = 2, rw_agents = [Reading, Write_Cas]\<rparr>)
   = rw_data (rw \<lparr>rw = \<lparr>lock_word = 4, rw_data = 7\<rparr>, rw_preempts = 1, rw_agents = [Reading, Idle]\<rparr>)"
proof -
  let ?i = "\<lparr>rw = rw_new (7 :: nat), rw_preempts = 0, rw_agents = [Idle, Idle]\<rparr>"
  let ?s = "\<lparr>rw = \<lparr>lock_word = 4, rw_data = 7 :: nat\<rparr>, rw_preempts = 1, rw_agents = [Reading, Idle]\<rparr>"
  let ?t = "\<lparr>rw = \<lparr>lock_word = 4, rw_data = 7 :: nat\<rparr>, rw_preempts = 2, rw_agents = [Reading, Write_Cas]\<rparr>"
  have "[Idle, Idle] = replicate 2 Idle" by (simp add: numeral_2_eq_2)
  then have "rw_start ?i" unfolding rw_start_def by (intro exI [of _ 7] exI [of _ 2]) simp
  moreover have "rw_run True [(0, Some Op_Read), (0, None)] ?i = Some ?s" by (simp add: rw_run_eval)
  ultimately have s: "reach rw_start (rw_step True) ?s" by (blast intro: rw_run_reach reach_start)
  have "rw_move True (1, Some Op_Write) ?s = Some ?t" by (simp add: rw_run_eval)
  then have "rw_step True ?s ?t" by (rule rw_move_step)
  from rw_readers_see_stable_data [OF s _ _ this, of 0] show ?thesis by simp
qed

text \<open>
  Readers are held off. While an upgradeable or a write guard is live, a \<^verbatim>\<open>try_read\<close> whose
  \<^verbatim>\<open>fetch_add\<close> comes next does not get a guard: it goes on to undo its increment, and the undo
  restores the lock word it found.
\<close>

lemma rw_try_read_refused:
  assumes reach: "reach rw_start (rw_step dbg) s"
    and "i < length (rw_agents s)" "rw_agents s ! i = Upgradeable \<or> rw_agents s ! i = Writing"
  shows "\<exists>v. rw_exec dbg fails Try_Read_Add (lock_word (rw s)) c = (Try_Read_Sub, v, c)
    \<and> rw_exec dbg fails Try_Read_Sub v c = (Try_Read_Dec, lock_word (rw s), c)"
proof -
  obtain u where inv: "word_inv (lock_word (rw s)) (rw_agents s) u"
    using reach_word_inv [OF reach] .
  have "up (rw_agents s ! i) + wr (rw_agents s ! i) = 1"
    using assms(3) by (auto simp: weight_defs)
  with tot_nth_le [OF assms(2), of up] tot_nth_le [OF assms(2), of wr]
  have "tot wr (rw_agents s) = 1 \<or> tot up (rw_agents s) = 1"
    using word_invD(2) [OF inv] by linarith
  with word_invD(3) [OF inv] have "lock_word (rw s) AND 3 \<noteq> 0"
    unfolding word_invD(1) [OF inv] enc_and_3 by auto
  then show ?thesis by (auto simp: rw_atomic_defs)
qed

lemma rw_try_read_refused_witness:
  "\<exists>v. rw_exec True False Try_Read_Add 1 0 = (Try_Read_Sub, v, 0)
    \<and> rw_exec True False Try_Read_Sub v 0 = (Try_Read_Dec, 1, 0)"
proof -
  let ?t = "\<lparr>rw = \<lparr>lock_word = 1, rw_data = 0 :: nat\<rparr>, rw_preempts = 1, rw_agents = [Idle, Writing]\<rparr>"
  have "rw_run True [(1, Some Op_Try_Write), (1, None)] (rw_init 2) = Some ?t"
    by (simp add: rw_run_eval)
  then have "reach rw_start (rw_step True) ?t" by (rule rw_run_reachable [rotated]) simp
  from rw_try_read_refused [OF this, of 1] show ?thesis by simp
qed

lemma tot_alone:
  assumes "i < length ps" "\<And>j. j < length ps \<Longrightarrow> j \<noteq> i \<Longrightarrow> ps ! j = Idle" "f Idle = 0"
  shows "tot f ps = f (ps ! i)"
proof -
  have "ps = (replicate (length ps) Idle)[i := ps ! i]"
    using assms(1,2) by (auto simp: list_eq_iff_nth_eq nth_list_update)
  then have "tot f ps = tot f ((replicate (length ps) Idle)[i := ps ! i])" by (rule arg_cong)
  also have "\<dots> = f (ps ! i)"
    using tot_update [of i "replicate (length ps) Idle" f "ps ! i"] tot_Idle [of f "length ps"] assms(1,3)
    by simp
  finally show ?thesis .
qed



end
