(* ===== verification/Rust_Core.thy ===== *)
theory Rust_Core
  imports Prelude
begin

text \<open>
  What the sources use of Rust's \<^verbatim>\<open>core\<close> library: \<^verbatim>\<open>u64::next_power_of_two\<close>, \<^verbatim>\<open>trailing_zeros\<close>, \<^verbatim>\<open>pow\<close>,
  the \<^verbatim>\<open>Layout\<close> of an allocation, and rounding to a multiple.
\<close>

subsection \<open>Rounding\<close>

definition round_up :: "nat \<Rightarrow> nat \<Rightarrow> nat" where
  "round_up n m = (n + m - 1) div m * m"

definition round_down :: "nat \<Rightarrow> nat \<Rightarrow> nat" where
  "round_down n m = n div m * m"

lemma round_up_ge: "0 < m \<Longrightarrow> n \<le> round_up n m"
proof -
  assume "0 < m"
  have "n + m - 1 < (n + m - 1) div m * m + m"
    using \<open>0 < m\<close> by (metis add.commute dividend_less_div_times)
  with \<open>0 < m\<close> show ?thesis by (simp add: round_up_def)
qed

lemma round_up_less: "0 < m \<Longrightarrow> round_up n m < n + m"
proof -
  assume "0 < m"
  have "round_up n m \<le> n + m - 1" by (simp add: round_up_def)
  also have "\<dots> < n + m" using \<open>0 < m\<close> by simp
  finally show ?thesis .
qed

lemma dvd_round_up: "m dvd round_up n m"
  by (simp add: round_up_def)

lemma round_up_mono: "n \<le> n' \<Longrightarrow> round_up n m \<le> round_up n' m"
  by (simp add: round_up_def div_le_mono)

lemma round_up_id: "0 < m \<Longrightarrow> m dvd n \<Longrightarrow> round_up n m = n"
  using round_up_ge [of m n] round_up_less [of m n] dvd_round_up [of m n]
  by (metis add_diff_inverse_nat dvd_diff_nat leD nat_add_left_cancel_less nat_dvd_not_less
      neq0_conv not_less_iff_gr_or_eq zero_less_diff)

lemma round_up_add: "0 < m \<Longrightarrow> m dvd k \<Longrightarrow> round_up (n + k) m = round_up n m + k"
proof -
  assume "0 < m" "m dvd k"
  then obtain q where "k = m * q" by auto
  then have "(n + k + m - 1) div m = (n + m - 1) div m + q"
    using \<open>0 < m\<close> div_mult_self1 [of m "n + m - 1" q] by (simp add: algebra_simps)
  with \<open>k = m * q\<close> show ?thesis by (simp add: round_up_def algebra_simps)
qed

lemma round_up_1 [simp]: "round_up n (Suc 0) = n"
  by (simp add: round_up_def)

lemma round_down_le: "round_down n m \<le> n"
  by (simp add: round_down_def)

lemma round_down_id: "m dvd n \<Longrightarrow> round_down n m = n"
  by (simp add: round_down_def)

subsection \<open>Bits of \<open>u64\<close>\<close>

text \<open>
  \<^verbatim>\<open>next_power_of_two\<close>: the smallest power of two that is at least the argument; where it does not fit,
  a debug build panics and a release build returns 0.
\<close>

definition next_power_of_two :: "bool \<Rightarrow> u64 \<Rightarrow> u64 res" where
  "next_power_of_two dbg w =
     (case List.find (\<lambda>k. unat w \<le> 2 ^ k) [0..<64] of
        Some k \<Rightarrow> Inr (2 ^ k)
      | None \<Rightarrow> if dbg then Inl Overflow else Inr 0)"

definition trailing_zeros :: "u64 \<Rightarrow> nat" where
  "trailing_zeros w = length (takeWhile (\<lambda>i. \<not> bit w i) [0..<64])"

definition pow2_u64 :: "bool \<Rightarrow> nat \<Rightarrow> u64 res" where
  "pow2_u64 dbg k = (if k < 64 then Inr (2 ^ k) else if dbg then Inl Overflow else Inr 0)"

lemma pow2_u64_Inr [simp]: "k < 64 \<Longrightarrow> pow2_u64 dbg k = Inr (2 ^ k)"
  by (simp add: pow2_u64_def)

lemma unat_pow2_u64: "k < 64 \<Longrightarrow> unat (2 ^ k :: u64) = 2 ^ k"
  using unat_of_nat_small [where 'a = 64, of "2 ^ k"] power_strict_increasing [of k 64 "2 :: nat"]
  by simp

lemma trailing_zeros_pow2: "k < 64 \<Longrightarrow> trailing_zeros (2 ^ k) = k"
proof -
  assume k: "k < 64"
  have "[0..<64] = [0..<k] @ k # [Suc k..<64]"
    using k upt_add_eq_append [of 0 k "64 - k"] by (simp add: upt_conv_Cons)
  moreover have "\<forall>i \<in> set [0..<k]. \<not> bit (2 ^ k :: u64) i" and "bit (2 ^ k :: u64) k"
    using k by (auto simp: bit_exp_iff)
  ultimately have "takeWhile (\<lambda>i. \<not> bit (2 ^ k :: u64) i) [0..<64] = [0..<k]"
    by (simp add: takeWhile_append)
  then show ?thesis by (simp add: trailing_zeros_def)
qed

lemma trailing_zeros_ge:
  assumes "2 ^ k dvd unat w" "k \<le> 64"
  shows "k \<le> trailing_zeros w"
proof -
  have "\<not> bit w i" if "i < k" for i
  proof -
    obtain q where "unat w = 2 ^ k * q" using assms(1) by auto
    also have "(2 :: nat) ^ k = 2 ^ i * (2 * 2 ^ (k - Suc i))"
      using that by (metis Suc_diff_Suc le_add_diff_inverse less_imp_le_nat power_Suc power_add)
    finally have "even (unat w div 2 ^ i)" by (simp add: mult.assoc)
    then have "\<not> bit (unat w) i" by (simp add: bit_iff_odd)
    then show ?thesis using that assms(2) by (simp add: bit_unsigned_iff)
  qed
  then have "takeWhile (\<lambda>i. \<not> bit w i) ([0..<k] @ [k..<64]) = [0..<k] @ takeWhile (\<lambda>i. \<not> bit w i) [k..<64]"
    by (intro takeWhile_append2) auto
  moreover have "[0..<64] = [0..<k] @ [k..<64]"
    using assms(2) upt_add_eq_append [of 0 k "64 - k"] by simp
  ultimately show ?thesis by (simp add: trailing_zeros_def)
qed

lemma next_power_of_two_Inr:
  assumes "0 < unat w" "2 ^ k < 2 * unat w" "unat w \<le> 2 ^ k" "k < 64"
  shows "next_power_of_two dbg w = Inr (2 ^ k)"
proof -
  have "List.find (\<lambda>k. unat w \<le> 2 ^ k) [0..<64] = Some k"
  proof -
    have "\<not> unat w \<le> 2 ^ j" if "j < k" for j
    proof
      assume "unat w \<le> 2 ^ j"
      then have "2 * unat w \<le> 2 ^ Suc j" by simp
      also have "\<dots> \<le> 2 ^ k" using that by (intro power_increasing) auto
      finally show False using assms(2) by simp
    qed
    then show ?thesis
      using assms(3,4) by (auto simp: find_Some_iff intro!: exI [of _ k])
  qed
  then show ?thesis by (simp add: next_power_of_two_def)
qed

subsection \<open>Layout\<close>

text \<open>
  \<^verbatim>\<open>core::alloc::Layout\<close>. \<^verbatim>\<open>from_size_align\<close> refuses an alignment that is not a power of two and a size
  that overflows when rounded up to the alignment; \<^verbatim>\<open>extend\<close> appends a second layout after the padding
  it needs and returns the offset; \<^verbatim>\<open>pad_to_align\<close> rounds the size up.
\<close>

record Layout =
  lay_size :: usize
  lay_align :: usize

definition is_pow2 :: "usize \<Rightarrow> bool" where
  "is_pow2 w \<longleftrightarrow> list_ex (\<lambda>k. w = 2 ^ k) [0..<64]"

definition from_size_align :: "usize \<Rightarrow> usize \<Rightarrow> Layout option" where
  "from_size_align sz al =
     (if is_pow2 al \<and> round_up (unat sz) (unat al) < 2 ^ 64
      then Some \<lparr>lay_size = sz, lay_align = al\<rparr> else None)"

definition pad_to_align :: "Layout \<Rightarrow> Layout" where
  "pad_to_align l = l\<lparr>lay_size := of_nat (round_up (unat (lay_size l)) (unat (lay_align l)))\<rparr>"

definition layout_extend :: "Layout \<Rightarrow> Layout \<Rightarrow> (Layout \<times> usize) option" where
  "layout_extend l next =
     (let al = max (lay_align l) (lay_align next);
          off = round_up (unat (lay_size l)) (unat (lay_align next));
          sz = off + unat (lay_size next)
      in if off < 2 ^ 64 \<and> sz < 2 ^ 64
         then map_option (\<lambda>l'. (l', of_nat off)) (from_size_align (of_nat sz) al) else None)"

lemma is_pow2_iff: "is_pow2 w \<longleftrightarrow> (\<exists>k < 64. w = 2 ^ k)"
  by (auto simp: is_pow2_def list_ex_iff)

end
