(* ===== verification/Crates.thy ===== *)
theory Crates
  imports Rust_Core
begin

text \<open>
  The third-party crates the kernel calls are parameters of the model: a record of the functions the
  sources use, and a predicate with the documented behaviour that theorems take as a hypothesis.

  \<^item> \<open>x86_64\<close>: the address arithmetic of the \<^verbatim>\<open>x86_64\<close> crate. A \<^verbatim>\<open>PhysAddr\<close> and a \<^verbatim>\<open>VirtAddr\<close> are the
    \<open>u64\<close> that \<^verbatim>\<open>as_u64\<close> returns, a \<^verbatim>\<open>PhysFrame<Size4KiB>\<close> is its \<^verbatim>\<open>start_address\<close>.
  \<^item> \<open>arrayvec\<close>: the vector of fixed capacity of the \<^verbatim>\<open>arrayvec\<close> crate, as the list of its elements.

  \<open>x86_64_ref\<close> and \<open>arrayvec_ref\<close> are concrete functions with the documented behaviour; they are used
  to show that the hypotheses can hold, and nothing else depends on them.
\<close>

type_synonym phys_addr = u64
type_synonym virt_addr = u64
type_synonym phys_frame = u64

record phys_frame_range =
  range_start :: phys_frame
  range_end :: phys_frame

subsection \<open>The \<open>x86_64\<close> crate\<close>

record x86_64 =
  align_up :: "u64 \<Rightarrow> u64 \<Rightarrow> u64 res"
  align_down :: "u64 \<Rightarrow> u64 \<Rightarrow> u64 res"
  phys_addr_new :: "u64 \<Rightarrow> phys_addr res"
  virt_addr_new :: "u64 \<Rightarrow> virt_addr res"
  phys_addr_add :: "phys_addr \<Rightarrow> u64 \<Rightarrow> phys_addr res"
  phys_addr_sub :: "phys_addr \<Rightarrow> phys_addr \<Rightarrow> u64 res"
  containing_address :: "phys_addr \<Rightarrow> phys_frame"
  frame_add :: "phys_frame \<Rightarrow> u64 \<Rightarrow> phys_frame res"
  frame_sub :: "phys_frame \<Rightarrow> phys_frame \<Rightarrow> u64 res"

definition canonical :: "u64 \<Rightarrow> bool" where
  "canonical v \<longleftrightarrow> unat v < 2 ^ 47 \<or> 2 ^ 64 - 2 ^ 47 \<le> unat v"

text \<open>
  The documented behaviour: \<^verbatim>\<open>align_up\<close> and \<^verbatim>\<open>align_down\<close> round to a power of two, a physical address has
  52 bits, a virtual address is canonical, the operators on addresses and frames are exact where the
  result exists, and the constructors and the subtractions panic where it does not.
\<close>

definition x86_64_laws :: "x86_64 \<Rightarrow> bool" where
  "x86_64_laws X \<longleftrightarrow>
     (\<forall>a k. k < 64 \<and> round_up (unat a) (2 ^ k) < 2 ^ 64
        \<longrightarrow> align_up X a (2 ^ k) = Inr (of_nat (round_up (unat a) (2 ^ k))))
     \<and> (\<forall>a k. k < 64 \<longrightarrow> align_down X a (2 ^ k) = Inr (of_nat (round_down (unat a) (2 ^ k))))
     \<and> (\<forall>a. phys_addr_new X a = (if unat a < 2 ^ 52 then Inr a else Inl Crate_Panic))
     \<and> (\<forall>a. canonical a \<longrightarrow> virt_addr_new X a = Inr a)
     \<and> (\<forall>a n. unat a + unat n < 2 ^ 52 \<longrightarrow> phys_addr_add X a n = Inr (a + n))
     \<and> (\<forall>a b. phys_addr_sub X a b = (if b \<le> a then Inr (a - b) else Inl Crate_Panic))
     \<and> (\<forall>a. containing_address X a = of_nat (round_down (unat a) 4096))
     \<and> (\<forall>f n. unat f + 4096 * unat n < 2 ^ 52 \<longrightarrow> frame_add X f n = Inr (f + 4096 * n))
     \<and> (\<forall>f g. frame_sub X f g = (if g \<le> f then Inr ((f - g) div 4096) else Inl Crate_Panic))"

definition x86_64_ref :: x86_64 where
  "x86_64_ref =
     \<lparr>align_up = (\<lambda>a m. if is_pow2 m \<and> round_up (unat a) (unat m) < 2 ^ 64
                          then Inr (of_nat (round_up (unat a) (unat m))) else Inl Crate_Panic),
      align_down = (\<lambda>a m. if is_pow2 m then Inr (of_nat (round_down (unat a) (unat m)))
                          else Inl Crate_Panic),
      phys_addr_new = (\<lambda>a. if unat a < 2 ^ 52 then Inr a else Inl Crate_Panic),
      virt_addr_new = (\<lambda>a. if canonical a then Inr a else Inl Crate_Panic),
      phys_addr_add = (\<lambda>a n. if unat a + unat n < 2 ^ 52 then Inr (a + n) else Inl Crate_Panic),
      phys_addr_sub = (\<lambda>a b. if b \<le> a then Inr (a - b) else Inl Crate_Panic),
      containing_address = (\<lambda>a. of_nat (round_down (unat a) 4096)),
      frame_add = (\<lambda>f n. if unat f + 4096 * unat n < 2 ^ 52 then Inr (f + 4096 * n) else Inl Crate_Panic),
      frame_sub = (\<lambda>f g. if g \<le> f then Inr ((f - g) div 4096) else Inl Crate_Panic)\<rparr>"

lemma x86_64_laws_ref: "x86_64_laws x86_64_ref"
  unfolding x86_64_laws_def x86_64_ref_def
  by (auto simp: is_pow2_iff unat_pow2_u64)

lemma align_up_eq:
  "x86_64_laws X \<Longrightarrow> k < 64 \<Longrightarrow> round_up (unat a) (2 ^ k) < 2 ^ 64 \<Longrightarrow>
   align_up X a (2 ^ k) = Inr (of_nat (round_up (unat a) (2 ^ k)))"
  unfolding x86_64_laws_def by blast

lemma align_down_eq:
  "x86_64_laws X \<Longrightarrow> k < 64 \<Longrightarrow> align_down X a (2 ^ k) = Inr (of_nat (round_down (unat a) (2 ^ k)))"
  unfolding x86_64_laws_def by blast

lemma phys_addr_new_eq:
  "x86_64_laws X \<Longrightarrow> phys_addr_new X a = (if unat a < 2 ^ 52 then Inr a else Inl Crate_Panic)"
  unfolding x86_64_laws_def by blast

lemma virt_addr_new_eq: "x86_64_laws X \<Longrightarrow> canonical a \<Longrightarrow> virt_addr_new X a = Inr a"
  unfolding x86_64_laws_def by metis

lemma phys_addr_add_eq:
  "x86_64_laws X \<Longrightarrow> unat a + unat n < 2 ^ 52 \<Longrightarrow> phys_addr_add X a n = Inr (a + n)"
  unfolding x86_64_laws_def by blast

lemma phys_addr_sub_eq:
  "x86_64_laws X \<Longrightarrow> phys_addr_sub X a b = (if b \<le> a then Inr (a - b) else Inl Crate_Panic)"
  unfolding x86_64_laws_def by blast

lemma containing_address_eq:
  "x86_64_laws X \<Longrightarrow> containing_address X a = of_nat (round_down (unat a) 4096)"
  unfolding x86_64_laws_def by blast

lemma frame_add_eq:
  "x86_64_laws X \<Longrightarrow> unat f + 4096 * unat n < 2 ^ 52 \<Longrightarrow> frame_add X f n = Inr (f + 4096 * n)"
  unfolding x86_64_laws_def by blast

lemma frame_sub_eq:
  "x86_64_laws X \<Longrightarrow> frame_sub X f g = (if g \<le> f then Inr ((f - g) div 4096) else Inl Crate_Panic)"
  unfolding x86_64_laws_def by blast

lemma containing_address_aligned:
  assumes "x86_64_laws X" "4096 dvd unat a"
  shows "containing_address X a = a"
  using containing_address_eq [OF assms(1), of a] round_down_id [OF assms(2)] by simp

subsection \<open>The \<open>arrayvec\<close> crate\<close>

record 'a arrayvec =
  av_push :: "'a list \<Rightarrow> 'a \<Rightarrow> 'a list res"
  av_remove :: "'a list \<Rightarrow> nat \<Rightarrow> ('a \<times> 'a list) res"
  av_pop_at :: "'a list \<Rightarrow> nat \<Rightarrow> ('a \<times> 'a list) option"

text \<open>
  \<^verbatim>\<open>push\<close> appends and panics at the capacity, \<^verbatim>\<open>remove\<close> takes an element out and shifts the rest,
  \<^verbatim>\<open>pop_at\<close> is the same without the panic.
\<close>

definition arrayvec_laws :: "nat \<Rightarrow> 'a arrayvec \<Rightarrow> bool" where
  "arrayvec_laws cap A \<longleftrightarrow>
     (\<forall>xs x. av_push A xs x = (if length xs < cap then Inr (xs @ [x]) else Inl Crate_Panic))
     \<and> (\<forall>xs i. i < length xs \<longrightarrow> av_remove A xs i = Inr (xs ! i, take i xs @ drop (Suc i) xs))
     \<and> (\<forall>xs i. av_pop_at A xs i =
          (if i < length xs then Some (xs ! i, take i xs @ drop (Suc i) xs) else None))"

definition arrayvec_ref :: "nat \<Rightarrow> 'a arrayvec" where
  "arrayvec_ref cap =
     \<lparr>av_push = (\<lambda>xs x. if length xs < cap then Inr (xs @ [x]) else Inl Crate_Panic),
      av_remove = (\<lambda>xs i. if i < length xs then Inr (xs ! i, take i xs @ drop (Suc i) xs)
                          else Inl Crate_Panic),
      av_pop_at = (\<lambda>xs i. if i < length xs then Some (xs ! i, take i xs @ drop (Suc i) xs) else None)\<rparr>"

lemma arrayvec_laws_ref: "arrayvec_laws cap (arrayvec_ref cap)"
  by (simp add: arrayvec_laws_def arrayvec_ref_def)

lemma av_push_eq:
  "arrayvec_laws cap A \<Longrightarrow> av_push A xs x = (if length xs < cap then Inr (xs @ [x]) else Inl Crate_Panic)"
  unfolding arrayvec_laws_def by blast

lemma av_remove_eq:
  "arrayvec_laws cap A \<Longrightarrow> i < length xs \<Longrightarrow> av_remove A xs i = Inr (xs ! i, take i xs @ drop (Suc i) xs)"
  unfolding arrayvec_laws_def by blast

lemma av_pop_at_eq:
  "arrayvec_laws cap A \<Longrightarrow>
   av_pop_at A xs i = (if i < length xs then Some (xs ! i, take i xs @ drop (Suc i) xs) else None)"
  unfolding arrayvec_laws_def by blast

end
