(* ===== verification/Mm.thy ===== *)
theory Mm
  imports Crates
begin

text \<open>
  Model of \<^verbatim>\<open>src/src/mm/mod.rs\<close>: the layout of the kernel's address space, the translation between physical
  addresses and the window they are mapped at, and the address of a frame's \<^verbatim>\<open>PageInfo\<close>. A store to
  memory that the sources do with \<^verbatim>\<open>write_bytes\<close> is recorded as a \<open>mem_event\<close>.
\<close>

definition PHYS_OFFSET :: u64 where
  "PHYS_OFFSET = 0xFFFF800000000000"

definition PAGE_INFO_OFFSET :: u64 where
  "PAGE_INFO_OFFSET = 0xFFFF900000000000"

definition PAGE_SIZE :: u64 where
  "PAGE_SIZE = 0x1000"

datatype mem_event = Write_Bytes virt_addr u8 usize

text \<open>\<^verbatim>\<open>PageInfo\<close> has one \<^verbatim>\<open>i64\<close>; \<^verbatim>\<open>RwSpinLock<PageInfo>\<close> adds the lock word.\<close>

record PageInfo =
  page_info_dummy :: u64

definition size_of_PageInfo :: u64 where
  "size_of_PageInfo = 8"

definition size_of_RwSpinLock_PageInfo :: u64 where
  "size_of_RwSpinLock_PageInfo = 16"

definition phys_to_page_info :: "bool \<Rightarrow> phys_frame \<Rightarrow> virt_addr res" where
  "phys_to_page_info dbg frame =
     (let idx = frame div PAGE_SIZE in
      bind_res (mul_w dbg idx size_of_RwSpinLock_PageInfo) (\<lambda>off.
      bind_res (add_w dbg PAGE_INFO_OFFSET off) (\<lambda>out_addr.
      bind_res (debug_assert dbg (out_addr < PAGE_INFO_OFFSET + 0x0000100000000000)) (\<lambda>_.
      Inr out_addr))))"

definition kernel_virt_to_phys :: "x86_64 \<Rightarrow> bool \<Rightarrow> virt_addr \<Rightarrow> phys_addr res" where
  "kernel_virt_to_phys X dbg virt =
     bind_res (debug_assert dbg (PHYS_OFFSET \<le> virt)) (\<lambda>_.
     bind_res (sub_w dbg virt PHYS_OFFSET) (\<lambda>a. phys_addr_new X a))"

definition phys_to_kernel_virt :: "x86_64 \<Rightarrow> bool \<Rightarrow> phys_addr \<Rightarrow> virt_addr res" where
  "phys_to_kernel_virt X dbg phys =
     bind_res (add_w dbg phys PHYS_OFFSET) (\<lambda>a. virt_addr_new X a)"

lemma unat_mm_consts [simp]:
  "unat PHYS_OFFSET = 2 ^ 64 - 2 ^ 47" "unat PAGE_INFO_OFFSET = 2 ^ 64 - 7 * 2 ^ 44"
  "unat PAGE_SIZE = 4096"
  by (simp_all add: PHYS_OFFSET_def PAGE_INFO_OFFSET_def PAGE_SIZE_def)

lemma unat_frame_index: "unat (frame div PAGE_SIZE) = unat frame div 4096"
  by (simp add: unat_div_distrib)

lemma phys_to_kernel_virt_eq:
  assumes "x86_64_laws X" "unat p < 2 ^ 47"
  shows "phys_to_kernel_virt X dbg p = Inr (p + PHYS_OFFSET)"
    and "unat (p + PHYS_OFFSET) = unat p + (2 ^ 64 - 2 ^ 47)"
proof -
  show u: "unat (p + PHYS_OFFSET) = unat p + (2 ^ 64 - 2 ^ 47)"
    using assms(2) by (subst unat_add_no_wrap) simp_all
  have "canonical (p + PHYS_OFFSET)" by (simp add: canonical_def u)
  then show "phys_to_kernel_virt X dbg p = Inr (p + PHYS_OFFSET)"
    using assms by (simp add: phys_to_kernel_virt_def add_w_Inr virt_addr_new_eq)
qed

lemma phys_to_page_info_eq:
  assumes "unat f < 2 ^ 52"
  shows "phys_to_page_info dbg f = Inr (PAGE_INFO_OFFSET + f div PAGE_SIZE * 16)"
    and "unat (PAGE_INFO_OFFSET + f div PAGE_SIZE * 16) = (2 ^ 64 - 7 * 2 ^ 44) + unat f div 4096 * 16"
proof -
  have idx: "unat (f div PAGE_SIZE) < 2 ^ 40"
    using assms by (simp add: unat_frame_index less_mult_imp_div_less)
  have m: "unat (f div PAGE_SIZE * 16) = unat f div 4096 * 16"
    using idx by (subst unat_mult_no_wrap) (simp_all add: unat_frame_index)
  show u: "unat (PAGE_INFO_OFFSET + f div PAGE_SIZE * 16) = (2 ^ 64 - 7 * 2 ^ 44) + unat f div 4096 * 16"
    using idx by (subst unat_add_no_wrap) (simp_all add: m unat_frame_index)
  have "PAGE_INFO_OFFSET + f div PAGE_SIZE * 16 < PAGE_INFO_OFFSET + 0x0000100000000000"
    using u idx by (simp add: word_less_nat_alt PAGE_INFO_OFFSET_def unat_frame_index)
  then show "phys_to_page_info dbg f = Inr (PAGE_INFO_OFFSET + f div PAGE_SIZE * 16)"
    using idx m
    by (simp add: phys_to_page_info_def Let_def size_of_RwSpinLock_PageInfo_def mul_w_Inr add_w_Inr
        unat_frame_index)
qed

text \<open>
  Claim C31 (window round trip). For every physical address below 128 TiB, \<^verbatim>\<open>phys_to_kernel_virt\<close> does
  not panic in either build profile, lands in the upper half of the address space at \<^verbatim>\<open>PHYS_OFFSET\<close> or
  above, and \<^verbatim>\<open>kernel_virt_to_phys\<close> takes it back.
\<close>

theorem phys_virt_roundtrip:
  assumes "x86_64_laws X" "unat p < 2 ^ 47"
  shows "\<exists>v. phys_to_kernel_virt X dbg p = Inr v \<and> PHYS_OFFSET \<le> v \<and> kernel_virt_to_phys X dbg v = Inr p"
  using phys_to_kernel_virt_eq [OF assms] assms
  by (auto simp: kernel_virt_to_phys_def word_le_nat_alt sub_w_Inr phys_addr_new_eq)

theorem phys_virt_roundtrip_witness:
  "\<exists>v. phys_to_kernel_virt x86_64_ref True 0xB8000 = Inr v \<and> PHYS_OFFSET \<le> v
     \<and> kernel_virt_to_phys x86_64_ref True v = Inr 0xB8000"
  by (rule phys_virt_roundtrip [OF x86_64_laws_ref]) simp

text \<open>
  The \<^verbatim>\<open>PageInfo\<close> array. For every frame of the 52-bit physical address space the address of its
  \<^verbatim>\<open>PageInfo\<close> is computed without a panic, lies in the 16 TiB window at \<^verbatim>\<open>PAGE_INFO_OFFSET\<close>, and the slots
  of different frames are at least \<^verbatim>\<open>size_of::<RwSpinLock<PageInfo>>()\<close> bytes apart.
\<close>

lemma page_info_slots_disjoint:
  assumes "unat f < 2 ^ 52" "unat g < 2 ^ 52" "4096 dvd unat f" "4096 dvd unat g" "unat f < unat g"
  shows "\<exists>p q. phys_to_page_info dbg f = Inr p \<and> phys_to_page_info dbg g = Inr q
     \<and> PAGE_INFO_OFFSET \<le> p \<and> unat p + unat size_of_RwSpinLock_PageInfo \<le> unat q
     \<and> unat q < unat PAGE_INFO_OFFSET + 2 ^ 44"
proof -
  have "unat f div 4096 < unat g div 4096" using assms(3-5) by (auto elim!: dvdE)
  moreover have "unat g div 4096 < 2 ^ 40" using assms(2) by (simp add: less_mult_imp_div_less)
  ultimately show ?thesis
    using phys_to_page_info_eq [OF assms(1)] phys_to_page_info_eq [OF assms(2)]
    by (auto simp: word_le_nat_alt size_of_RwSpinLock_PageInfo_def)
qed

lemma page_info_slots_disjoint_witness:
  "\<exists>p q. phys_to_page_info True 0x1000 = Inr p \<and> phys_to_page_info True 0x2000 = Inr q
     \<and> PAGE_INFO_OFFSET \<le> p \<and> unat p + unat size_of_RwSpinLock_PageInfo \<le> unat q
     \<and> unat q < unat PAGE_INFO_OFFSET + 2 ^ 44"
  by (rule page_info_slots_disjoint) simp_all

end
