(* ===== verification/Frame_Allocator.thy ===== *)
theory Frame_Allocator
  imports Mm
begin

text \<open>
  The contract of the \<^verbatim>\<open>FrameAllocator<Size4KiB>\<close> trait. Two parts of the kernel provide it (the boot-time
  memory map and, through \<^verbatim>\<open>PhysAllocatorProxy\<close>, the buddy allocator) and the page table code relies on
  it: a frame that is handed out was available and is not handed out again.
\<close>

type_synonym 's frame_source = "'s \<Rightarrow> (phys_frame option \<times> 's \<times> mem_event list) res"

fun alloc_many :: "'s frame_source \<Rightarrow> nat \<Rightarrow> 's \<Rightarrow> (phys_frame list \<times> 's) res" where
  "alloc_many alloc 0 s = Inr ([], s)"
| "alloc_many alloc (Suc n) s =
     bind_res (alloc s) (\<lambda>(f, s1, ev).
     bind_res (expect_some Unwrap_None f) (\<lambda>f'.
     bind_res (alloc_many alloc n s1) (\<lambda>(fs, s2). Inr (f' # fs, s2))))"

locale frame_allocator =
  fixes alloc :: "'s frame_source"
    and inv :: "'s \<Rightarrow> bool"
    and avail :: "'s \<Rightarrow> nat set"
  assumes alloc_takes: "inv s \<Longrightarrow> alloc s = Inr (r, s', ev) \<Longrightarrow>
    \<exists>f. r = Some f \<and> inv s' \<and> unat f \<in> avail s \<and> avail s' \<subseteq> avail s - {unat f}"
begin

lemma many_takes:
  assumes "inv s" and "alloc_many alloc n s = Inr (fs, s')"
  shows "inv s' \<and> distinct fs \<and> length fs = n \<and> unat ` set fs \<subseteq> avail s
    \<and> avail s' \<subseteq> avail s - unat ` set fs"
  using assms
proof (induction n arbitrary: s fs)
  case 0
  then show ?case by simp
next
  case (Suc n)
  then obtain f s1 ev fs1 where step: "alloc s = Inr (Some f, s1, ev)"
    and rest: "alloc_many alloc n s1 = Inr (fs1, s')" and fs: "fs = f # fs1"
    by (auto simp: res_elim)
  from alloc_takes [OF Suc.prems(1) step] have f: "inv s1" "unat f \<in> avail s" "avail s1 \<subseteq> avail s - {unat f}"
    by auto
  from Suc.IH [OF f(1) rest] f(2,3) show ?case unfolding fs by auto
qed

end

text \<open>A provider that fails only when nothing is available serves as many calls as there are frames.\<close>

locale total_frame_allocator = frame_allocator +
  assumes avail_finite: "inv s \<Longrightarrow> finite (avail s)"
    and alloc_serves: "inv s \<Longrightarrow> avail s \<noteq> {} \<Longrightarrow>
      \<exists>f s' ev. alloc s = Inr (Some f, s', ev) \<and> avail s' = avail s - {unat f}"
begin

lemma many_serve:
  assumes "inv s" and "n \<le> card (avail s)"
  shows "\<exists>fs s'. alloc_many alloc n s = Inr (fs, s') \<and> card (avail s') = card (avail s) - n"
  using assms
proof (induction n arbitrary: s)
  case (Suc n)
  then have "avail s \<noteq> {}" by auto
  then obtain f s1 ev where step: "alloc s = Inr (Some f, s1, ev)" "avail s1 = avail s - {unat f}"
    using alloc_serves [OF Suc.prems(1)] by blast
  from alloc_takes [OF Suc.prems(1) step(1)] have "inv s1" "unat f \<in> avail s" by auto
  moreover from this(2) have "card (avail s) = Suc (card (avail s1))"
    using card.remove [OF avail_finite [OF Suc.prems(1)]] step(2) by simp
  ultimately obtain fs s' where "alloc_many alloc n s1 = Inr (fs, s')" "card (avail s') = card (avail s1) - n"
    using Suc.IH [of s1] Suc.prems(2) by auto
  with step(1) \<open>card (avail s) = _\<close> show ?case by (auto simp: expect_some_def)
qed simp

end

text \<open>
  The contract of an allocator of frame ranges, which the zones of the buddy allocator and the allocator
  as a whole meet: \<open>alloc order\<close> takes what it returns out of what is available.
\<close>

definition range_bytes :: "phys_frame_range \<Rightarrow> nat set" where
  "range_bytes rng = {unat (range_start rng) ..< unat (range_end rng)}"

type_synonym ('o, 's) range_source = "'o \<Rightarrow> 's \<Rightarrow> (phys_frame_range option \<times> 's \<times> mem_event list) res"

fun alloc_ranges :: "('o, 's) range_source \<Rightarrow> 'o list \<Rightarrow> 's \<Rightarrow> (phys_frame_range list \<times> 's) res" where
  "alloc_ranges alloc [] s = Inr ([], s)"
| "alloc_ranges alloc (order # orders) s =
     bind_res (alloc order s) (\<lambda>(r, s1, ev).
     bind_res (alloc_ranges alloc orders s1) (\<lambda>(rs, s2).
     Inr (case r of None \<Rightarrow> (rs, s2) | Some rng \<Rightarrow> (rng # rs, s2))))"

locale range_allocator =
  fixes alloc :: "('o, 's) range_source"
    and inv :: "'s \<Rightarrow> bool"
    and avail :: "'s \<Rightarrow> nat set"
  assumes alloc_keeps: "inv s \<Longrightarrow> alloc order s = Inr (r, s', ev) \<Longrightarrow> inv s'"
    and alloc_fails: "inv s \<Longrightarrow> alloc order s = Inr (None, s', ev) \<Longrightarrow> avail s' \<subseteq> avail s"
    and alloc_range: "inv s \<Longrightarrow> alloc order s = Inr (Some rng, s', ev) \<Longrightarrow>
      range_bytes rng \<subseteq> avail s \<and> avail s' \<subseteq> avail s - range_bytes rng"
begin

lemma ranges_disjoint:
  assumes "inv s" and "alloc_ranges alloc orders s = Inr (rs, s')"
  shows "inv s' \<and> sorted_wrt (\<lambda>r q. range_bytes r \<inter> range_bytes q = {}) rs
    \<and> (\<Union>r \<in> set rs. range_bytes r) \<subseteq> avail s \<and> avail s' \<subseteq> avail s - (\<Union>r \<in> set rs. range_bytes r)"
  using assms
proof (induction orders arbitrary: s rs)
  case Nil
  then show ?case by simp
next
  case (Cons order orders)
  then obtain r s1 ev rs1 where step: "alloc order s = Inr (r, s1, ev)"
    and rest: "alloc_ranges alloc orders s1 = Inr (rs1, s')" and rs: "rs = (case r of None \<Rightarrow> rs1 | Some rng \<Rightarrow> rng # rs1)"
    by (auto simp: res_elim split: option.splits)
  note IH = Cons.IH [OF alloc_keeps [OF Cons.prems(1) step] rest]
  show ?case
  proof (cases r)
    case None
    then have "rs = rs1" "avail s1 \<subseteq> avail s" using rs alloc_fails [OF Cons.prems(1)] step by auto
    with IH show ?thesis by blast
  next
    case (Some rng)
    with alloc_range [OF Cons.prems(1)] step have "range_bytes rng \<subseteq> avail s" "avail s1 \<subseteq> avail s - range_bytes rng"
      by auto
    moreover from this have "\<forall>q \<in> set rs1. range_bytes rng \<inter> range_bytes q = {}" using IH by blast
    moreover have "rs = rng # rs1" using rs Some by simp
    ultimately show ?thesis using IH by (simp only: sorted_wrt.simps list.set) blast
  qed
qed

end

locale total_range_allocator = range_allocator +
  assumes alloc_returns: "inv s \<Longrightarrow> \<exists>r s' ev. alloc order s = Inr (r, s', ev)"
begin

lemma ranges_return: "inv s \<Longrightarrow> \<exists>rs s'. alloc_ranges alloc orders s = Inr (rs, s')"
proof (induction orders arbitrary: s)
  case (Cons order orders)
  obtain r s1 ev where step: "alloc order s = Inr (r, s1, ev)" using alloc_returns [OF Cons.prems] by blast
  from Cons.IH [OF alloc_keeps [OF Cons.prems step]] step show ?case by (auto split: option.splits)
qed simp

end

end
