(* ===== verification/Memory_Map.thy ===== *)
theory Memory_Map
  imports Frame_Allocator
begin

text \<open>
  Model of \<^verbatim>\<open>src/src/mm/map.rs\<close>: physical memory regions, the boot-time memory map with its frame
  allocator, the iterator over the regions, and the bump allocator inside one region. The
  construction of the \<^verbatim>\<open>PageInfo\<close> array at the end of \<^verbatim>\<open>MemoryMap::new\<close> is in theory \<open>Addr_Space\<close>.

  \<open>A\<close> is the \<^verbatim>\<open>ArrayVec\<close> of regions, \<open>X\<close> the address arithmetic of the \<^verbatim>\<open>x86_64\<close> crate.
\<close>

record Region =
  reg_addr :: phys_addr
  reg_size :: usize

definition split_at :: "x86_64 \<Rightarrow> bool \<Rightarrow> Region \<Rightarrow> usize \<Rightarrow> (Region \<times> Region) res" where
  "split_at X dbg rg offset =
     bind_res (assert_res (offset < reg_size rg)) (\<lambda>_.
     bind_res (add_w dbg (reg_addr rg) offset) (\<lambda>a.
     bind_res (phys_addr_new X a) (\<lambda>a'.
     bind_res (sub_w dbg (reg_size rg) offset) (\<lambda>sz.
     Inr (\<lparr>reg_addr = reg_addr rg, reg_size = offset\<rparr>, \<lparr>reg_addr = a', reg_size = sz\<rparr>)))))"

definition MAX_REGIONS :: nat where
  "MAX_REGIONS = 64"

record MemoryMap =
  regions :: "Region list"
  num_pages :: usize

text \<open>
  The bootloader's description of memory: \<open>start_addr\<close> and \<open>end_addr\<close> are what the accessors of the
  range return, and the kernel tells \<^verbatim>\<open>Usable\<close> and \<^verbatim>\<open>Bootloader\<close> from every other region type.
\<close>

datatype MemoryRegionType = Usable | Bootloader | Other_Region_Type

record MemoryRegion =
  start_addr :: u64
  end_addr :: u64
  region_type :: MemoryRegionType

definition push :: "Region arrayvec \<Rightarrow> bool \<Rightarrow> MemoryMap \<Rightarrow> Region \<Rightarrow> MemoryMap res" where
  "push A dbg mm rg =
     bind_res (add_w dbg (num_pages mm) (reg_size rg div PAGE_SIZE)) (\<lambda>n.
     bind_res (av_push A (regions mm) rg) (\<lambda>rs.
     Inr (mm\<lparr>num_pages := n, regions := rs\<rparr>)))"

fun push_usable :: "x86_64 \<Rightarrow> Region arrayvec \<Rightarrow> bool \<Rightarrow> MemoryRegion list \<Rightarrow> MemoryMap \<Rightarrow> MemoryMap res" where
  "push_usable X A dbg [] bump = Inr bump"
| "push_usable X A dbg (reg # rest) bump =
     (if region_type reg = Usable \<or> region_type reg = Bootloader then
        bind_res (phys_addr_new X (start_addr reg)) (\<lambda>a.
        bind_res (sub_w dbg (end_addr reg) (start_addr reg)) (\<lambda>sz.
        bind_res (push A dbg bump \<lparr>reg_addr = a, reg_size = sz\<rparr>) (\<lambda>bump'.
        push_usable X A dbg rest bump')))
      else push_usable X A dbg rest bump)"

definition memory_map_regions :: "x86_64 \<Rightarrow> Region arrayvec \<Rightarrow> bool \<Rightarrow> MemoryRegion list \<Rightarrow> MemoryMap res" where
  "memory_map_regions X A dbg memory_map =
     bind_res (push_usable X A dbg memory_map \<lparr>regions = [], num_pages = 0\<rparr>) (\<lambda>bump.
     if length (regions bump) = 0 then Inl Explicit_Panic else Inr bump)"

subsection \<open>The frame allocator of the memory map\<close>

definition clear_byte :: "bool \<Rightarrow> u8" where
  "clear_byte dbg = (if dbg then 0xB8 else 0x00)"

definition find_region :: "Region list \<Rightarrow> nat option" where
  "find_region rs = List.find (\<lambda>i. PAGE_SIZE \<le> reg_size (rs ! i)) [0..<length rs]"

definition allocate_frame ::
  "x86_64 \<Rightarrow> Region arrayvec \<Rightarrow> bool \<Rightarrow> MemoryMap \<Rightarrow> (phys_frame option \<times> MemoryMap \<times> mem_event list) res" where
  "allocate_frame X A dbg mm =
     bind_res (expect_some Expect_Failed (find_region (regions mm))) (\<lambda>idx.
     let found = regions mm ! idx;
         out = containing_address X (reg_addr found) in
     bind_res (phys_addr_add X (reg_addr found) PAGE_SIZE) (\<lambda>a.
     bind_res (sub_w dbg (reg_size found) PAGE_SIZE) (\<lambda>sz.
     bind_res (sub_w dbg (num_pages mm) 1) (\<lambda>n.
     let rs = (regions mm)[idx := \<lparr>reg_addr = a, reg_size = sz\<rparr>] in
     bind_res (if sz = 0 then bind_res (av_remove A rs idx) (\<lambda>(_, rs'). Inr rs') else Inr rs) (\<lambda>rs'.
     bind_res (phys_to_kernel_virt X dbg out) (\<lambda>page.
     Inr (Some out, \<lparr>regions = rs', num_pages = n\<rparr>,
          [Write_Bytes page (clear_byte dbg) PAGE_SIZE])))))))"

definition region_iter_next :: "Region arrayvec \<Rightarrow> Region list \<Rightarrow> Region option \<times> Region list" where
  "region_iter_next A rs = (case av_pop_at A rs 0 of Some (r, rs') \<Rightarrow> (Some r, rs') | None \<Rightarrow> (None, rs))"

subsection \<open>The bump allocator of one region\<close>

record RegionBumpAllocator =
  rb_start :: phys_addr
  rb_size :: usize
  rb_offset :: usize

definition bump_from :: "Region \<Rightarrow> RegionBumpAllocator" where
  "bump_from rg = \<lparr>rb_start = reg_addr rg, rb_size = reg_size rg, rb_offset = 0\<rparr>"

definition bump_alloc ::
  "x86_64 \<Rightarrow> bool \<Rightarrow> RegionBumpAllocator \<Rightarrow> Layout \<Rightarrow> (virt_addr option \<times> RegionBumpAllocator) res" where
  "bump_alloc X dbg b layout =
     bind_res (add_w dbg (rb_offset b) (lay_size layout)) (\<lambda>end_off.
     bind_res (align_up X end_off (lay_align layout)) (\<lambda>new_off.
     if rb_size b < new_off then Inr (None, b)
     else
       bind_res (align_up X (rb_offset b) (lay_align layout)) (\<lambda>off.
       bind_res (add_w dbg (rb_start b) off) (\<lambda>a.
       bind_res (add_w dbg a PHYS_OFFSET) (\<lambda>a'.
       bind_res (virt_addr_new X a') (\<lambda>va.
       bind_res (expect_some Unwrap_None (if va = 0 then None else Some va)) (\<lambda>out.
       Inr (Some out, b\<lparr>rb_offset := new_off\<rparr>))))))))"

subsection \<open>Frames of a memory map\<close>

text \<open>
  A region is usable for the kernel when it starts at a page boundary and lies in the part of physical
  memory the kernel's window can map. \<open>mm_frames\<close> is the set of frame addresses a map can still hand out.
\<close>

definition region_ok :: "Region \<Rightarrow> bool" where
  "region_ok rg \<longleftrightarrow> 4096 dvd unat (reg_addr rg) \<and> unat (reg_addr rg) + unat (reg_size rg) < 2 ^ 47"

definition frames_of :: "Region \<Rightarrow> nat set" where
  "frames_of rg = (\<lambda>k. unat (reg_addr rg) + 4096 * k) ` {..<unat (reg_size rg) div 4096}"

definition mm_frames :: "MemoryMap \<Rightarrow> nat set" where
  "mm_frames mm = (\<Union>rg \<in> set (regions mm). frames_of rg)"

definition page_count :: "Region list \<Rightarrow> nat" where
  "page_count rs = sum_list (map (\<lambda>rg. unat (reg_size rg) div 4096) rs)"

definition mm_ok :: "MemoryMap \<Rightarrow> bool" where
  "mm_ok mm \<longleftrightarrow> list_all region_ok (regions mm)
     \<and> sorted_wrt (\<lambda>r s. frames_of r \<inter> frames_of s = {}) (regions mm)
     \<and> unat (num_pages mm) = page_count (regions mm)"

lemma find_region_Some:
  assumes "find_region rs = Some idx"
  shows "idx < length rs" "4096 \<le> unat (reg_size (rs ! idx))"
    "rs = take idx rs @ rs ! idx # drop (Suc idx) rs"
  using assms id_take_nth_drop [of idx rs]
  by (auto simp: find_region_def find_Some_iff word_le_nat_alt nth_append)

lemma find_region_None: "find_region rs = None \<longleftrightarrow> page_count rs = 0"
  by (auto simp: find_region_def find_None_iff word_le_nat_alt page_count_def not_le
      all_set_conv_all_nth div_eq_0_iff)

lemma frames_of_advance:
  assumes "region_ok rg" "4096 \<le> unat (reg_size rg)"
  shows "region_ok \<lparr>reg_addr = reg_addr rg + PAGE_SIZE, reg_size = reg_size rg - PAGE_SIZE\<rparr>"
    and "frames_of \<lparr>reg_addr = reg_addr rg + PAGE_SIZE, reg_size = reg_size rg - PAGE_SIZE\<rparr>
      = frames_of rg - {unat (reg_addr rg)}"
    and "unat (reg_addr rg) \<in> frames_of rg"
    and "unat (reg_size rg) div 4096 = Suc (unat (reg_size rg - PAGE_SIZE) div 4096)"
proof -
  have a: "unat (reg_addr rg + PAGE_SIZE) = unat (reg_addr rg) + 4096"
    using assms by (subst unat_add_no_wrap) (simp_all add: region_ok_def)
  have z: "unat (reg_size rg - PAGE_SIZE) = unat (reg_size rg) - 4096"
    using assms by (subst unat_minus_no_wrap) simp_all
  show n: "unat (reg_size rg) div 4096 = Suc (unat (reg_size rg - PAGE_SIZE) div 4096)"
    using assms(2) by (simp add: z le_div_geq)
  show "region_ok \<lparr>reg_addr = reg_addr rg + PAGE_SIZE, reg_size = reg_size rg - PAGE_SIZE\<rparr>"
    using assms by (simp add: region_ok_def a z)
  show "unat (reg_addr rg) \<in> frames_of rg"
    unfolding frames_of_def n by (auto simp: image_iff intro: bexI [of _ 0])
  show "frames_of \<lparr>reg_addr = reg_addr rg + PAGE_SIZE, reg_size = reg_size rg - PAGE_SIZE\<rparr>
      = frames_of rg - {unat (reg_addr rg)}"
    unfolding frames_of_def n lessThan_Suc_eq_insert_0
    by (auto simp: a image_image image_iff)
qed

lemma page_count_Nil [simp]: "page_count [] = 0"
  by (simp add: page_count_def)

lemma page_count_append [simp]: "page_count (rs @ ss) = page_count rs + page_count ss"
  by (simp add: page_count_def)

lemma page_count_Cons [simp]: "page_count (r # rs) = unat (reg_size r) div 4096 + page_count rs"
  by (simp add: page_count_def)

abbreviation advanced :: "Region \<Rightarrow> Region" where
  "advanced rg \<equiv> \<lparr>reg_addr = reg_addr rg + PAGE_SIZE, reg_size = reg_size rg - PAGE_SIZE\<rparr>"

lemma allocate_frame_eq:
  assumes X: "x86_64_laws X" and A: "arrayvec_laws MAX_REGIONS A" and ok: "mm_ok mm"
    and idx: "find_region (regions mm) = Some idx"
  obtains as rg bs where "regions mm = as @ rg # bs" "region_ok rg" "4096 \<le> unat (reg_size rg)"
    "allocate_frame X A dbg mm = Inr (Some (reg_addr rg),
       \<lparr>regions = as @ (if reg_size rg - PAGE_SIZE = 0 then [] else [advanced rg]) @ bs, num_pages = num_pages mm - 1\<rparr>,
       [Write_Bytes (reg_addr rg + PHYS_OFFSET) (clear_byte dbg) PAGE_SIZE])"
proof -
  define rg where "rg = regions mm ! idx"
  define as where "as = take idx (regions mm)"
  define bs where "bs = drop (Suc idx) (regions mm)"
  note i = find_region_Some [OF idx]
  have split: "regions mm = as @ rg # bs" using i(3) by (simp add: rg_def as_def bs_def)
  have len: "length as = idx" using i(1) by (simp add: as_def)
  have "region_ok rg" using ok split by (simp add: mm_ok_def)
  moreover have "4096 \<le> unat (reg_size rg)" using i(2) by (simp add: rg_def)
  ultimately have rg: "region_ok rg" "4096 \<le> unat (reg_size rg)" .
  have addr: "unat (reg_addr rg) + 4096 < 2 ^ 47" "4096 dvd unat (reg_addr rg)"
    using rg by (auto simp: region_ok_def)
  have pages: "0 < unat (num_pages mm)"
    using ok split frames_of_advance(4) [OF rg] by (simp add: mm_ok_def)
  have upd: "(regions mm)[idx := advanced rg] = as @ advanced rg # bs"
    using split len i(1) by (simp add: list_update_append)
  have rem: "av_remove A ((regions mm)[idx := advanced rg]) idx = Inr (advanced rg, as @ bs)"
    using av_remove_eq [OF A, of idx "as @ advanced rg # bs"] upd len by (simp add: nth_append)
  have "allocate_frame X A dbg mm = Inr (Some (reg_addr rg),
       \<lparr>regions = as @ (if reg_size rg - PAGE_SIZE = 0 then [] else [advanced rg]) @ bs, num_pages = num_pages mm - 1\<rparr>,
       [Write_Bytes (reg_addr rg + PHYS_OFFSET) (clear_byte dbg) PAGE_SIZE])"
    using idx rg addr pages rem upd
    by (cases "reg_size rg = PAGE_SIZE")
      (simp_all add: allocate_frame_def Let_def rg_def [symmetric]
        containing_address_aligned [OF X] phys_addr_add_eq [OF X] sub_w_Inr
        phys_to_kernel_virt_eq [OF X])
  with split rg show ?thesis by (rule that)
qed

lemma allocate_frame_Some:
  assumes X: "x86_64_laws X" and A: "arrayvec_laws MAX_REGIONS A" and ok: "mm_ok mm"
    and idx: "find_region (regions mm) = Some idx"
  shows "\<exists>f mm' page. allocate_frame X A dbg mm
      = Inr (Some f, mm', [Write_Bytes page (clear_byte dbg) PAGE_SIZE])
    \<and> mm_ok mm' \<and> f + PHYS_OFFSET = page \<and> unat f \<in> mm_frames mm
    \<and> mm_frames mm' = mm_frames mm - {unat f} \<and> unat (num_pages mm) = Suc (unat (num_pages mm'))"
proof -
  obtain as rg bs where split: "regions mm = as @ rg # bs" and rg: "region_ok rg" "4096 \<le> unat (reg_size rg)"
    and run: "allocate_frame X A dbg mm = Inr (Some (reg_addr rg),
       \<lparr>regions = as @ (if reg_size rg - PAGE_SIZE = 0 then [] else [advanced rg]) @ bs, num_pages = num_pages mm - 1\<rparr>,
       [Write_Bytes (reg_addr rg + PHYS_OFFSET) (clear_byte dbg) PAGE_SIZE])"
    by (rule allocate_frame_eq [OF assms, of dbg])
  define rs where "rs = as @ (if reg_size rg - PAGE_SIZE = 0 then [] else [advanced rg]) @ bs"
  note adv = frames_of_advance [OF rg]
  have pages: "unat (num_pages mm) = page_count as + Suc (unat (reg_size rg - PAGE_SIZE) div 4096) + page_count bs"
    using ok split adv(4) by (simp add: mm_ok_def)
  have pages': "unat (num_pages mm - 1) = page_count as + unat (reg_size rg - PAGE_SIZE) div 4096 + page_count bs"
    using pages by (subst unat_minus_no_wrap) simp_all
  have "frames_of (advanced rg) = {}" if "reg_size rg - PAGE_SIZE = 0"
    using that by (simp add: frames_of_def)
  then have "mm_frames \<lparr>regions = rs, num_pages = num_pages mm - 1\<rparr> = mm_frames mm - {unat (reg_addr rg)}"
    using ok split adv(2,3) unfolding mm_frames_def mm_ok_def rs_def
    by (auto simp: sorted_wrt_append)
  moreover have "mm_ok \<lparr>regions = rs, num_pages = num_pages mm - 1\<rparr>"
    using ok split adv(1,2) pages' unfolding mm_ok_def rs_def
    by (auto simp: sorted_wrt_append)
  ultimately show ?thesis
    using run [folded rs_def] adv(3) split pages pages' by (auto simp: mm_frames_def)
qed

text \<open>
  Allocation shrinks the regions evenly enough: what a region has lost is bounded by what the map has lost.
  \<open>roomy m t\<close> says that no region is more than the lost pages below \<open>m\<close> when the map had \<open>t\<close> pages at first.
\<close>

definition roomy :: "nat \<Rightarrow> nat \<Rightarrow> MemoryMap \<Rightarrow> bool" where
  "roomy m t mm \<longleftrightarrow> length (regions mm) \<le> MAX_REGIONS
     \<and> (\<forall>rg \<in> set (regions mm). m + page_count (regions mm) \<le> unat (reg_size rg) div 4096 + t
          \<and> unat (reg_addr rg) + unat (reg_size rg) + 2 ^ 23 < 2 ^ 47)"

lemma allocate_frame_roomy:
  assumes "x86_64_laws X" "arrayvec_laws MAX_REGIONS A" "mm_ok mm" "roomy m t mm"
    and "allocate_frame X A dbg mm = Inr (r, mm', ev)"
  shows "roomy m t mm'"
proof (cases "find_region (regions mm)")
  case None
  with assms(5) show ?thesis by (simp add: allocate_frame_def)
next
  case (Some idx)
  obtain as rg bs where split: "regions mm = as @ rg # bs" and rg: "region_ok rg" "4096 \<le> unat (reg_size rg)"
    and run: "allocate_frame X A dbg mm = Inr (Some (reg_addr rg),
       \<lparr>regions = as @ (if reg_size rg - PAGE_SIZE = 0 then [] else [advanced rg]) @ bs, num_pages = num_pages mm - 1\<rparr>,
       [Write_Bytes (reg_addr rg + PHYS_OFFSET) (clear_byte dbg) PAGE_SIZE])"
    by (rule allocate_frame_eq [OF assms(1-3) Some, of dbg])
  have sz: "unat (reg_size rg) div 4096 = Suc (unat (reg_size rg - PAGE_SIZE) div 4096)"
    using frames_of_advance(4) [OF rg] by simp
  have fin: "unat (reg_addr rg + PAGE_SIZE) + unat (reg_size rg - PAGE_SIZE) = unat (reg_addr rg) + unat (reg_size rg)"
    using rg by (simp add: region_ok_def unat_add_no_wrap unat_minus_no_wrap)
  from assms(4) show ?thesis
    using run assms(5) sz fin unfolding roomy_def split by (auto simp: page_count_def intro: Suc_leD)
qed

lemma allocate_frame_None:
  "find_region (regions mm) = None \<Longrightarrow> allocate_frame X A dbg mm = Inl Expect_Failed"
  by (simp add: allocate_frame_def)

lemma frames_of_card: "finite (frames_of rg)" "card (frames_of rg) = unat (reg_size rg) div 4096"
  by (simp_all add: frames_of_def card_image inj_on_def)

lemma mm_frames_card:
  assumes "mm_ok mm"
  shows "finite (mm_frames mm)" and "card (mm_frames mm) = page_count (regions mm)"
proof -
  have "finite (\<Union>rg \<in> set rs. frames_of rg) \<and> card (\<Union>rg \<in> set rs. frames_of rg) = page_count rs"
    if "sorted_wrt (\<lambda>r s. frames_of r \<inter> frames_of s = {}) rs" for rs
    using that
  proof (induction rs)
    case (Cons rg rs)
    then have "frames_of rg \<inter> (\<Union>rg \<in> set rs. frames_of rg) = {}" by auto
    with Cons show ?case by (simp add: frames_of_card card_Un_disjoint)
  qed simp
  from this [of "regions mm"] assms show "finite (mm_frames mm)" "card (mm_frames mm) = page_count (regions mm)"
    by (simp_all add: mm_frames_def mm_ok_def)
qed

interpretation mm_alloc: total_frame_allocator "allocate_frame X A dbg"
  "\<lambda>mm. x86_64_laws X \<and> arrayvec_laws MAX_REGIONS A \<and> mm_ok mm" mm_frames
proof (unfold_locales, goal_cases)
  case (1 mm r mm' ev)
  then obtain idx where "find_region (regions mm) = Some idx"
    using allocate_frame_None [of mm X A dbg] by (cases "find_region (regions mm)") auto
  from allocate_frame_Some [OF _ _ _ this, of X A dbg] 1 show ?case by auto
next
  case (2 mm)
  then show ?case by (simp add: mm_frames_card)
next
  case (3 mm)
  then have "page_count (regions mm) \<noteq> 0" using mm_frames_card [of mm] by auto
  then obtain idx where "find_region (regions mm) = Some idx"
    using find_region_None [of "regions mm"] by (cases "find_region (regions mm)") auto
  from allocate_frame_Some [OF _ _ _ this, of X A dbg] 3 show ?case by auto
qed

interpretation mm_roomy: frame_allocator "allocate_frame X A dbg"
  "\<lambda>mm. x86_64_laws X \<and> arrayvec_laws MAX_REGIONS A \<and> mm_ok mm \<and> roomy m t mm" mm_frames
proof (unfold_locales, goal_cases)
  case (1 mm r mm' ev)
  with mm_alloc.alloc_takes [of X A mm dbg r mm' ev] allocate_frame_roomy [of X A mm m t dbg r mm' ev] show ?case by blast
qed

subsection \<open>Properties of the memory map\<close>

text \<open>
  A machine with two usable regions, for the witnesses: one page at \<open>0x1000\<close>, two at \<open>0x3000\<close>.
\<close>

definition sample_map :: MemoryMap where
  "sample_map =
     \<lparr>regions = [\<lparr>reg_addr = 0x1000, reg_size = 0x1000\<rparr>, \<lparr>reg_addr = 0x3000, reg_size = 0x2000\<rparr>],
      num_pages = 3\<rparr>"

lemma sample_map_ok: "mm_ok sample_map" "page_count (regions sample_map) = 3"
  by (auto simp: sample_map_def mm_ok_def region_ok_def frames_of_def page_count_def)

text \<open>
  Claim C15 (\<^verbatim>\<open>MemoryMap::allocate_frame\<close>). On a well-formed map the call panics only when no whole page is
  left. Otherwise it returns a frame of the map, clears exactly that page, removes exactly that frame
  from the map, lowers \<^verbatim>\<open>num_pages\<close> by one, and leaves the map well-formed.
\<close>

theorem allocate_frame_correct:
  assumes "x86_64_laws X" "arrayvec_laws MAX_REGIONS A" "mm_ok mm"
  shows "if page_count (regions mm) = 0 then allocate_frame X A dbg mm = Inl Expect_Failed
    else \<exists>f mm' page. allocate_frame X A dbg mm
        = Inr (Some f, mm', [Write_Bytes page (clear_byte dbg) PAGE_SIZE])
      \<and> mm_ok mm' \<and> f + PHYS_OFFSET = page \<and> unat f \<in> mm_frames mm
      \<and> mm_frames mm' = mm_frames mm - {unat f} \<and> unat (num_pages mm) = Suc (unat (num_pages mm'))"
proof (cases "find_region (regions mm)")
  case None
  then show ?thesis using find_region_None allocate_frame_None by simp
next
  case (Some idx)
  then have "page_count (regions mm) \<noteq> 0" using find_region_None [of "regions mm"] by auto
  with allocate_frame_Some [OF assms Some, of dbg] show ?thesis by simp
qed

theorem allocate_frame_correct_witness:
  "\<exists>f mm' page. allocate_frame x86_64_ref (arrayvec_ref MAX_REGIONS) True sample_map
      = Inr (Some f, mm', [Write_Bytes page (clear_byte True) PAGE_SIZE])
    \<and> mm_ok mm' \<and> f + PHYS_OFFSET = page \<and> unat f \<in> mm_frames sample_map
    \<and> mm_frames mm' = mm_frames sample_map - {unat f} \<and> unat (num_pages sample_map) = Suc (unat (num_pages mm'))"
  using allocate_frame_correct [OF x86_64_laws_ref arrayvec_laws_ref sample_map_ok(1), of True]
  by (simp add: sample_map_ok(2))

lemma alloc_many_returns:
  assumes "x86_64_laws X" "arrayvec_laws MAX_REGIONS A" "mm_ok mm" "n \<le> page_count (regions mm)"
  shows "\<exists>fs mm'. alloc_many (allocate_frame X A dbg) n mm = Inr (fs, mm') \<and> mm_ok mm'
    \<and> page_count (regions mm') = page_count (regions mm) - n"
proof -
  have inv: "x86_64_laws X \<and> arrayvec_laws MAX_REGIONS A \<and> mm_ok mm" using assms by simp
  from mm_alloc.many_serve [OF this, of n dbg] assms(4)
  obtain fs mm' where many: "alloc_many (allocate_frame X A dbg) n mm = Inr (fs, mm')"
    "card (mm_frames mm') = page_count (regions mm) - n"
    by (auto simp: mm_frames_card [OF assms(3)])
  moreover have "mm_ok mm'" using mm_alloc.many_takes [OF inv many(1)] by simp
  ultimately show ?thesis using mm_frames_card(2) by auto
qed

text \<open>
  No frame twice. As many successive \<^verbatim>\<open>allocate_frame\<close> calls as a well-formed map has pages
  all return, and they return pairwise different frames of the map.
\<close>

lemma memory_map_frames_distinct:
  assumes "x86_64_laws X" "arrayvec_laws MAX_REGIONS A" "mm_ok mm" "n \<le> page_count (regions mm)"
  shows "\<exists>fs mm'. alloc_many (allocate_frame X A dbg) n mm = Inr (fs, mm')
    \<and> distinct fs \<and> length fs = n \<and> unat ` set fs \<subseteq> mm_frames mm
    \<and> mm_ok mm' \<and> page_count (regions mm') = page_count (regions mm) - n"
  using alloc_many_returns [OF assms, of dbg] mm_alloc.many_takes [of X A mm dbg n] assms by blast

lemma memory_map_frames_distinct_witness:
  "\<exists>fs mm'. alloc_many (allocate_frame x86_64_ref (arrayvec_ref MAX_REGIONS) False) 3 sample_map = Inr (fs, mm')
    \<and> distinct fs \<and> length fs = 3 \<and> unat ` set fs \<subseteq> mm_frames sample_map
    \<and> mm_ok mm' \<and> page_count (regions mm') = 0"
  using memory_map_frames_distinct [OF x86_64_laws_ref arrayvec_laws_ref sample_map_ok(1), of 3 False]
  by (simp add: sample_map_ok(2))

subsection \<open>Collecting the bootloader's regions\<close>

definition is_usable :: "MemoryRegion \<Rightarrow> bool" where
  "is_usable reg \<longleftrightarrow> region_type reg \<in> {Usable, Bootloader}"

definition region_of :: "MemoryRegion \<Rightarrow> Region" where
  "region_of reg = \<lparr>reg_addr = start_addr reg, reg_size = end_addr reg - start_addr reg\<rparr>"

definition boot_region_ok :: "MemoryRegion \<Rightarrow> bool" where
  "boot_region_ok reg \<longleftrightarrow> start_addr reg \<le> end_addr reg \<and> 4096 dvd unat (start_addr reg)
     \<and> unat (end_addr reg) < 2 ^ 47"

lemma region_of_ok: "boot_region_ok reg \<Longrightarrow> region_ok (region_of reg)"
  by (simp add: boot_region_ok_def region_ok_def region_of_def unat_minus_no_wrap word_le_nat_alt)

lemma page_count_le: "list_all region_ok rs \<Longrightarrow> page_count rs \<le> 2 ^ 35 * length rs"
proof (induction rs)
  case (Cons rg rs)
  then have "unat (reg_size rg) < 2 ^ 47" by (simp add: region_ok_def)
  then have "unat (reg_size rg) div 4096 \<le> 2 ^ 35" by (simp add: div_le_mono less_mult_imp_div_less less_imp_le)
  with Cons show ?case by simp
qed simp

lemma push_Inr:
  assumes "arrayvec_laws MAX_REGIONS A" "list_all region_ok (regions mm)" "region_ok rg"
    and "length (regions mm) < MAX_REGIONS" "unat (num_pages mm) = page_count (regions mm)"
  obtains mm' where "push A dbg mm rg = Inr mm'" "regions mm' = regions mm @ [rg]"
    "unat (num_pages mm') = page_count (regions mm')"
proof -
  have "page_count (regions mm @ [rg]) \<le> 2 ^ 35 * 64"
    using page_count_le [of "regions mm @ [rg]"] assms(2,3,4) by (simp add: MAX_REGIONS_def)
  then have fits: "unat (num_pages mm) + unat (reg_size rg) div 4096 < 2 ^ 64"
    using assms(5) by simp
  moreover have "unat (reg_size rg div PAGE_SIZE) = unat (reg_size rg) div 4096"
    by (simp add: PAGE_SIZE_def unat_div_distrib)
  ultimately show ?thesis
    using that assms(1,4,5)
    by (simp add: push_def add_w_Inr av_push_eq unat_add_no_wrap)
qed

lemma push_usable_Inr:
  assumes "x86_64_laws X" "arrayvec_laws MAX_REGIONS A"
    and "list_all boot_region_ok (filter is_usable memory_map)" "list_all region_ok (regions bump)"
    and "length (regions bump) + length (filter is_usable memory_map) \<le> MAX_REGIONS"
    and "unat (num_pages bump) = page_count (regions bump)"
  shows "\<exists>mm. push_usable X A dbg memory_map bump = Inr mm
    \<and> regions mm = regions bump @ map region_of (filter is_usable memory_map)
    \<and> unat (num_pages mm) = page_count (regions mm)"
  using assms(3-)
proof (induction memory_map arbitrary: bump)
  case (Cons reg rest)
  show ?case
  proof (cases "is_usable reg")
    case True
    then have ok: "boot_region_ok reg" using Cons.prems by simp
    obtain mm' where mm': "push A dbg bump (region_of reg) = Inr mm'" "regions mm' = regions bump @ [region_of reg]"
        "unat (num_pages mm') = page_count (regions mm')"
      using push_Inr [OF assms(2) Cons.prems(2) region_of_ok [OF ok] _ Cons.prems(4), of dbg] Cons.prems(3) True
      by auto
    have "push_usable X A dbg (reg # rest) bump = push_usable X A dbg rest mm'"
      using True ok mm'(1) phys_addr_new_eq [OF assms(1), of "start_addr reg"]
      by (auto simp: is_usable_def region_of_def boot_region_ok_def sub_w_Inr word_le_nat_alt)
    with Cons.IH [of mm'] Cons.prems mm' region_of_ok [OF ok] True show ?thesis by simp
  next
    case False
    with Cons.IH [of bump] Cons.prems show ?thesis by (auto simp: is_usable_def)
  qed
qed simp

lemma memory_map_regions_eq:
  assumes "x86_64_laws X" "arrayvec_laws MAX_REGIONS A"
    and "list_all boot_region_ok (filter is_usable memory_map)"
    and "sorted_wrt (\<lambda>r s. frames_of (region_of r) \<inter> frames_of (region_of s) = {}) (filter is_usable memory_map)"
    and "length (filter is_usable memory_map) \<le> MAX_REGIONS"
  shows "if filter is_usable memory_map = [] then memory_map_regions X A dbg memory_map = Inl Explicit_Panic
    else \<exists>mm. memory_map_regions X A dbg memory_map = Inr mm \<and> mm_ok mm
      \<and> regions mm = map region_of (filter is_usable memory_map)"
proof -
  obtain mm where mm: "push_usable X A dbg memory_map \<lparr>regions = [], num_pages = 0\<rparr> = Inr mm"
    "regions mm = map region_of (filter is_usable memory_map)" "unat (num_pages mm) = page_count (regions mm)"
    using push_usable_Inr [OF assms(1-3), of "\<lparr>regions = [], num_pages = 0\<rparr>" dbg] assms(5)
    by (auto simp: page_count_def)
  have "list_all region_ok (regions mm)"
    using assms(3) mm(2) region_of_ok by (fastforce simp: list_all_iff)
  then have "mm_ok mm" using mm assms(4) by (simp add: mm_ok_def sorted_wrt_map)
  with mm show ?thesis by (simp add: memory_map_regions_def)
qed

text \<open>
  First half of \<^verbatim>\<open>MemoryMap::new\<close>. When the bootloader reports at least one and at most
  \<^verbatim>\<open>MAX_REGIONS\<close> usable regions, page aligned, mappable and disjoint, the map holds exactly those regions
  in the reported order, skips every other region, counts their pages without overflow, and is
  well-formed; with no usable region the call panics.
\<close>

lemma memory_map_new_correct:
  assumes "x86_64_laws X" "arrayvec_laws MAX_REGIONS A"
    and "list_all boot_region_ok (filter is_usable memory_map)"
    and "sorted_wrt (\<lambda>r s. frames_of (region_of r) \<inter> frames_of (region_of s) = {}) (filter is_usable memory_map)"
    and "length (filter is_usable memory_map) \<le> MAX_REGIONS"
  shows "if filter is_usable memory_map = [] then memory_map_regions X A dbg memory_map = Inl Explicit_Panic
    else \<exists>mm. memory_map_regions X A dbg memory_map = Inr mm \<and> mm_ok mm
      \<and> regions mm = map region_of (filter is_usable memory_map)"
  using memory_map_regions_eq [OF assms] .

text \<open>A boot map with one region of each kind the kernel distinguishes.\<close>

definition sample_boot :: "MemoryRegion list" where
  "sample_boot = [\<lparr>start_addr = 0x1000, end_addr = 0x2000, region_type = Usable\<rparr>,
     \<lparr>start_addr = 0x2000, end_addr = 0x3000, region_type = Other_Region_Type\<rparr>,
     \<lparr>start_addr = 0x3000, end_addr = 0x5000, region_type = Bootloader\<rparr>]"

lemma memory_map_new_correct_witness:
  "\<exists>mm. memory_map_regions x86_64_ref (arrayvec_ref MAX_REGIONS) True sample_boot = Inr mm \<and> mm_ok mm
    \<and> regions mm = regions sample_map"
proof -
  have ok: "filter is_usable sample_boot = [sample_boot ! 0, sample_boot ! 2]"
    "list_all boot_region_ok (filter is_usable sample_boot)"
    "sorted_wrt (\<lambda>r s. frames_of (region_of r) \<inter> frames_of (region_of s) = {}) (filter is_usable sample_boot)"
    "length (filter is_usable sample_boot) \<le> MAX_REGIONS"
    "map region_of (filter is_usable sample_boot) = regions sample_map"
    by (auto simp: sample_boot_def sample_map_def is_usable_def boot_region_ok_def region_of_def frames_of_def
        MAX_REGIONS_def)
  from memory_map_new_correct [OF x86_64_laws_ref arrayvec_laws_ref ok(2-4), of True] ok(1,5)
  show ?thesis by simp
qed

subsection \<open>The bump allocator\<close>

definition bump_ok :: "RegionBumpAllocator \<Rightarrow> bool" where
  "bump_ok b \<longleftrightarrow> unat (rb_start b) + unat (rb_size b) < 2 ^ 47 \<and> rb_offset b \<le> rb_size b"

lemma bump_alloc_eq:
  assumes "x86_64_laws X" "bump_ok b" "lay_align layout = 2 ^ k" "k < 63" "unat (lay_size layout) < 2 ^ 62"
  defines "new_off \<equiv> round_up (unat (rb_offset b) + unat (lay_size layout)) (2 ^ k)"
    and "off \<equiv> round_up (unat (rb_offset b)) (2 ^ k)"
  shows "bump_alloc X dbg b layout =
    (if unat (rb_size b) < new_off then Inr (None, b)
     else Inr (Some (of_nat (unat (rb_start b) + off) + PHYS_OFFSET), b\<lparr>rb_offset := of_nat new_off\<rparr>))"
proof -
  have b: "unat (rb_start b) + unat (rb_size b) < 2 ^ 47" "unat (rb_offset b) \<le> unat (rb_size b)"
    using assms(2) by (auto simp: bump_ok_def word_le_nat_alt)
  have sum: "unat (rb_offset b + lay_size layout) = unat (rb_offset b) + unat (lay_size layout)"
    using b assms(5) by (subst unat_add_no_wrap) simp_all
  have "(2::nat) ^ k \<le> 2 ^ 62" using assms(4) by (intro power_increasing) simp_all
  then have new: "new_off < 2 ^ 64"
    using round_up_less [of "2 ^ k" "unat (rb_offset b) + unat (lay_size layout)"] b assms(5)
    unfolding new_off_def by simp
  have le: "off \<le> new_off" unfolding off_def new_off_def by (rule round_up_mono) simp
  have phys: "unat (of_nat off :: u64) = off" "unat (rb_start b + of_nat off) = unat (rb_start b) + off"
    if "new_off \<le> unat (rb_size b)"
  proof -
    show off: "unat (of_nat off :: u64) = off" using that le b by (intro unat_of_nat_small) simp
    show "unat (rb_start b + of_nat off) = unat (rb_start b) + off"
      using that le b off by (subst unat_add_no_wrap) simp_all
  qed
  have virt: "unat (rb_start b + of_nat off + PHYS_OFFSET) = unat (rb_start b) + off + (2 ^ 64 - 2 ^ 47)"
    if "new_off \<le> unat (rb_size b)"
    using that phys le b by (subst unat_add_no_wrap) simp_all
  show ?thesis
  proof (cases "unat (rb_size b) < new_off")
    case True
    then show ?thesis using assms(1,3-5) b new sum
      by (simp add: bump_alloc_def add_w_Inr align_up_eq new_off_def word_less_nat_alt unat_of_nat_small)
  next
    case False
    then have v: "canonical (rb_start b + of_nat off + PHYS_OFFSET)" "rb_start b + of_nat off + PHYS_OFFSET \<noteq> 0"
      using virt by (auto simp: canonical_def)
    show ?thesis using False v assms(1,3-5) b new sum le phys
      by (simp add: bump_alloc_def add_w_Inr align_up_eq new_off_def off_def word_less_nat_alt unat_of_nat_small
          virt_addr_new_eq expect_some_def)
  qed
qed

text \<open>Successive requests; a request that does not fit is skipped. A block is its address and its length.\<close>

fun bump_many ::
  "x86_64 \<Rightarrow> bool \<Rightarrow> Layout list \<Rightarrow> RegionBumpAllocator \<Rightarrow> ((nat \<times> nat) list \<times> RegionBumpAllocator) res" where
  "bump_many X dbg [] b = Inr ([], b)"
| "bump_many X dbg (l # ls) b =
     bind_res (bump_alloc X dbg b l) (\<lambda>(r, b1).
     bind_res (bump_many X dbg ls b1) (\<lambda>(blocks, b2).
     Inr (case r of None \<Rightarrow> (blocks, b2) | Some v \<Rightarrow> ((unat v, unat (lay_size l)) # blocks, b2))))"

definition bump_layout_ok :: "Layout \<Rightarrow> bool" where
  "bump_layout_ok l \<longleftrightarrow> (\<exists>k < 63. lay_align l = 2 ^ k) \<and> unat (lay_align l) dvd unat (lay_size l) \<and> unat (lay_size l) < 2 ^ 62"

lemma bump_layout_okI:
  "k < 63 \<Longrightarrow> lay_align l = 2 ^ k \<Longrightarrow> unat (lay_align l) dvd unat (lay_size l) \<Longrightarrow> unat (lay_size l) < 2 ^ 62 \<Longrightarrow>
   bump_layout_ok l"
  by (auto simp: bump_layout_ok_def)

definition bump_virt :: "RegionBumpAllocator \<Rightarrow> usize \<Rightarrow> nat" where
  "bump_virt b off = unat (rb_start b) + unat off + (2 ^ 64 - 2 ^ 47)"

lemma bump_alloc_step:
  assumes "x86_64_laws X" "bump_ok b" "bump_layout_ok l"
  shows "bump_alloc X dbg b l = Inr (None, b) \<or>
    (\<exists>v b'. bump_alloc X dbg b l = Inr (Some v, b') \<and> bump_ok b' \<and> rb_start b' = rb_start b \<and> rb_size b' = rb_size b
      \<and> bump_virt b (rb_offset b) \<le> unat v \<and> unat v + unat (lay_size l) = bump_virt b (rb_offset b'))"
proof -
  obtain k where k: "k < 63" "lay_align l = 2 ^ k" using assms(3) by (auto simp: bump_layout_ok_def)
  then have dvd: "2 ^ k dvd unat (lay_size l)"
    using assms(3) unat_pow2_u64 [of k] by (auto simp: bump_layout_ok_def)
  define off where "off = round_up (unat (rb_offset b)) (2 ^ k)"
  have new: "round_up (unat (rb_offset b) + unat (lay_size l)) (2 ^ k) = off + unat (lay_size l)"
    using round_up_add [OF _ dvd] by (simp add: off_def)
  have off: "unat (rb_offset b) \<le> off" by (simp add: off_def round_up_ge)
  note eq = bump_alloc_eq [OF assms(1,2) k(2,1), of dbg, unfolded new, folded off_def]
  show ?thesis
  proof (cases "unat (rb_size b) < off + unat (lay_size l)")
    case True
    then show ?thesis using eq assms(3) by (simp add: bump_layout_ok_def)
  next
    case False
    define p :: u64 where "p = of_nat (unat (rb_start b) + off)"
    define n :: u64 where "n = of_nat (off + unat (lay_size l))"
    have b: "unat (rb_start b) + unat (rb_size b) < 2 ^ 47" using assms(2) by (simp add: bump_ok_def)
    have p: "unat p = unat (rb_start b) + off" and n: "unat n = off + unat (lay_size l)"
      unfolding p_def n_def using False b by (intro unat_of_nat_small; simp)+
    have "bump_alloc X dbg b l = Inr (Some (p + PHYS_OFFSET), b\<lparr>rb_offset := n\<rparr>)"
      using eq False assms(3) by (simp add: bump_layout_ok_def p_def n_def)
    moreover have "unat (p + PHYS_OFFSET) = unat p + (2 ^ 64 - 2 ^ 47)"
      using phys_to_kernel_virt_eq(2) [OF assms(1), of p] p False b by simp
    ultimately show ?thesis
      using p n off False b by (simp add: bump_virt_def bump_ok_def word_le_nat_alt)
  qed
qed

lemma bump_many_sorted:
  assumes "x86_64_laws X" "bump_ok b" "list_all bump_layout_ok ls"
  shows "\<exists>blocks b'. bump_many X dbg ls b = Inr (blocks, b') \<and> bump_ok b'
    \<and> sorted_wrt (\<lambda>(p, n) (q, m). p + n \<le> q) blocks
    \<and> (\<forall>(p, n) \<in> set blocks. bump_virt b (rb_offset b) \<le> p \<and> p + n \<le> bump_virt b (rb_size b))"
  using assms(2,3)
proof (induction ls arbitrary: b)
  case (Cons l ls)
  then have ls: "list_all bump_layout_ok ls" and l: "bump_layout_ok l" by simp_all
  from bump_alloc_step [OF assms(1) Cons.prems(1) l, of dbg] show ?case
  proof (elim disjE exE conjE)
    assume "bump_alloc X dbg b l = Inr (None, b)"
    with Cons.IH [OF Cons.prems(1) ls] show ?thesis by auto
  next
    fix v b1
    assume step: "bump_alloc X dbg b l = Inr (Some v, b1)" "bump_ok b1" "rb_start b1 = rb_start b" "rb_size b1 = rb_size b"
      "bump_virt b (rb_offset b) \<le> unat v" "unat v + unat (lay_size l) = bump_virt b (rb_offset b1)"
    obtain blocks b2 where rest: "bump_many X dbg ls b1 = Inr (blocks, b2)" "bump_ok b2"
      "sorted_wrt (\<lambda>(p, n) (q, m). p + n \<le> q) blocks"
      "\<forall>(p, n) \<in> set blocks. bump_virt b1 (rb_offset b1) \<le> p \<and> p + n \<le> bump_virt b1 (rb_size b1)"
      using Cons.IH [OF step(2) ls] by blast
    have "bump_virt b1 (rb_offset b1) = unat v + unat (lay_size l)" "bump_virt b1 (rb_size b1) = bump_virt b (rb_size b)"
      "bump_virt b (rb_offset b1) \<le> bump_virt b (rb_size b)"
      using step(2-4,6) by (auto simp: bump_virt_def bump_ok_def word_le_nat_alt)
    then have "sorted_wrt (\<lambda>(p, n) (q, m). p + n \<le> q) ((unat v, unat (lay_size l)) # blocks)"
      "\<forall>(p, n) \<in> set ((unat v, unat (lay_size l)) # blocks).
         bump_virt b (rb_offset b) \<le> p \<and> p + n \<le> bump_virt b (rb_size b)"
      using rest(3,4) step(5,6) by (auto simp: split_beta)
    with step(1) rest(1,2) show ?thesis by auto
  qed
qed simp

text \<open>
  Claim C30 (\<^verbatim>\<open>RegionBumpAllocator::alloc\<close>). For layouts whose size is a multiple of their alignment, any
  sequence of requests runs without a panic, the blocks it returns are disjoint and in ascending order,
  and each lies between the kernel addresses of the region's unused part and of the region's end.
\<close>

theorem bump_alloc_disjoint:
  assumes "x86_64_laws X" "bump_ok b" "list_all bump_layout_ok ls"
  shows "\<exists>blocks b'. bump_many X dbg ls b = Inr (blocks, b')
    \<and> sorted_wrt (\<lambda>(p, n) (q, m). p + n \<le> q) blocks
    \<and> list_all (\<lambda>(p, n). bump_virt b (rb_offset b) \<le> p \<and> p + n \<le> bump_virt b (rb_size b)) blocks"
  using bump_many_sorted [OF assms, of dbg] by (auto simp: list_all_iff)

definition sample_region :: Region where
  "sample_region = \<lparr>reg_addr = 0x1000, reg_size = 0x1000\<rparr>"

lemma sample_region_ok: "bump_ok (bump_from sample_region)"
  by (simp add: bump_ok_def bump_from_def sample_region_def)

theorem bump_alloc_disjoint_witness:
  "\<exists>blocks b'. bump_many x86_64_ref True [\<lparr>lay_size = 24, lay_align = 8\<rparr>, \<lparr>lay_size = 64, lay_align = 32\<rparr>]
        (bump_from sample_region) = Inr (blocks, b')
    \<and> sorted_wrt (\<lambda>(p, n) (q, m). p + n \<le> q) blocks
    \<and> list_all (\<lambda>(p, n). bump_virt (bump_from sample_region) (rb_offset (bump_from sample_region)) \<le> p
        \<and> p + n \<le> bump_virt (bump_from sample_region) (rb_size (bump_from sample_region))) blocks"
proof -
  have "list_all bump_layout_ok [\<lparr>lay_size = 24, lay_align = 8\<rparr>, \<lparr>lay_size = 64, lay_align = 32\<rparr>]"
    using bump_layout_okI [of 3 "\<lparr>lay_size = 24, lay_align = 8\<rparr>"]
      bump_layout_okI [of 5 "\<lparr>lay_size = 64, lay_align = 32\<rparr>"] by simp
  then show ?thesis by (rule bump_alloc_disjoint [OF x86_64_laws_ref sample_region_ok])
qed

text \<open>
  \<^verbatim>\<open>RegionBumpAllocator::alloc\<close>, sizes that are no multiple of the alignment. The new offset is
  the rounded old offset plus size, while the block starts at the rounded old offset, so a block can
  reach past the new offset: after a request of 1 byte, a request of 5 bytes aligned to 4 and a request
  of 4 bytes aligned to 4 get overlapping blocks.
\<close>

lemma bump_alloc_overlap:
  assumes "x86_64_laws X"
  shows "\<exists>p q b'. bump_many X dbg
        [\<lparr>lay_size = 1, lay_align = 1\<rparr>, \<lparr>lay_size = 5, lay_align = 4\<rparr>, \<lparr>lay_size = 4, lay_align = 4\<rparr>]
        (bump_from sample_region) = Inr ([(bump_virt (bump_from sample_region) 0, 1), (p, 5), (q, 4)], b')
    \<and> p < q \<and> q < p + 5"
proof -
  have up: "round_up 5 4 = 8" "round_up 6 4 = 8" "round_up (Suc 0) 4 = 4" "round_up 8 4 = 8" "round_up 12 4 = 12"
    by (simp_all add: round_up_def)
  note eqs = bump_alloc_eq [OF assms, where k = 0, simplified] bump_alloc_eq [OF assms, where k = 2, simplified]
  show ?thesis
    by (simp add: eqs bump_from_def sample_region_def bump_ok_def up bump_virt_def PHYS_OFFSET_def)
qed

lemma bump_alloc_overlap_witness:
  "\<exists>p q b'. bump_many x86_64_ref True
        [\<lparr>lay_size = 1, lay_align = 1\<rparr>, \<lparr>lay_size = 5, lay_align = 4\<rparr>, \<lparr>lay_size = 4, lay_align = 4\<rparr>]
        (bump_from sample_region) = Inr ([(bump_virt (bump_from sample_region) 0, 1), (p, 5), (q, 4)], b')
    \<and> p < q \<and> q < p + 5"
  by (rule bump_alloc_overlap [OF x86_64_laws_ref])

end
