(* ===== verification/Pmm_Zone.thy ===== *)
theory Pmm_Zone
  imports Memory_Map
begin

text \<open>
  Model of one zone of the physical memory manager, \<^verbatim>\<open>src/src/mm/pmm.rs\<close> (\<^verbatim>\<open>Block\<close> and \<^verbatim>\<open>Zone\<close>). A zone keeps,
  for each order from 0 to \<^verbatim>\<open>MAX_ORDER\<close>, one byte per block of that order. The byte of a block is 0
  (\<^verbatim>\<open>Used\<close>) or one more than the largest order of a free block below it, so the lists form a forest of
  binary trees whose roots are the blocks of order \<^verbatim>\<open>MAX_ORDER\<close>.

  Positions in the lists are \<open>nat\<close>: a position that passes the bounds check of a slice is far below the
  range of \<^verbatim>\<open>usize\<close>. The bytes, the page counts and the addresses keep their width.
\<close>

definition MAX_ZONES :: nat where
  "MAX_ZONES = 64"

definition MAX_ORDER :: nat where
  "MAX_ORDER = 11"

definition MAX_ORDER_PAGES :: u64 where
  "MAX_ORDER_PAGES = push_bit 11 1"

subsection \<open>Blocks\<close>

datatype Block = LargestFreeOrder u8 | Used

definition from_order :: "bool \<Rightarrow> u8 \<Rightarrow> Block res" where
  "from_order dbg largest_free_order =
     bind_res (add_w dbg largest_free_order 1) (\<lambda>n. Inr (LargestFreeOrder n))"

fun larger_than :: "Block \<Rightarrow> u8 \<Rightarrow> bool" where
  "larger_than (LargestFreeOrder n) order \<longleftrightarrow> n > order"
| "larger_than Used order \<longleftrightarrow> False"

fun parent_state :: "bool \<Rightarrow> Block \<Rightarrow> Block \<Rightarrow> Block res" where
  "parent_state dbg (LargestFreeOrder l) (LargestFreeOrder r) =
     bind_res (if l = r then add_w dbg l 1 else if l > r then Inr l else Inr r)
       (\<lambda>order. Inr (LargestFreeOrder order))"
| "parent_state dbg (LargestFreeOrder x) Used = Inr (LargestFreeOrder x)"
| "parent_state dbg Used (LargestFreeOrder x) = Inr (LargestFreeOrder x)"
| "parent_state dbg Used Used = Inr Used"

subsection \<open>Zones\<close>

record Zone =
  pages :: phys_frame_range
  zone_pages :: u64
  order_list :: "Block list list"

text \<open>
  \<^verbatim>\<open>split_region\<close> fills the array from its last entry to its first, so the layers come out with the
  order-0 list in front. \<^verbatim>\<open>split_at_mut\<close> panics when the slice is too short.
\<close>

fun split_layers :: "bool \<Rightarrow> u64 \<Rightarrow> nat list \<Rightarrow> Block list \<Rightarrow> Block list list \<Rightarrow> Block list list res" where
  "split_layers dbg max_order_blocks [] blocks tmp = Inr tmp"
| "split_layers dbg max_order_blocks (order # orders) blocks tmp =
     bind_res (pow2_u64 dbg order) (\<lambda>p.
     bind_res (mul_w dbg max_order_blocks p) (\<lambda>blocks_in_layer.
     bind_res (assert_res (unat blocks_in_layer \<le> length blocks)) (\<lambda>_.
     split_layers dbg max_order_blocks orders (drop (unat blocks_in_layer) blocks)
       (take (unat blocks_in_layer) blocks # tmp))))"

definition split_region :: "x86_64 \<Rightarrow> bool \<Rightarrow> u64 \<Rightarrow> Block list \<Rightarrow> Block list list res" where
  "split_region X dbg n_pages blocks =
     bind_res (align_up X n_pages MAX_ORDER_PAGES) (\<lambda>up.
     split_layers dbg (up div MAX_ORDER_PAGES) [0..<MAX_ORDER + 1] blocks [])"

fun fill_orders :: "bool \<Rightarrow> nat \<Rightarrow> u64 \<Rightarrow> Block list list \<Rightarrow> Block list list res" where
  "fill_orders dbg order blocks_in_order [] = Inr []"
| "fill_orders dbg order blocks_in_order (list # ls) =
     bind_res (from_order dbg (of_nat order)) (\<lambda>block.
     let n = unat blocks_in_order in
     bind_res (fill_orders dbg (Suc order) (blocks_in_order div 2 + (if blocks_in_order mod 2 = 0 then 0 else 1)) ls)
       (\<lambda>ls'. Inr ((map (\<lambda>_. block) (take n list) @ drop n list) # ls')))"

fun set_firsts :: "bool \<Rightarrow> u8 \<Rightarrow> Block list list \<Rightarrow> Block list list res" where
  "set_firsts dbg largest_order [] = Inr []"
| "set_firsts dbg largest_order (list # ls) =
     bind_res (from_order dbg largest_order) (\<lambda>block.
     bind_res (update_res list 0 block) (\<lambda>list'.
     bind_res (set_firsts dbg largest_order ls) (\<lambda>ls'. Inr (list' # ls'))))"

definition zone_new :: "x86_64 \<Rightarrow> bool \<Rightarrow> phys_addr \<Rightarrow> usize \<Rightarrow> Block list \<Rightarrow> Zone res" where
  "zone_new X dbg addr len blocks =
     (let n_pages = len div PAGE_SIZE in
      bind_res (split_region X dbg n_pages blocks) (\<lambda>ls.
      bind_res (fill_orders dbg 0 n_pages ls) (\<lambda>ls1.
      bind_res (next_power_of_two dbg n_pages) (\<lambda>np.
      let largest_order = min (trailing_zeros np) (MAX_ORDER + 1) in
      bind_res (set_firsts dbg (of_nat largest_order) (drop largest_order ls1)) (\<lambda>upper.
      let start_frame = containing_address X addr in
      bind_res (frame_add X start_frame n_pages) (\<lambda>end_frame.
      Inr \<lparr>pages = \<lparr>range_start = start_frame, range_end = end_frame\<rparr>,
           zone_pages = n_pages,
           order_list = take largest_order ls1 @ upper\<rparr>))))))"

text \<open>\<^verbatim>\<open>self.order_list[order][idx]\<close>, read and written.\<close>

definition get_block :: "Block list list \<Rightarrow> nat \<Rightarrow> nat \<Rightarrow> Block res" where
  "get_block ol order idx = bind_res (index_res ol order) (\<lambda>list. index_res list idx)"

definition set_block :: "Block list list \<Rightarrow> nat \<Rightarrow> nat \<Rightarrow> Block \<Rightarrow> Block list list res" where
  "set_block ol order idx block =
     bind_res (index_res ol order) (\<lambda>list.
     bind_res (update_res list idx block) (\<lambda>list'. update_res ol order list'))"

fun update_orders :: "bool \<Rightarrow> nat list \<Rightarrow> nat \<Rightarrow> Block list list \<Rightarrow> Block list list res" where
  "update_orders dbg [] idx ol = Inr ol"
| "update_orders dbg (current_order # orders) idx ol =
     (let left_idx = idx - idx mod 2 in
      bind_res (get_block ol (current_order - 1) left_idx) (\<lambda>left.
      bind_res (get_block ol (current_order - 1) (left_idx + 1)) (\<lambda>right.
      bind_res (parent_state dbg left right) (\<lambda>parent.
      bind_res (set_block ol current_order (idx div 2) parent) (\<lambda>ol'.
      update_orders dbg orders (idx div 2) ol')))))"

definition update_tree :: "bool \<Rightarrow> u8 \<Rightarrow> nat \<Rightarrow> Block list list \<Rightarrow> Block list list res" where
  "update_tree dbg start_order idx ol =
     bind_res (add_w dbg start_order 1) (\<lambda>first. update_orders dbg [unat first..<MAX_ORDER + 1] idx ol)"

definition find_block :: "Block list \<Rightarrow> u8 \<Rightarrow> nat option" where
  "find_block list order = List.find (\<lambda>i. larger_than (list ! i) order) [0..<length list]"

fun descend :: "u8 \<Rightarrow> nat list \<Rightarrow> nat \<Rightarrow> Block list list \<Rightarrow> nat res" where
  "descend order [] idx ol = Inr idx"
| "descend order (current_order # orders) idx ol =
     bind_res (get_block ol current_order (idx * 2)) (\<lambda>left.
     if larger_than left order then descend order orders (idx * 2) ol
     else
       bind_res (get_block ol current_order (idx * 2 + 1)) (\<lambda>right.
       if larger_than right order then descend order orders (idx * 2 + 1) ol
       else Inl Unreachable))"

definition zone_alloc ::
  "x86_64 \<Rightarrow> bool \<Rightarrow> u8 \<Rightarrow> Zone \<Rightarrow> (phys_frame_range option \<times> Zone \<times> mem_event list) res" where
  "zone_alloc X dbg order z =
     bind_res (index_res (order_list z) MAX_ORDER) (\<lambda>top_list.
     case find_block top_list order of
       None \<Rightarrow> Inr (None, z, [])
     | Some top_idx \<Rightarrow>
         bind_res (descend order (rev [unat order..<MAX_ORDER]) top_idx (order_list z)) (\<lambda>idx.
         bind_res (set_block (order_list z) (unat order) idx Used) (\<lambda>ol.
         bind_res (update_tree dbg order idx ol) (\<lambda>ol'.
         bind_res (pow2_u64 dbg (unat order)) (\<lambda>p.
         bind_res (mul_w dbg p (of_nat idx)) (\<lambda>start_off.
         bind_res (frame_add X (range_start (pages z)) start_off) (\<lambda>start_frame.
         bind_res (mul_w dbg p (of_nat (idx + 1))) (\<lambda>end_off.
         bind_res (frame_add X (range_start (pages z)) end_off) (\<lambda>end_frame.
         bind_res (phys_to_kernel_virt X dbg start_frame) (\<lambda>page.
         bind_res (mul_w dbg PAGE_SIZE p) (\<lambda>len.
         Inr (Some \<lparr>range_start = start_frame, range_end = end_frame\<rparr>, z\<lparr>order_list := ol'\<rparr>,
              [Write_Bytes page (clear_byte dbg) len]))))))))))))"

definition zone_free :: "x86_64 \<Rightarrow> bool \<Rightarrow> phys_frame_range \<Rightarrow> Zone \<Rightarrow> Zone res" where
  "zone_free X dbg rng z =
     bind_res (phys_addr_sub X (range_end rng) (range_start rng)) (\<lambda>len.
     let order = trailing_zeros len in
     bind_res (debug_assert dbg (order \<le> MAX_ORDER)) (\<lambda>_.
     bind_res (debug_assert dbg (range_start (pages z) \<le> range_start rng)) (\<lambda>_.
     bind_res (debug_assert dbg (range_end (pages z) \<ge> range_end rng)) (\<lambda>_.
     bind_res (frame_sub X (range_start rng) (range_start (pages z))) (\<lambda>d.
     bind_res (if len = 0 then Inl Division_By_Zero else Inr (unat (d div len))) (\<lambda>idx.
     bind_res (if dbg then bind_res (get_block (order_list z) order idx) (\<lambda>b. debug_assert dbg (b = Used))
               else Inr ()) (\<lambda>_.
     bind_res (from_order dbg (of_nat order)) (\<lambda>block.
     bind_res (set_block (order_list z) order idx block) (\<lambda>ol.
     bind_res (update_tree dbg (of_nat order) idx ol) (\<lambda>ol'.
     Inr (z\<lparr>order_list := ol'\<rparr>)))))))))))"

end
