(* ===== verification/Pmm_Tree.thy ===== *)
theory Pmm_Tree
  imports Prelude
begin

text \<open>
  The abstract view of a zone: each block of the top order is the root of a binary tree whose nodes
  carry the byte of the block as a number, 0 for \<^verbatim>\<open>Used\<close> and one more than the largest free order
  otherwise. \<open>talloc\<close> is the search of \<^verbatim>\<open>Zone::alloc\<close> followed by \<^verbatim>\<open>update_tree\<close> on such a tree, and
  \<open>alloc_post\<close> is the contract it meets: the block it takes is the lowest aligned block of free frames.

  A node at height \<open>j\<close> and position \<open>i\<close> stands for the frames \<open>blk j i\<close> of the zone.
\<close>

definition blk :: "nat \<Rightarrow> nat \<Rightarrow> nat set" where
  "blk k i = {i * 2 ^ k ..< (i + 1) * 2 ^ k}"

datatype btree = Tip nat | Bin nat btree btree

primrec val :: "btree \<Rightarrow> nat" where
  "val (Tip s) = s"
| "val (Bin s l r) = s"

definition pstate :: "nat \<Rightarrow> nat \<Rightarrow> nat" where
  "pstate l r = (if l = 0 then r else if r = 0 then l else if l = r then Suc l else max l r)"

fun talloc :: "nat \<Rightarrow> nat \<Rightarrow> nat \<Rightarrow> btree \<Rightarrow> (nat \<times> btree) option" where
  "talloc k 0 i (Tip s) = (if k = 0 then Some (i, Tip 0) else None)"
| "talloc k (Suc j) i (Bin s l r) =
     (if k = Suc j then Some (i, Bin 0 l r)
      else if k < val l then
        map_option (\<lambda>(c, l'). (c, Bin (pstate (val l') (val r)) l' r)) (talloc k j (2 * i) l)
      else if k < val r then
        map_option (\<lambda>(c, r'). (c, Bin (pstate (val l) (val r')) l r')) (talloc k j (2 * i + 1) r)
      else None)"
| "talloc k 0 i (Bin s l r) = None"
| "talloc k (Suc j) i (Tip s) = None"

text \<open>The frames a tree offers: a full node offers its whole block, a \<^verbatim>\<open>Used\<close> node nothing.\<close>

fun fr :: "nat \<Rightarrow> nat \<Rightarrow> btree \<Rightarrow> nat set" where
  "fr 0 i (Tip s) = (if s = 0 then {} else blk 0 i)"
| "fr (Suc j) i (Bin s l r) =
     (if s = 0 then {} else if s = j + 2 then blk (Suc j) i else fr j (2 * i) l \<union> fr j (2 * i + 1) r)"
| "fr 0 i (Bin s l r) = {}"
| "fr (Suc j) i (Tip s) = {}"

text \<open>Every maximal free block of the tree is larger than \<open>m\<close>.\<close>

fun above :: "nat \<Rightarrow> nat \<Rightarrow> btree \<Rightarrow> bool" where
  "above m 0 (Tip s) \<longleftrightarrow> s = 0 \<or> m < s"
| "above m (Suc j) (Bin s l r) \<longleftrightarrow> s = 0 \<or> (if s = j + 2 then m < s else above m j l \<and> above m j r)"
| "above m 0 (Bin s l r) \<longleftrightarrow> False"
| "above m (Suc j) (Tip s) \<longleftrightarrow> False"

text \<open>
  The invariant of a zone with \<open>N\<close> frames. A free node starts inside the zone. It is either full, with
  a full left half and a right half that is full or, beyond the end of the zone, \<^verbatim>\<open>Used\<close>; or it is
  split, and then every free block of its right half is larger than every free block of its left half.
\<close>

definition full_node :: "nat \<Rightarrow> nat \<Rightarrow> nat \<Rightarrow> nat \<Rightarrow> btree \<Rightarrow> btree \<Rightarrow> bool" where
  "full_node N j i s l r \<longleftrightarrow> s = j + 2 \<and> val l = Suc j \<and> val r = (if (2 * i + 1) * 2 ^ j < N then Suc j else 0)"

definition split_node :: "nat \<Rightarrow> nat \<Rightarrow> btree \<Rightarrow> btree \<Rightarrow> bool" where
  "split_node j s l r \<longleftrightarrow> s = max (val l) (val r) \<and> above (val l) j r"

fun tree_ok :: "nat \<Rightarrow> nat \<Rightarrow> nat \<Rightarrow> btree \<Rightarrow> bool" where
  "tree_ok N 0 i (Tip s) \<longleftrightarrow> s \<le> 1 \<and> (s \<noteq> 0 \<longrightarrow> i < N)"
| "tree_ok N (Suc j) i (Bin s l r) \<longleftrightarrow>
     tree_ok N j (2 * i) l \<and> tree_ok N j (2 * i + 1) r \<and> (s \<noteq> 0 \<longrightarrow> i * 2 ^ Suc j < N)
     \<and> (s = 0 \<or> full_node N j i s l r \<or> split_node j s l r)"
| "tree_ok N 0 i (Bin s l r) \<longleftrightarrow> False"
| "tree_ok N (Suc j) i (Tip s) \<longleftrightarrow> False"

definition alloc_post :: "nat \<Rightarrow> nat \<Rightarrow> nat set \<Rightarrow> nat \<Rightarrow> nat set \<Rightarrow> bool" where
  "alloc_post N k F c F' \<longleftrightarrow> blk k c \<subseteq> F \<and> (\<forall>c' < c. \<not> blk k c' \<subseteq> F) \<and> c * 2 ^ k < N
     \<and> F' \<subseteq> F - blk k c \<and> F' \<inter> {..<N} = F \<inter> {..<N} - blk k c"

subsection \<open>Blocks\<close>

lemma blk_Suc: "blk (Suc j) i = blk j (2 * i) \<union> blk j (2 * i + 1)"
  by (auto simp: blk_def algebra_simps)

lemma blk_disjoint: "i \<noteq> i' \<Longrightarrow> blk k i \<inter> blk k i' = {}"
proof -
  have "blk k i \<inter> blk k i' = {}" if "i < i'" for i i'
  proof -
    have "(i + 1) * 2 ^ k \<le> i' * (2 ^ k :: nat)" using that by (intro mult_right_mono) simp_all
    then show ?thesis by (auto simp: blk_def)
  qed
  then show "i \<noteq> i' \<Longrightarrow> ?thesis" by (metis Int_commute linorder_neqE_nat)
qed

lemma blk_halves_disjoint: "blk j (2 * i) \<inter> blk j (2 * i + 1) = {}"
  by (simp add: blk_disjoint)

lemma blk_first: "i * 2 ^ k \<in> blk k i"
  by (simp add: blk_def)

lemma blk_mem: "x \<in> blk k i \<longleftrightarrow> x div 2 ^ k = i"
proof
  show "x \<in> blk k i \<Longrightarrow> x div 2 ^ k = i"
    by (intro div_nat_eqI) (simp_all add: blk_def algebra_simps)
  show "x div 2 ^ k = i \<Longrightarrow> x \<in> blk k i"
    using dividend_less_div_times [of "2 ^ k" x] by (auto simp: blk_def)
qed

lemma blk_nested:
  assumes "k \<le> j"
  shows "blk k c \<subseteq> blk j (c div 2 ^ (j - k))"
proof
  fix x
  assume "x \<in> blk k c"
  then have "x div 2 ^ k = c" by (simp add: blk_mem)
  moreover have "x div 2 ^ j = x div 2 ^ k div 2 ^ (j - k)"
    using assms by (simp add: div_mult2_eq [symmetric] power_add [symmetric])
  ultimately show "x \<in> blk j (c div 2 ^ (j - k))" by (simp add: blk_mem)
qed

lemma blk_in_half:
  assumes "k \<le> j" "blk k c \<subseteq> blk (Suc j) i"
  shows "blk k c \<subseteq> blk j (2 * i) \<or> blk k c \<subseteq> blk j (2 * i + 1)"
proof -
  have n: "blk k c \<subseteq> blk j (c div 2 ^ (j - k))" using blk_nested [OF assms(1)] .
  then have "c * 2 ^ k \<in> blk j (c div 2 ^ (j - k))" "c * 2 ^ k \<in> blk j (2 * i) \<union> blk j (2 * i + 1)"
    using blk_first [of c k] assms(2) by (auto simp: blk_Suc)
  then have "c div 2 ^ (j - k) = 2 * i \<or> c div 2 ^ (j - k) = 2 * i + 1" by (auto simp: blk_mem)
  with n show ?thesis by auto
qed

lemma blk_inj: "blk k c \<subseteq> blk k i \<Longrightarrow> c = i"
  by (drule subsetD [OF _ blk_first]) (simp add: blk_mem)

lemma blk_order: "x \<in> blk k i \<Longrightarrow> y \<in> blk k i' \<Longrightarrow> i < i' \<Longrightarrow> x < y"
  using div_le_mono [of y x "2 ^ k"] by (force simp: blk_mem not_less)

subsection \<open>Facts about well-formed trees\<close>

lemma fr_sub: "fr j i t \<subseteq> blk j i"
  by (induction j i t rule: fr.induct) (auto simp: blk_Suc)

lemma fr_Used: "val t = 0 \<Longrightarrow> fr j i t = {}"
  by (induction j i t rule: fr.induct) auto

lemma tree_ok_val_le: "tree_ok N j i t \<Longrightarrow> val t \<le> Suc j"
  by (induction N j i t rule: tree_ok.induct) (auto simp: full_node_def split_node_def)

lemma fr_full: "tree_ok N j i t \<Longrightarrow> val t = Suc j \<Longrightarrow> fr j i t = blk j i"
  by (induction N j i t rule: tree_ok.induct) auto

lemma above_full: "tree_ok N j i t \<Longrightarrow> val t = Suc j \<Longrightarrow> m < Suc j \<Longrightarrow> above m j t"
  by (induction N j i t rule: tree_ok.induct) auto

lemma above_Used: "tree_ok N j i t \<Longrightarrow> val t = 0 \<Longrightarrow> above m j t"
  by (induction N j i t rule: tree_ok.induct) auto

lemma above_mono: "above m j t \<Longrightarrow> m' \<le> m \<Longrightarrow> above m' j t"
  by (induction m j t rule: above.induct) (auto split: if_splits)

lemma above_val: "tree_ok N j i t \<Longrightarrow> above m j t \<Longrightarrow> val t = 0 \<or> m < val t"
  by (induction N j i t rule: tree_ok.induct)
     (auto simp: full_node_def split_node_def less_max_iff_disj split: if_splits)

text \<open>The value of a node is at least as large as any aligned block of free frames below it.\<close>

lemma val_complete:
  assumes "tree_ok N j i t" "k \<le> j" "blk k c \<subseteq> fr j i t"
  shows "k < val t"
  using assms
proof (induction N j i t arbitrary: k c rule: tree_ok.induct)
  case (1 N i s)
  then show ?case by (auto simp: blk_def split: if_splits)
next
  case (2 N j i s l r)
  have ne: "c * 2 ^ k \<in> fr (Suc j) i (Bin s l r)" using 2(5) blk_first by blast
  then have s: "s \<noteq> 0" by (auto split: if_splits)
  show ?case
  proof (cases "s = j + 2")
    case True
    then show ?thesis using 2(4) by simp
  next
    case False
    then have ok: "tree_ok N j (2 * i) l" "tree_ok N j (2 * i + 1) r" "split_node j s l r"
      using 2(3) s by (auto simp: full_node_def)
    have sub: "blk k c \<subseteq> fr j (2 * i) l \<union> fr j (2 * i + 1) r" using 2(5) s False by simp
    have halves: "S \<subseteq> blk j (2 * i) \<Longrightarrow> S \<subseteq> fr j (2 * i) l" "S \<subseteq> blk j (2 * i + 1) \<Longrightarrow> S \<subseteq> fr j (2 * i + 1) r"
      if "S \<subseteq> blk k c" for S
      using sub that fr_sub [of j "2 * i" l] fr_sub [of j "2 * i + 1" r] blk_halves_disjoint [of j i]
      by blast+
    have within: "blk k c \<subseteq> blk (Suc j) i" using 2(5) fr_sub by blast
    show ?thesis
    proof (cases "k \<le> j")
      case True
      from blk_in_half [OF this within] have "k < val l \<or> k < val r"
        using 2(1) [OF ok(1) True halves(1)] 2(2) [OF ok(2) True halves(2)] by blast
      then show ?thesis using ok(3) by (auto simp: split_node_def)
    next
      case False
      then have "k = Suc j" using 2(4) by simp
      moreover from this have "c = i" using within blk_inj by simp
      ultimately have "j < val l" "j < val r"
        using 2(1) [OF ok(1) order_refl halves(1) [OF _ order_refl]]
          2(2) [OF ok(2) order_refl halves(2) [OF _ order_refl]] by (auto simp: blk_Suc)
      moreover have "val r = 0 \<or> val l < val r"
        using ok(2,3) above_val by (auto simp: split_node_def)
      ultimately show ?thesis using tree_ok_val_le [OF ok(1)] tree_ok_val_le [OF ok(2)] by simp
    qed
  qed
qed simp_all

subsection \<open>Allocation keeps the invariant and meets its contract\<close>

text \<open>
  What one step up the tree needs of the half it went into: \<open>t'\<close> is \<open>t\<close> after taking block \<open>c\<close> of
  order \<open>k\<close>.
\<close>

definition step_ok :: "nat \<Rightarrow> nat \<Rightarrow> nat \<Rightarrow> nat \<Rightarrow> btree \<Rightarrow> nat \<Rightarrow> btree \<Rightarrow> bool" where
  "step_ok N k j i t c t' \<longleftrightarrow> tree_ok N j i t' \<and> val t' \<le> val t \<and> val t' < Suc j
     \<and> (\<forall>m \<le> k. above m j t \<longrightarrow> above m j t') \<and> alloc_post N k (fr j i t) c (fr j i t')"

lemma split_node_small:
  assumes "tree_ok N (Suc j) i (Bin s l r)" "split_node j s l r"
  shows "s < j + 2"
  using assms tree_ok_val_le [of N j "2 * i" l] tree_ok_val_le [of N j "2 * i + 1" r]
  by (auto simp: split_node_def)

lemma pstate_above:
  assumes "tree_ok N j i r" "above (val l) j r"
  shows "pstate (val l) (val r) = max (val l) (val r)"
  using above_val [OF assms] by (auto simp: pstate_def)

text \<open>The frames of a free node are those of its halves, up to frames beyond the end of the zone.\<close>

lemma fr_node:
  assumes "tree_ok N (Suc j) i (Bin s l r)" "s \<noteq> 0"
  shows "fr j (2 * i) l \<union> fr j (2 * i + 1) r \<subseteq> fr (Suc j) i (Bin s l r)"
    and "fr (Suc j) i (Bin s l r) \<inter> {..<N} = (fr j (2 * i) l \<union> fr j (2 * i + 1) r) \<inter> {..<N}"
    and "fr (Suc j) i (Bin s l r) \<inter> blk j (2 * i) = fr j (2 * i) l"
proof -
  have ok: "tree_ok N j (2 * i) l" "tree_ok N j (2 * i + 1) r" "full_node N j i s l r \<or> split_node j s l r"
    using assms by auto
  have sub: "fr j (2 * i) l \<subseteq> blk j (2 * i)" "fr j (2 * i + 1) r \<subseteq> blk j (2 * i + 1)" by (rule fr_sub)+
  note dj = blk_halves_disjoint [of j i]
  have all: "fr j (2 * i) l \<union> fr j (2 * i + 1) r \<subseteq> fr (Suc j) i (Bin s l r)
    \<and> fr (Suc j) i (Bin s l r) \<inter> {..<N} = (fr j (2 * i) l \<union> fr j (2 * i + 1) r) \<inter> {..<N}
    \<and> fr (Suc j) i (Bin s l r) \<inter> blk j (2 * i) = fr j (2 * i) l"
  proof (cases "full_node N j i s l r")
    case True
    then have l: "fr j (2 * i) l = blk j (2 * i)" and s: "fr (Suc j) i (Bin s l r) = blk (Suc j) i"
      using fr_full [OF ok(1)] by (auto simp: full_node_def)
    have "fr j (2 * i + 1) r \<inter> {..<N} = blk j (2 * i + 1) \<inter> {..<N}"
    proof (cases "(2 * i + 1) * 2 ^ j < N")
      case True
      then show ?thesis using \<open>full_node N j i s l r\<close> fr_full [OF ok(2)] by (simp add: full_node_def)
    next
      case False
      then show ?thesis using \<open>full_node N j i s l r\<close> fr_Used [of r j "2 * i + 1"]
        by (auto simp: full_node_def blk_def)
    qed
    then show ?thesis unfolding l s blk_Suc using sub(2) dj by blast
  next
    case False
    then have "s \<noteq> j + 2" using ok split_node_small [OF assms(1)] by auto
    then have "fr (Suc j) i (Bin s l r) = fr j (2 * i) l \<union> fr j (2 * i + 1) r" using assms(2) by simp
    then show ?thesis using sub dj by blast
  qed
  then show "fr j (2 * i) l \<union> fr j (2 * i + 1) r \<subseteq> fr (Suc j) i (Bin s l r)"
    and "fr (Suc j) i (Bin s l r) \<inter> {..<N} = (fr j (2 * i) l \<union> fr j (2 * i + 1) r) \<inter> {..<N}"
    and "fr (Suc j) i (Bin s l r) \<inter> blk j (2 * i) = fr j (2 * i) l"
    by blast+
qed

lemma fr_split:
  assumes "tree_ok N (Suc j) i (Bin s l r)" "split_node j s l r"
  shows "fr (Suc j) i (Bin s l r) = fr j (2 * i) l \<union> fr j (2 * i + 1) r"
  using assms(2) split_node_small [OF assms] fr_Used [of l j "2 * i"] fr_Used [of r j "2 * i + 1"]
  by (auto simp: split_node_def)

lemma above_node:
  assumes "tree_ok N (Suc j) i (Bin s l r)" "s \<noteq> 0" "m \<le> j" "above m (Suc j) (Bin s l r)"
  shows "above m j l \<and> above m j r"
  using assms above_full [of N j "2 * i" l m] above_full [of N j "2 * i + 1" r m] above_Used [of N j "2 * i + 1" r m]
    split_node_small [OF assms(1)]
  by (auto simp: full_node_def split: if_splits)

lemma alloc_post_left:
  assumes post: "alloc_post N k A c A'" and A: "A \<subseteq> blk j (2 * i)" and B: "B \<subseteq> blk j (2 * i + 1)"
    and k: "k \<le> j" and F: "F \<subseteq> blk (Suc j) i" "F \<inter> blk j (2 * i) = A" "A \<union> B \<subseteq> F"
      "F \<inter> {..<N} = (A \<union> B) \<inter> {..<N}"
  shows "alloc_post N k F c (A' \<union> B)"
proof -
  have c: "blk k c \<subseteq> A" "\<And>c'. c' < c \<Longrightarrow> \<not> blk k c' \<subseteq> A" "c * 2 ^ k < N" "A' \<subseteq> A - blk k c"
    "A' \<inter> {..<N} = A \<inter> {..<N} - blk k c"
    using post by (auto simp: alloc_post_def)
  have dj: "B \<inter> blk k c = {}" using c(1) A B blk_halves_disjoint [of j i] by blast
  have "\<not> blk k c' \<subseteq> F" if "c' < c" for c'
  proof
    assume sub: "blk k c' \<subseteq> F"
    from blk_in_half [OF k, of c' i] sub F(1)
    consider "blk k c' \<subseteq> blk j (2 * i)" | "blk k c' \<subseteq> blk j (2 * i + 1)" by blast
    then show False
    proof cases
      case 1
      then show False using sub F(2) c(2) [OF that] by blast
    next
      case 2
      then have "c * 2 ^ k \<in> blk j (2 * i)" "c' * 2 ^ k \<in> blk j (2 * i + 1)"
        using blk_first [of c k] blk_first [of c' k] c(1) A by blast+
      then show False using blk_order [of "c * 2 ^ k" j "2 * i" "c' * 2 ^ k" "2 * i + 1"] that by simp
    qed
  qed
  moreover have "(A' \<union> B) \<inter> {..<N} = F \<inter> {..<N} - blk k c" using c(5) F(4) dj by blast
  moreover have "A' \<union> B \<subseteq> F - blk k c" using c(4) F(3) dj by blast
  ultimately show ?thesis using c F(3) by (auto simp: alloc_post_def)
qed

lemma alloc_post_right:
  assumes post: "alloc_post N k B c B'" and A: "A \<subseteq> blk j (2 * i)" and B: "B \<subseteq> blk j (2 * i + 1)"
    and k: "k \<le> j" and none: "\<And>c'. \<not> blk k c' \<subseteq> A"
  shows "alloc_post N k (A \<union> B) c (A \<union> B')"
proof -
  have c: "blk k c \<subseteq> B" "\<And>c'. c' < c \<Longrightarrow> \<not> blk k c' \<subseteq> B" "c * 2 ^ k < N" "B' \<subseteq> B - blk k c"
    "B' \<inter> {..<N} = B \<inter> {..<N} - blk k c"
    using post by (auto simp: alloc_post_def)
  note halves = blk_halves_disjoint [of j i]
  have dj: "A \<inter> blk k c = {}" using c(1) A B halves by blast
  have "\<not> blk k c' \<subseteq> A \<union> B" if "c' < c" for c'
  proof
    assume sub: "blk k c' \<subseteq> A \<union> B"
    then have "blk k c' \<subseteq> blk (Suc j) i" using A B by (auto simp: blk_Suc)
    from blk_in_half [OF k this] have "blk k c' \<subseteq> A \<or> blk k c' \<subseteq> B" using sub A B halves by blast
    then show False using none c(2) [OF that] by blast
  qed
  moreover have "(A \<union> B') \<inter> {..<N} = (A \<union> B) \<inter> {..<N} - blk k c" using c(5) dj by blast
  ultimately show ?thesis using c dj by (auto simp: alloc_post_def)
qed

lemma step_ok_here:
  assumes "tree_ok N j i t" "j < val t"
  shows "\<exists>t'. talloc j j i t = Some (i, t') \<and> step_ok N j j i t i t'"
proof -
  have v: "val t = Suc j" using assms tree_ok_val_le by fastforce
  have F: "fr j i t = blk j i" using fr_full [OF assms(1) v] .
  have post: "alloc_post N j (blk j i) i {}" if "i * 2 ^ j < N"
    using that blk_inj by (auto simp: alloc_post_def)
  show ?thesis
    using assms v F post fr_Used
    by (cases "(j, t)" rule: prod.exhaust; cases j; cases t) (auto simp: step_ok_def)
qed

lemma step_ok_left:
  assumes "tree_ok N (Suc j) i (Bin s l r)" "s \<noteq> 0" "k \<le> j" "k < val l" "step_ok N k j (2 * i) l c l'"
  shows "step_ok N k (Suc j) i (Bin s l r) c (Bin (pstate (val l') (val r)) l' r)"
proof -
  have ok: "tree_ok N j (2 * i) l" "tree_ok N j (2 * i + 1) r" "full_node N j i s l r \<or> split_node j s l r"
    "i * 2 ^ Suc j < N" using assms(1,2) by auto
  have l': "tree_ok N j (2 * i) l'" "val l' \<le> val l" "val l' < Suc j"
    "\<And>m. m \<le> k \<Longrightarrow> above m j l \<Longrightarrow> above m j l'" "alloc_post N k (fr j (2 * i) l) c (fr j (2 * i) l')"
    using assms(5) by (auto simp: step_ok_def)
  have ab: "above (val l') j r"
    using ok(3) above_mono [of "val l" j r] above_full [OF ok(2)] above_Used [OF ok(2)] l'(2,3)
    by (auto simp: full_node_def split_node_def split: if_splits)
  have s': "pstate (val l') (val r) = max (val l') (val r)" using pstate_above [OF ok(2) ab] .
  have sp: "split_node j (pstate (val l') (val r)) l' r" using s' ab by (simp add: split_node_def)
  have ok': "tree_ok N (Suc j) i (Bin (pstate (val l') (val r)) l' r)" using sp l'(1) ok by simp
  have "pstate (val l') (val r) \<le> s"
    using ok(3) l' tree_ok_val_le [OF ok(2)] by (auto simp: s' full_node_def split_node_def)
  moreover have "above m (Suc j) (Bin (pstate (val l') (val r)) l' r)"
    if "m \<le> k" "above m (Suc j) (Bin s l r)" for m
    using above_node [OF assms(1,2) _ that(2)] l'(4) [OF that(1)] that(1) assms(3) split_node_small [OF ok' sp] by auto
  moreover have "alloc_post N k (fr (Suc j) i (Bin s l r)) c (fr (Suc j) i (Bin (pstate (val l') (val r)) l' r))"
    unfolding fr_split [OF ok' sp]
    by (rule alloc_post_left [OF l'(5) fr_sub fr_sub assms(3) fr_sub]) (use fr_node [OF assms(1,2)] in blast)+
  ultimately show ?thesis using ok' split_node_small [OF ok' sp] by (simp add: step_ok_def)
qed

lemma step_ok_right:
  assumes "tree_ok N (Suc j) i (Bin s l r)" "s \<noteq> 0" "k \<le> j" "\<not> k < val l" "step_ok N k j (2 * i + 1) r c r'"
  shows "step_ok N k (Suc j) i (Bin s l r) c (Bin (pstate (val l) (val r')) l r')"
proof -
  have ok: "tree_ok N j (2 * i) l" "tree_ok N j (2 * i + 1) r" "split_node j s l r" "i * 2 ^ Suc j < N"
    using assms(1-4) by (auto simp: full_node_def)
  have r': "tree_ok N j (2 * i + 1) r'" "val r' \<le> val r" "val r' < Suc j"
    "\<And>m. m \<le> k \<Longrightarrow> above m j r \<Longrightarrow> above m j r'" "alloc_post N k (fr j (2 * i + 1) r) c (fr j (2 * i + 1) r')"
    using assms(5) by (auto simp: step_ok_def)
  have ab: "above (val l) j r'" using ok(3) r'(4) assms(4) by (auto simp: split_node_def)
  have s': "pstate (val l) (val r') = max (val l) (val r')" using pstate_above [OF r'(1) ab] .
  have sp: "split_node j (pstate (val l) (val r')) l r'" using s' ab by (simp add: split_node_def)
  have ok': "tree_ok N (Suc j) i (Bin (pstate (val l) (val r')) l r')" using sp r'(1) ok by simp
  have "pstate (val l) (val r') \<le> s" using ok(3) r'(2) by (auto simp: s' split_node_def)
  moreover have "above m (Suc j) (Bin (pstate (val l) (val r')) l r')"
    if "m \<le> k" "above m (Suc j) (Bin s l r)" for m
    using above_node [OF assms(1,2) _ that(2)] r'(4) [OF that(1)] that(1) assms(3) split_node_small [OF ok' sp] by auto
  moreover have "\<not> blk k c' \<subseteq> fr j (2 * i) l" for c' using val_complete [OF ok(1) assms(3)] assms(4) by blast
  then have "alloc_post N k (fr (Suc j) i (Bin s l r)) c (fr (Suc j) i (Bin (pstate (val l) (val r')) l r'))"
    unfolding fr_split [OF ok' sp] fr_split [OF assms(1) ok(3)]
    by (intro alloc_post_right [OF r'(5) fr_sub fr_sub assms(3)])
  ultimately show ?thesis using ok' split_node_small [OF ok' sp] by (simp add: step_ok_def)
qed

theorem talloc_step_ok:
  assumes "tree_ok N j i t" "k \<le> j" "k < val t"
  shows "\<exists>c t'. talloc k j i t = Some (c, t') \<and> step_ok N k j i t c t'"
  using assms
proof (induction N j i t rule: tree_ok.induct)
  case (2 N j i s l r)
  show ?case
  proof (cases "k = Suc j")
    case True
    then show ?thesis using step_ok_here 2(3,5) by blast
  next
    case False
    then have k: "k \<le> j" using 2(4) by simp
    have s: "s \<noteq> 0" using 2(5) by simp
    have ok: "tree_ok N j (2 * i) l" "tree_ok N j (2 * i + 1) r" using 2(3) by auto
    show ?thesis
    proof (cases "k < val l")
      case True
      with 2(1) [OF ok(1) k] obtain c l' where "talloc k j (2 * i) l = Some (c, l')" "step_ok N k j (2 * i) l c l'" by auto
      with step_ok_left [OF 2(3) s k True] True False show ?thesis by simp
    next
      case nl: False
      then have "k < val r" using 2(3,5) s k by (auto simp: full_node_def split_node_def)
      with 2(2) [OF ok(2) k] obtain c r' where "talloc k j (2 * i + 1) r = Some (c, r')" "step_ok N k j (2 * i + 1) r c r'"
        by auto
      with step_ok_right [OF 2(3) s k nl] nl \<open>k < val r\<close> False show ?thesis by simp
    qed
  qed
qed (auto simp: step_ok_def alloc_post_def blk_def)

end
