(* ===== verification/Pmm_Refine.thy ===== *)
theory Pmm_Refine
  imports Pmm_Zone Pmm_Tree
begin

text \<open>
  The order lists of a zone implement the trees of theory \<open>Pmm_Tree\<close>: \<open>tree_of\<close> reads a tree off the
  lists, and \<^verbatim>\<open>descend\<close>, \<^verbatim>\<open>set_block\<close> and \<^verbatim>\<open>update_tree\<close> together compute \<open>talloc\<close> on it.
\<close>

primrec bval :: "Block \<Rightarrow> nat" where
  "bval (LargestFreeOrder n) = unat n"
| "bval Used = 0"

primrec tree_of :: "Block list list \<Rightarrow> nat \<Rightarrow> nat \<Rightarrow> btree" where
  "tree_of ol 0 i = Tip (bval (ol ! 0 ! i))"
| "tree_of ol (Suc j) i = Bin (bval (ol ! Suc j ! i)) (tree_of ol j (2 * i)) (tree_of ol j (2 * i + 1))"

definition levels_ok :: "nat \<Rightarrow> Block list list \<Rightarrow> bool" where
  "levels_ok M ol \<longleftrightarrow> length ol = 12 \<and> (\<forall>a < 12. length (ol ! a) = M * 2 ^ (11 - a))
     \<and> (\<forall>list \<in> set ol. LargestFreeOrder 0 \<notin> set list)"

lemma val_tree_of [simp]: "val (tree_of ol j i) = bval (ol ! j ! i)"
  by (cases j) simp_all

lemma larger_than_bval: "larger_than b order \<longleftrightarrow> unat order < bval b"
  by (cases b) (simp_all add: word_less_nat_alt)

lemma levels_okD:
  assumes "levels_ok M ol"
  shows "length ol = 12" and "a < 12 \<Longrightarrow> length (ol ! a) = M * 2 ^ (11 - a)"
    and "a < 12 \<Longrightarrow> b < M * 2 ^ (11 - a) \<Longrightarrow> ol ! a ! b \<noteq> LargestFreeOrder 0"
  using assms by (auto simp: levels_ok_def) (metis nth_mem)

lemma get_block_Inr: "levels_ok M ol \<Longrightarrow> a < 12 \<Longrightarrow> b < M * 2 ^ (11 - a) \<Longrightarrow> get_block ol a b = Inr (ol ! a ! b)"
  by (simp add: get_block_def levels_okD)

lemma set_block_Inr:
  "levels_ok M ol \<Longrightarrow> a < 12 \<Longrightarrow> b < M * 2 ^ (11 - a) \<Longrightarrow> set_block ol a b x = Inr (ol[a := (ol ! a)[b := x]])"
  by (simp add: set_block_def levels_okD)

lemma levels_ok_update:
  assumes "levels_ok M ol" "a < 12" "x \<noteq> LargestFreeOrder 0"
  shows "levels_ok M (ol[a := (ol ! a)[b := x]])"
proof -
  have "LargestFreeOrder 0 \<notin> set ((ol ! a)[b := x])"
    using assms set_update_subset_insert [of "ol ! a" b x] nth_mem [of a ol] by (auto simp: levels_ok_def)
  then show ?thesis
    using assms set_update_subset_insert [of ol a "(ol ! a)[b := x]"] by (auto simp: levels_ok_def nth_list_update)
qed

lemma nth_set_block:
  "ol[a := (ol ! a)[b := x]] ! a' ! b' = (if a' = a \<and> b' = b \<and> a < length ol \<and> b < length (ol ! a) then x else ol ! a' ! b')"
  by (cases "a < length ol"; cases "b < length (ol ! a)") (auto simp: nth_list_update list_update_beyond)

lemma tree_of_agree:
  assumes "\<And>a b. a \<le> j \<Longrightarrow> b div 2 ^ (j - a) = i \<Longrightarrow> ol' ! a ! b = ol ! a ! b"
  shows "tree_of ol' j i = tree_of ol j i"
  using assms
proof (induction j arbitrary: i)
  case (Suc j)
  have "tree_of ol' j i' = tree_of ol j i'" if "i' div 2 = i" for i'
  proof (rule Suc.IH)
    fix a b
    assume a: "a \<le> j" "b div 2 ^ (j - a) = i'"
    have "b div 2 ^ (Suc j - a) = b div (2 ^ (j - a) * 2)" using a(1) by (simp add: Suc_diff_le mult.commute)
    also have "\<dots> = i" using a(2) that by (simp add: div_mult2_eq)
    finally show "ol' ! a ! b = ol ! a ! b" using Suc.prems a(1) by simp
  qed
  from this [of "2 * i"] this [of "2 * i + 1"] Suc.prems [of "Suc j" i] show ?case by simp
qed simp

lemma parent_state_bval:
  assumes "l \<noteq> LargestFreeOrder 0" "r \<noteq> LargestFreeOrder 0" "bval l < 255"
  obtains p where "parent_state dbg l r = Inr p" "bval p = pstate (bval l) (bval r)" "p \<noteq> LargestFreeOrder 0"
proof (cases l; cases r)
  fix a b
  assume l: "l = LargestFreeOrder a" and r: "r = LargestFreeOrder b"
  have nz: "unat a \<noteq> 0" "unat b \<noteq> 0" using assms l r by (auto simp: unat_eq_zero)
  have a1: "unat (a + 1) = Suc (unat a)" using assms(3) l by (subst unat_add_no_wrap) simp_all
  then have nz1: "a + 1 \<noteq> 0" by (metis nat.distinct(1) unat_0)
  show thesis
  proof (cases "a = b")
    case True
    then show thesis using that [of "LargestFreeOrder (a + 1)"] l r a1 nz nz1 assms(3)
      by (simp add: add_w_Inr pstate_def)
  next
    case False
    then have "unat a \<noteq> unat b" by (simp add: word_unat_eq_iff)
    then show thesis using that [of "if b < a then l else r"] assms False l r nz
      by (simp add: pstate_def word_less_nat_alt max_def)
  qed
qed (use that assms in \<open>auto simp: pstate_def\<close>)

lemma child_bound: "j < 11 \<Longrightarrow> i < M * 2 ^ (11 - Suc j) \<Longrightarrow> 2 * i + 1 < M * 2 ^ (11 - j)" for i M :: nat
  by (simp add: Suc_diff_Suc [symmetric] del: diff_Suc_Suc)

lemma div_pow_Suc: "k \<le> j \<Longrightarrow> c div 2 ^ (Suc j - k) = c div 2 ^ (j - k) div (2 :: nat)"
  by (simp add: Suc_diff_le div_mult2_eq [symmetric] mult.commute)

lemma talloc_idx: "talloc k j i t = Some (c, t') \<Longrightarrow> k \<le> j \<and> c div 2 ^ (j - k) = i"
proof (induction k j i t arbitrary: t' rule: talloc.induct)
  case (2 k j i s l r)
  from 2(3) consider "k = Suc j" "c = i"
    | l' where "k \<noteq> Suc j" "k < val l" "talloc k j (2 * i) l = Some (c, l')"
    | r' where "k \<noteq> Suc j" "\<not> k < val l" "k < val r" "talloc k j (2 * i + 1) r = Some (c, r')"
    by (auto split: if_splits)
  then show ?case
    using 2(1,2) by cases (fastforce simp: div_pow_Suc)+
qed (auto split: if_splits)

lemma descend_talloc:
  assumes "levels_ok M ol" "j \<le> 11" "i < M * 2 ^ (11 - j)"
    and "talloc (unat order) j i (tree_of ol j i) = Some (c, t')"
  shows "descend order (rev [unat order..<j]) i ol = Inr c"
  using assms(2-)
proof (induction j arbitrary: i t')
  case (Suc j)
  note kj = talloc_idx [OF Suc.prems(3)]
  show ?case
  proof (cases "unat order = Suc j")
    case True
    then show ?thesis using Suc.prems(3) by simp
  next
    case False
    then have rev: "rev [unat order..<Suc j] = j # rev [unat order..<j]" using kj by simp
    have b: "2 * i + 1 < M * 2 ^ (11 - j)" using child_bound Suc.prems(1,2) by simp
    have get: "get_block ol j (i * 2) = Inr (ol ! j ! (2 * i))" "get_block ol j (i * 2 + 1) = Inr (ol ! j ! (2 * i + 1))"
      using get_block_Inr [OF assms(1), of j] b Suc.prems(1) by (simp_all add: mult.commute)
    show ?thesis
      using Suc.prems False b Suc.IH [of "2 * i"] Suc.IH [of "2 * i + 1"] get
      unfolding rev by (auto simp: larger_than_bval mult.commute split: if_splits)
  qed
qed (auto split: if_splits)

lemma update_orders_append:
  "update_orders dbg (xs @ ys) idx ol =
     bind_res (update_orders dbg xs idx ol) (\<lambda>ol'. update_orders dbg ys (idx div 2 ^ length xs) ol')"
proof (induction xs arbitrary: idx ol)
  case (Cons x xs)
  have "idx div 2 div 2 ^ length xs = idx div 2 ^ length (x # xs)" by (simp add: div_mult2_eq)
  moreover have "update_orders dbg (xs @ ys) i = (\<lambda>ol. bind_res (update_orders dbg xs i ol)
      (\<lambda>ol'. update_orders dbg ys (i div 2 ^ length xs) ol'))" for i
    by (rule ext) (rule Cons.IH)
  ultimately show ?case by (simp add: Let_def bind_res_assoc)
qed simp

text \<open>The lists agree except on the path from block \<open>c\<close> of order \<open>k\<close> up to order \<open>j\<close>.\<close>

definition off_path :: "nat \<Rightarrow> nat \<Rightarrow> nat \<Rightarrow> Block list list \<Rightarrow> Block list list \<Rightarrow> bool" where
  "off_path k c j ol ol' \<longleftrightarrow>
     (\<forall>a b. \<not> (k \<le> a \<and> a \<le> j \<and> b = c div 2 ^ (a - k)) \<longrightarrow> ol' ! a ! b = ol ! a ! b)"

lemma off_path_sibling:
  assumes "off_path k c j ol ol'" "k \<le> j" "i \<noteq> c div 2 ^ (j - k)"
  shows "tree_of ol' j i = tree_of ol j i"
proof (rule tree_of_agree)
  fix a b
  assume a: "a \<le> j" "b div 2 ^ (j - a) = i"
  have "b \<noteq> c div 2 ^ (a - k)" if "k \<le> a"
  proof
    assume "b = c div 2 ^ (a - k)"
    then have "b div 2 ^ (j - a) = c div 2 ^ (j - k)"
      using that a(1) by (simp add: div_mult2_eq [symmetric] power_add [symmetric])
    then show False using a(2) assms(3) by simp
  qed
  then show "ol' ! a ! b = ol ! a ! b" using assms(1) by (auto simp: off_path_def)
qed

lemma tree_of_upper: "j < a \<Longrightarrow> tree_of (ol[a := z]) j i = tree_of ol j i"
  by (rule tree_of_agree) simp

lemma tree_of_set_root:
  assumes "levels_ok M ol" "j < 12" "i < M * 2 ^ (11 - j)"
  shows "tree_of (ol[j := (ol ! j)[i := x]]) j i
    = (case tree_of ol j i of Tip s \<Rightarrow> Tip (bval x) | Bin s l r \<Rightarrow> Bin (bval x) l r)"
  using assms levels_okD(1,2) [OF assms(1)] by (cases j) (simp_all add: tree_of_upper)

lemma talloc_here: "talloc k k i t = Some (c, t') \<Longrightarrow>
   c = i \<and> t' = (case t of Tip s \<Rightarrow> Tip 0 | Bin s l r \<Rightarrow> Bin 0 l r)"
  by (cases k; cases t) auto

text \<open>One level of \<open>talloc\<close> seen from the lists: \<open>ol1\<close> are the lists after the update of the lower half.\<close>

lemma talloc_level:
  assumes "talloc k (Suc j) i (tree_of ol (Suc j) i) = Some (c, t')" "k \<le> j"
    and "tree_ok N (Suc j) i (tree_of ol (Suc j) i)"
  obtains i' t1 where "i' = c div 2 ^ (j - k)" "i' div 2 = i" "talloc k j i' (tree_of ol j i') = Some (c, t1)"
    "tree_ok N j i' (tree_of ol j i')" "val t1 \<le> Suc j"
    "\<And>ol1. tree_of ol1 j i' = t1 \<Longrightarrow> off_path k c j ol ol1 \<Longrightarrow>
      t' = Bin (pstate (bval (ol1 ! j ! (2 * i))) (bval (ol1 ! j ! (2 * i + 1)))) (tree_of ol1 j (2 * i)) (tree_of ol1 j (2 * i + 1))
      \<and> bval (ol1 ! j ! (2 * i)) \<le> Suc j"
proof -
  have ok: "tree_ok N j (2 * i) (tree_of ol j (2 * i))" "tree_ok N j (2 * i + 1) (tree_of ol j (2 * i + 1))"
    using assms(3) by auto
  from assms(1,2) consider
      t1 where "k < bval (ol ! j ! (2 * i))" "talloc k j (2 * i) (tree_of ol j (2 * i)) = Some (c, t1)"
        "t' = Bin (pstate (val t1) (bval (ol ! j ! (2 * i + 1)))) t1 (tree_of ol j (2 * i + 1))"
    | t1 where "k < bval (ol ! j ! (2 * i + 1))" "talloc k j (2 * i + 1) (tree_of ol j (2 * i + 1)) = Some (c, t1)"
        "t' = Bin (pstate (bval (ol ! j ! (2 * i))) (val t1)) (tree_of ol j (2 * i)) t1"
    by (auto split: if_splits)
  then show thesis
  proof cases
    case 1
    have bd: "val t1 \<le> Suc j" using talloc_step_ok [OF ok(1) assms(2)] 1(1,2) by (auto simp: step_ok_def)
    have ci: "2 * i = c div 2 ^ (j - k)" using talloc_idx [OF 1(2)] by simp
    show thesis
    proof (rule that [of "2 * i" t1])
      fix ol1
      assume ol1: "tree_of ol1 j (2 * i) = t1" "off_path k c j ol ol1"
      then have "tree_of ol1 j (2 * i + 1) = tree_of ol j (2 * i + 1)"
        using off_path_sibling [OF ol1(2) assms(2), of "2 * i + 1"] ci by simp
      with ol1(1) 1(3) bd show "t' = Bin (pstate (bval (ol1 ! j ! (2 * i))) (bval (ol1 ! j ! (2 * i + 1))))
          (tree_of ol1 j (2 * i)) (tree_of ol1 j (2 * i + 1)) \<and> bval (ol1 ! j ! (2 * i)) \<le> Suc j"
        by (metis val_tree_of)
    qed (use 1 ci ok bd in auto)
  next
    case 2
    have bd: "val t1 \<le> Suc j" using talloc_step_ok [OF ok(2) assms(2)] 2(1,2) by (auto simp: step_ok_def)
    have ci: "2 * i + 1 = c div 2 ^ (j - k)" using talloc_idx [OF 2(2)] by simp
    show thesis
    proof (rule that [of "2 * i + 1" t1])
      fix ol1
      assume ol1: "tree_of ol1 j (2 * i + 1) = t1" "off_path k c j ol ol1"
      then have "tree_of ol1 j (2 * i) = tree_of ol j (2 * i)"
        using off_path_sibling [OF ol1(2) assms(2), of "2 * i"] ci by simp
      with ol1(1) 2(3) tree_ok_val_le [OF ok(1)]
      show "t' = Bin (pstate (bval (ol1 ! j ! (2 * i))) (bval (ol1 ! j ! (2 * i + 1))))
          (tree_of ol1 j (2 * i)) (tree_of ol1 j (2 * i + 1)) \<and> bval (ol1 ! j ! (2 * i)) \<le> Suc j"
        by (metis val_tree_of)
    qed (use 2 ci ok bd in auto)
  qed
qed

lemma update_level:
  assumes "levels_ok M ol" "j < 11" "i < M * 2 ^ (11 - Suc j)" "i' div 2 = i" "bval (ol ! j ! (2 * i)) \<le> Suc j"
  obtains p where "update_orders dbg [Suc j] i' ol = Inr (ol[Suc j := (ol ! Suc j)[i := p]])"
    "bval p = pstate (bval (ol ! j ! (2 * i))) (bval (ol ! j ! (2 * i + 1)))" "p \<noteq> LargestFreeOrder 0"
proof -
  have b: "2 * i + 1 < M * 2 ^ (11 - j)" using child_bound [OF assms(2,3)] .
  have "i' - i' mod 2 = 2 * i" using assms(4) by (metis minus_mod_eq_mult_div mult.commute)
  moreover have get: "get_block ol j (2 * i) = Inr (ol ! j ! (2 * i))" "get_block ol j (2 * i + 1) = Inr (ol ! j ! (2 * i + 1))"
    using get_block_Inr [OF assms(1), of j] b assms(2) by simp_all
  moreover have nz: "ol ! j ! (2 * i) \<noteq> LargestFreeOrder 0" "ol ! j ! (2 * i + 1) \<noteq> LargestFreeOrder 0"
    using levels_okD(3) [OF assms(1), of j] b assms(2) by simp_all
  obtain p where p: "parent_state dbg (ol ! j ! (2 * i)) (ol ! j ! (2 * i + 1)) = Inr p"
    "bval p = pstate (bval (ol ! j ! (2 * i))) (bval (ol ! j ! (2 * i + 1)))" "p \<noteq> LargestFreeOrder 0"
    by (rule parent_state_bval [OF nz, of dbg]) (use assms(2,5) in simp_all)
  moreover have "set_block ol (Suc j) i p = Inr (ol[Suc j := (ol ! Suc j)[i := p]])"
    using set_block_Inr [OF assms(1), of "Suc j" i] assms(2,3) by simp
  ultimately show thesis using that assms(4) by (simp add: Let_def)
qed

lemma off_path_upper:
  "off_path k c j ol ol1 \<Longrightarrow> k \<le> j \<Longrightarrow> i = c div 2 ^ (Suc j - k) \<Longrightarrow> off_path k c (Suc j) ol (ol1[Suc j := (ol1 ! Suc j)[i := p]])"
  by (auto simp: off_path_def nth_set_block)

lemma update_orders_talloc:
  assumes ol: "levels_ok M ol" and k: "k \<le> j" "j \<le> 11" and i: "i < M * 2 ^ (11 - j)"
    and ok: "tree_ok N j i (tree_of ol j i)" and t: "talloc k j i (tree_of ol j i) = Some (c, t')"
  shows "\<exists>ol'. update_orders dbg [Suc k..<Suc j] c (ol[k := (ol ! k)[c := Used]]) = Inr ol' \<and> levels_ok M ol'
    \<and> tree_of ol' j i = t' \<and> off_path k c j ol ol'"
  using k i ok t
proof (induction j arbitrary: i t' rule: dec_induct)
  case base
  then have "k < 12" by simp
  have c: "c = i" "t' = (case tree_of ol k i of Tip s \<Rightarrow> Tip 0 | Bin s l r \<Rightarrow> Bin 0 l r)"
    using talloc_here [OF base(4)] by auto
  moreover have "off_path k c k ol (ol[k := (ol ! k)[c := Used]])" by (auto simp: off_path_def nth_set_block)
  ultimately show ?case
    using levels_ok_update [OF ol \<open>k < 12\<close>, of Used] tree_of_set_root [OF ol \<open>k < 12\<close> base(2), of Used]
    by (simp split: btree.split)
next
  case (step j)
  obtain i' t1 where c: "i' = c div 2 ^ (j - k)" "i' div 2 = i" "talloc k j i' (tree_of ol j i') = Some (c, t1)"
    "tree_ok N j i' (tree_of ol j i')"
    and t': "\<And>ol1. tree_of ol1 j i' = t1 \<Longrightarrow> off_path k c j ol ol1 \<Longrightarrow>
      t' = Bin (pstate (bval (ol1 ! j ! (2 * i))) (bval (ol1 ! j ! (2 * i + 1)))) (tree_of ol1 j (2 * i)) (tree_of ol1 j (2 * i + 1))
      \<and> bval (ol1 ! j ! (2 * i)) \<le> Suc j"
    by (rule talloc_level [OF step(7,1,6)]) blast
  have i': "i' < M * 2 ^ (11 - j)" using child_bound [of j i M] step(4,5) c(2) by simp
  obtain ol1 where ol1: "update_orders dbg [Suc k..<Suc j] c (ol[k := (ol ! k)[c := Used]]) = Inr ol1" "levels_ok M ol1"
    "tree_of ol1 j i' = t1" "off_path k c j ol ol1"
    using step(3) [OF _ i' c(4,3)] step(4) by (auto simp del: upt_Suc update_orders.simps)
  have bd: "j < 11" "bval (ol1 ! j ! (2 * i)) \<le> Suc j" using t' [OF ol1(3,4)] step(4) by simp_all
  obtain p where p: "update_orders dbg [Suc j] i' ol1 = Inr (ol1[Suc j := (ol1 ! Suc j)[i := p]])"
    "bval p = pstate (bval (ol1 ! j ! (2 * i))) (bval (ol1 ! j ! (2 * i + 1)))" "p \<noteq> LargestFreeOrder 0"
    by (rule update_level [OF ol1(2) bd(1) step(5) c(2) bd(2), of dbg]) blast
  have "update_orders dbg [Suc k..<Suc (Suc j)] c (ol[k := (ol ! k)[c := Used]]) = Inr (ol1[Suc j := (ol1 ! Suc j)[i := p]])"
  proof -
    have upt: "[Suc k..<Suc (Suc j)] = [Suc k..<Suc j] @ [Suc j]" using step(1) by simp
    show ?thesis
      using p(1) c(1) unfolding upt update_orders_append ol1(1) by (simp del: update_orders.simps upt_Suc)
  qed
  moreover have "tree_of (ol1[Suc j := (ol1 ! Suc j)[i := p]]) (Suc j) i = t'"
    using tree_of_set_root [OF ol1(2) _ step(5), of p] t' [OF ol1(3,4)] p(2) step(4) by simp
  moreover have "i = c div 2 ^ (Suc j - k)" using c(1,2) div_pow_Suc [OF step(1), of c] by simp
  ultimately show ?case
    using levels_ok_update [OF ol1(2) _ p(3), of "Suc j" i] off_path_upper [OF ol1(4) step(1)] step(4) by auto
qed

subsection \<open>The free frames of a zone\<close>

definition zone_free_frames :: "nat \<Rightarrow> Block list list \<Rightarrow> nat set" where
  "zone_free_frames M ol = (\<Union>i < M. fr 11 i (tree_of ol 11 i))"

definition forest_ok :: "nat \<Rightarrow> nat \<Rightarrow> Block list list \<Rightarrow> bool" where
  "forest_ok N M ol \<longleftrightarrow> levels_ok M ol \<and> (\<forall>i < M. tree_ok N 11 i (tree_of ol 11 i))"

lemma block_in_one_tree:
  assumes "k \<le> 11" "blk k c \<subseteq> zone_free_frames M ol"
  shows "c div 2 ^ (11 - k) < M" "blk k c \<subseteq> fr 11 (c div 2 ^ (11 - k)) (tree_of ol 11 (c div 2 ^ (11 - k)))"
proof -
  let ?i = "c div 2 ^ (11 - k)"
  have sub: "blk k c \<subseteq> blk 11 ?i" by (rule blk_nested [OF assms(1)])
  have own: "i < M \<and> i = ?i" if "x \<in> blk k c" "i < M" "x \<in> fr 11 i (tree_of ol 11 i)" for x i
  proof -
    have "x \<in> blk 11 ?i" "x \<in> blk 11 i" using that sub fr_sub by blast+
    then show ?thesis using that(2) by (simp add: blk_mem)
  qed
  show "?i < M" using blk_first [of c k] assms(2) own unfolding zone_free_frames_def by blast
  show "blk k c \<subseteq> fr 11 ?i (tree_of ol 11 ?i)" using assms(2) own unfolding zone_free_frames_def by blast
qed

lemma free_block_val:
  assumes "forest_ok N M ol" "k \<le> 11" "blk k c \<subseteq> zone_free_frames M ol"
  shows "c div 2 ^ (11 - k) < M \<and> k < bval (ol ! 11 ! (c div 2 ^ (11 - k)))"
proof -
  note in_tree = block_in_one_tree [OF assms(2,3)]
  then have "tree_ok N 11 (c div 2 ^ (11 - k)) (tree_of ol 11 (c div 2 ^ (11 - k)))"
    using assms(1) by (simp only: forest_ok_def)
  from val_complete [OF this assms(2) in_tree(2)] in_tree(1) show ?thesis by simp
qed

lemma no_free_block:
  assumes "forest_ok N M ol" "k \<le> 11" "\<And>i. i < M \<Longrightarrow> \<not> k < bval (ol ! 11 ! i)"
  shows "\<not> blk k c \<subseteq> zone_free_frames M ol"
  using free_block_val [OF assms(1,2)] assms(3) by blast

text \<open>Taking a block from one tree of the forest, when the trees before it have no block of the order.\<close>

lemma alloc_post_forest:
  assumes ok: "forest_ok N M ol" "k \<le> 11" "tp < M" "\<And>i. i < tp \<Longrightarrow> \<not> k < bval (ol ! 11 ! i)"
    and post: "alloc_post N k (fr 11 tp (tree_of ol 11 tp)) c (fr 11 tp (tree_of ol' 11 tp))"
    and c: "c div 2 ^ (11 - k) = tp"
    and other: "\<And>i. i \<noteq> tp \<Longrightarrow> tree_of ol' 11 i = tree_of ol 11 i"
  shows "alloc_post N k (zone_free_frames M ol) c (zone_free_frames M ol')"
proof -
  let ?R = "\<Union>i \<in> {..<M} - {tp}. fr 11 i (tree_of ol 11 i)"
  have sub: "blk k c \<subseteq> blk 11 tp" using blk_nested [OF ok(2), of c] c by simp
  have R: "?R \<inter> blk k c = {}" using sub fr_sub blk_disjoint [of _ tp 11] by blast
  have F: "zone_free_frames M ol = fr 11 tp (tree_of ol 11 tp) \<union> ?R"
    "zone_free_frames M ol' = fr 11 tp (tree_of ol' 11 tp) \<union> ?R"
  proof -
    have split: "(\<Union>i < M. f i) = f tp \<union> (\<Union>i \<in> {..<M} - {tp}. f i)" for f :: "nat \<Rightarrow> nat set"
      using ok(3) by blast
    have "(\<Union>i \<in> {..<M} - {tp}. fr 11 i (tree_of ol' 11 i)) = ?R" using other by simp
    then show "zone_free_frames M ol = fr 11 tp (tree_of ol 11 tp) \<union> ?R"
      "zone_free_frames M ol' = fr 11 tp (tree_of ol' 11 tp) \<union> ?R"
      unfolding zone_free_frames_def split by simp_all
  qed
  have "\<not> blk k c' \<subseteq> zone_free_frames M ol" if "c' < c" for c'
  proof
    assume free: "blk k c' \<subseteq> zone_free_frames M ol"
    let ?i = "c' div 2 ^ (11 - k)"
    have "?i \<le> tp" using that c div_le_mono by (metis less_imp_le_nat)
    moreover have "k < bval (ol ! 11 ! ?i)"
      using free_block_val [OF ok(1,2) free] by blast
    ultimately have "?i = tp" using ok(4) [of ?i] by linarith
    then show False using block_in_one_tree(2) [OF ok(2) free] post that by (metis alloc_post_def)
  qed
  moreover have "zone_free_frames M ol' \<subseteq> zone_free_frames M ol - blk k c"
    "zone_free_frames M ol' \<inter> {..<N} = zone_free_frames M ol \<inter> {..<N} - blk k c"
    using post R unfolding F alloc_post_def by blast+
  ultimately show ?thesis using post F by (auto simp: alloc_post_def)
qed

end
