(* ===== verification/Pmm_Alloc.thy ===== *)
theory Pmm_Alloc
  imports Pmm_Refine
begin

text \<open>
  \<^verbatim>\<open>Zone::alloc\<close> against its specification. A zone of \<open>N\<close> pages with \<open>M\<close> blocks of the top order offers the
  frames \<open>zone_free_frames\<close>; \<open>zone_alloc\<close> returns the lowest aligned block of the requested order among
  them, or \<^verbatim>\<open>None\<close> when there is none, and never reaches \<^verbatim>\<open>unreachable!\<close>.
\<close>

definition zone_ok :: "nat \<Rightarrow> Zone \<Rightarrow> bool" where
  "zone_ok M z \<longleftrightarrow> forest_ok (unat (zone_pages z)) M (order_list z)
     \<and> 4096 dvd unat (range_start (pages z)) \<and> unat (range_start (pages z)) + 4096 * (2048 * M) < 2 ^ 47"

lemma find_block_Some:
  assumes "find_block list order = Some tp"
  shows "tp < length list" "unat order < bval (list ! tp)" "\<And>i. i < tp \<Longrightarrow> \<not> unat order < bval (list ! i)"
proof -
  from assms obtain i where "i < length list" "larger_than (list ! i) order" "tp = i"
    "\<forall>j < i. \<not> larger_than (list ! j) order"
    unfolding find_block_def find_Some_iff by auto
  then show "tp < length list" "unat order < bval (list ! tp)" "\<And>i. i < tp \<Longrightarrow> \<not> unat order < bval (list ! i)"
    by (simp_all add: larger_than_bval)
qed

lemma find_block_None:
  "find_block list order = None \<Longrightarrow> i < length list \<Longrightarrow> \<not> unat order < bval (list ! i)"
  by (auto simp: find_block_def find_None_iff larger_than_bval)

lemma off_path_top:
  assumes "off_path k c 11 ol ol'" "k \<le> 11" "i \<noteq> c div 2 ^ (11 - k)"
  shows "tree_of ol' 11 i = tree_of ol 11 i"
  using assms by (rule off_path_sibling)

text \<open>The three steps of \<^verbatim>\<open>Zone::alloc\<close> that read and write the order lists.\<close>

lemma alloc_levels:
  assumes ok: "forest_ok N M ol" and k: "unat order \<le> 11" and find: "find_block (ol ! 11) order = Some tp"
  obtains c ol' where "descend order (rev [unat order..<11]) tp ol = Inr c"
    "set_block ol (unat order) c Used = Inr (ol[unat order := (ol ! unat order)[c := Used]])"
    "update_tree dbg order c (ol[unat order := (ol ! unat order)[c := Used]]) = Inr ol'"
    "forest_ok N M ol'" "alloc_post N (unat order) (zone_free_frames M ol) c (zone_free_frames M ol')"
    "c < M * 2 ^ (11 - unat order)"
proof -
  let ?k = "unat order"
  have lv: "levels_ok M ol" and trees: "\<And>i. i < M \<Longrightarrow> tree_ok N 11 i (tree_of ol 11 i)"
    using ok by (auto simp only: forest_ok_def)
  have tp: "tp < M" "?k < bval (ol ! 11 ! tp)" "\<And>i. i < tp \<Longrightarrow> \<not> ?k < bval (ol ! 11 ! i)"
    using find_block_Some [OF find] levels_okD(2) [OF lv, of 11] by simp_all
  obtain c t' where c: "talloc ?k 11 tp (tree_of ol 11 tp) = Some (c, t')" "step_ok N ?k 11 tp (tree_of ol 11 tp) c t'"
    using talloc_step_ok [OF trees [OF tp(1)] k] tp(2) by auto
  have ci: "c div 2 ^ (11 - ?k) = tp" using talloc_idx [OF c(1)] by blast
  have cM: "c < M * 2 ^ (11 - ?k)" using ci tp(1) by (metis less_mult_imp_div_less div_less_iff_less_mult zero_less_numeral zero_less_power)
  obtain ol' where ol': "update_orders dbg [Suc ?k..<Suc 11] c (ol[?k := (ol ! ?k)[c := Used]]) = Inr ol'"
    "levels_ok M ol'" "tree_of ol' 11 tp = t'" "off_path ?k c 11 ol ol'"
    using update_orders_talloc [OF lv k order_refl _ trees [OF tp(1)] c(1)] tp(1) by auto
  have u: "unat (order + 1) = Suc ?k" using k by (subst unat_add_no_wrap) simp_all
  have "update_tree dbg order c (ol[?k := (ol ! ?k)[c := Used]]) = Inr ol'"
    using ol'(1) k unfolding update_tree_def by (simp add: add_w_Inr u MAX_ORDER_def del: upt_Suc update_orders.simps)
  moreover have other: "tree_of ol' 11 i = tree_of ol 11 i" if "i \<noteq> tp" for i
    using off_path_top [OF ol'(4) k] that ci by simp
  have "forest_ok N M ol'"
    unfolding forest_ok_def using ol'(2,3) c(2) trees other by (metis step_ok_def)
  moreover have "alloc_post N ?k (zone_free_frames M ol) c (zone_free_frames M ol')"
    using alloc_post_forest [OF ok k tp(1,3) _ ci other] c(2) ol'(3) by (simp add: step_ok_def)
  moreover have "descend order (rev [?k..<11]) tp ol = Inr c"
    using descend_talloc [OF lv order_refl _ c(1)] tp(1) by simp
  moreover have "set_block ol ?k c Used = Inr (ol[?k := (ol ! ?k)[c := Used]])"
    using set_block_Inr [OF lv _ cM] k by simp
  ultimately show thesis using that cM by blast
qed

text \<open>The frames of block \<open>c\<close> of order \<open>k\<close> of a zone that starts at \<open>base\<close>.\<close>

definition block_range :: "phys_frame \<Rightarrow> nat \<Rightarrow> nat \<Rightarrow> phys_frame_range" where
  "block_range base k c =
     \<lparr>range_start = base + 4096 * (2 ^ k * of_nat c), range_end = base + 4096 * (2 ^ k * of_nat (c + 1))\<rparr>"

lemma unat_block_offset:
  fixes base :: phys_frame
  assumes "k \<le> 11" "c \<le> M * 2 ^ (11 - k)" "unat base + 4096 * (2048 * M) < 2 ^ 47"
  shows "unat (2 ^ k * of_nat c :: u64) = c * 2 ^ k" "unat (2 ^ k :: u64) * unat (of_nat c :: u64) = c * 2 ^ k"
    "unat base + 4096 * (c * 2 ^ k) < 2 ^ 47" "unat (base + 4096 * (2 ^ k * of_nat c)) = unat base + 4096 * (c * 2 ^ k)"
proof -
  have "c * 2 ^ k \<le> M * 2 ^ (11 - k) * 2 ^ k" using assms(2) by simp
  also have "\<dots> = 2048 * M" using assms(1) by (simp add: mult.assoc power_add [symmetric])
  finally have le: "c * 2 ^ k \<le> 2048 * M" .
  show lt: "unat base + 4096 * (c * 2 ^ k) < 2 ^ 47" using le assms(3) by linarith
  have "c \<le> c * 2 ^ k" by simp
  then have "c < 2 ^ 47" using lt by linarith
  then have "unat (of_nat c :: u64) = c" by (intro unat_of_nat_small) simp
  then show m: "unat (2 ^ k :: u64) * unat (of_nat c :: u64) = c * 2 ^ k"
    using assms(1) by (simp add: unat_pow2_u64)
  then show u: "unat (2 ^ k * of_nat c :: u64) = c * 2 ^ k" using lt by (subst unat_mult_no_wrap) simp_all
  have "unat (4096 * (2 ^ k * of_nat c) :: u64) = 4096 * (c * 2 ^ k)"
    using lt u by (subst unat_mult_no_wrap) simp_all
  then show "unat (base + 4096 * (2 ^ k * of_nat c)) = unat base + 4096 * (c * 2 ^ k)"
    using lt by (subst unat_add_no_wrap) simp_all
qed

lemma zone_alloc_Some:
  assumes X: "x86_64_laws X" and ok: "zone_ok M z" and k: "unat order \<le> 11"
    and find: "find_block (order_list z ! 11) order = Some tp"
  obtains c ol' where "zone_alloc X dbg order z
      = Inr (Some (block_range (range_start (pages z)) (unat order) c), z\<lparr>order_list := ol'\<rparr>,
          [Write_Bytes (range_start (block_range (range_start (pages z)) (unat order) c) + PHYS_OFFSET)
             (clear_byte dbg) (PAGE_SIZE * 2 ^ unat order)])"
    "zone_ok M (z\<lparr>order_list := ol'\<rparr>)" "c < M * 2 ^ (11 - unat order)"
    "alloc_post (unat (zone_pages z)) (unat order) (zone_free_frames M (order_list z)) c (zone_free_frames M ol')"
proof -
  let ?k = "unat order" and ?base = "range_start (pages z)"
  have forest: "forest_ok (unat (zone_pages z)) M (order_list z)" and base: "unat ?base + 4096 * (2048 * M) < 2 ^ 47"
    using ok by (auto simp only: zone_ok_def)
  obtain c ol' where c: "descend order (rev [?k..<11]) tp (order_list z) = Inr c"
    "set_block (order_list z) ?k c Used = Inr ((order_list z)[?k := (order_list z ! ?k)[c := Used]])"
    "update_tree dbg order c ((order_list z)[?k := (order_list z ! ?k)[c := Used]]) = Inr ol'"
    "forest_ok (unat (zone_pages z)) M ol'"
    "alloc_post (unat (zone_pages z)) ?k (zone_free_frames M (order_list z)) c (zone_free_frames M ol')"
    "c < M * 2 ^ (11 - ?k)"
    by (rule alloc_levels [OF forest k find, of dbg]) blast
  note off = unat_block_offset [OF k _ base, of c] unat_block_offset [OF k _ base, of "c + 1"]
  have le: "c \<le> M * 2 ^ (11 - ?k)" "c + 1 \<le> M * 2 ^ (11 - ?k)" using c(6) by simp_all
  have add: "frame_add X ?base (2 ^ ?k * of_nat c) = Inr (?base + 4096 * (2 ^ ?k * of_nat c))"
    "frame_add X ?base (2 ^ ?k * of_nat (c + 1)) = Inr (?base + 4096 * (2 ^ ?k * of_nat (c + 1)))"
    using off(1,3) [OF le(1)] off(5,7) [OF le(2)] by (intro frame_add_eq [OF X]; simp)+
  have mul: "mul_w dbg (2 ^ ?k) (of_nat c) = Inr (2 ^ ?k * of_nat c :: u64)"
    "mul_w dbg (2 ^ ?k) (of_nat (c + 1)) = Inr (2 ^ ?k * of_nat (c + 1) :: u64)"
    using off(2,3) [OF le(1)] off(6,7) [OF le(2)] by (intro mul_w_Inr; simp)+
  have "(2 :: nat) ^ ?k \<le> 2 ^ 11" using k by (intro power_increasing) simp_all
  then have len: "mul_w dbg PAGE_SIZE (2 ^ ?k) = Inr (PAGE_SIZE * 2 ^ ?k)"
    using k by (intro mul_w_Inr) (simp add: unat_pow2_u64)
  have virt: "phys_to_kernel_virt X dbg (?base + 4096 * (2 ^ ?k * of_nat c)) = Inr (?base + 4096 * (2 ^ ?k * of_nat c) + PHYS_OFFSET)"
    using off(3,4) [OF le(1)] by (intro phys_to_kernel_virt_eq(1) [OF X]) simp
  have len12: "length (order_list z) = 12" using forest by (simp add: forest_ok_def levels_ok_def)
  show thesis
  proof (rule that [of c ol'])
    show "zone_alloc X dbg order z
      = Inr (Some (block_range ?base ?k c), z\<lparr>order_list := ol'\<rparr>,
          [Write_Bytes (range_start (block_range ?base ?k c) + PHYS_OFFSET) (clear_byte dbg) (PAGE_SIZE * 2 ^ ?k)])"
      unfolding zone_alloc_def MAX_ORDER_def block_range_def
      using len12 find c(1-3) add mul len virt k by (simp del: of_nat_Suc)
    show "zone_ok M (z\<lparr>order_list := ol'\<rparr>)" using ok c(4) by (simp add: zone_ok_def)
  qed (use c in auto)
qed

lemma zone_alloc_None:
  assumes "zone_ok M z" "unat order \<le> 11" "find_block (order_list z ! 11) order = None"
  shows "zone_alloc X dbg order z = Inr (None, z, [])" "\<not> blk (unat order) c \<subseteq> zone_free_frames M (order_list z)"
proof -
  have forest: "forest_ok (unat (zone_pages z)) M (order_list z)" using assms(1) by (simp only: zone_ok_def)
  then have len: "length (order_list z) = 12" "length (order_list z ! 11) = M"
    using levels_okD(1,2) [of M "order_list z"] by (auto simp: forest_ok_def)
  show "zone_alloc X dbg order z = Inr (None, z, [])" using len assms(3) by (simp add: zone_alloc_def MAX_ORDER_def)
  show "\<not> blk (unat order) c \<subseteq> zone_free_frames M (order_list z)"
    using find_block_None [OF assms(3)] len(2) by (intro no_free_block [OF forest assms(2)]) simp
qed

lemma zone_alloc_large_order:
  assumes "zone_ok M z" "11 < unat order"
  shows "zone_alloc X dbg order z = Inr (None, z, [])"
proof -
  have forest: "forest_ok (unat (zone_pages z)) M (order_list z)" using assms(1) by (simp only: zone_ok_def)
  then have len: "length (order_list z) = 12" "length (order_list z ! 11) = M"
    using levels_okD(1,2) [of M "order_list z"] by (auto simp: forest_ok_def)
  have "bval (order_list z ! 11 ! i) \<le> 12" if "i < M" for i
    using tree_ok_val_le [of _ 11 i "tree_of (order_list z) 11 i"] forest that by (fastforce simp only: forest_ok_def val_tree_of)
  then have "find_block (order_list z ! 11) order = None"
    using assms(2) len(2) by (fastforce simp: find_block_def find_None_iff larger_than_bval)
  then show ?thesis using len(1) by (simp add: zone_alloc_def MAX_ORDER_def)
qed

text \<open>The physical addresses of a set of frames of a zone.\<close>

definition zone_bytes :: "Zone \<Rightarrow> nat set \<Rightarrow> nat set" where
  "zone_bytes z F = {x. unat (range_start (pages z)) \<le> x \<and> (x - unat (range_start (pages z))) div 4096 \<in> F}"

lemma zone_bytes_mono: "F \<subseteq> F' \<Longrightarrow> zone_bytes z F \<subseteq> zone_bytes z F'"
  by (auto simp: zone_bytes_def)

lemma block_range_bytes:
  assumes "zone_ok M z" "k \<le> 11" "c < M * 2 ^ (11 - k)"
  shows "range_bytes (block_range (range_start (pages z)) k c) = zone_bytes z (blk k c)"
proof -
  let ?b = "unat (range_start (pages z))"
  have base: "?b + 4096 * (2048 * M) < 2 ^ 47" using assms(1) by (simp only: zone_ok_def)
  have "range_bytes (block_range (range_start (pages z)) k c) = {?b + 4096 * (c * 2 ^ k) ..< ?b + 4096 * ((c + 1) * 2 ^ k)}"
    using unat_block_offset(4) [OF assms(2) _ base, of c] unat_block_offset(4) [OF assms(2) _ base, of "c + 1"] assms(3)
    by (simp add: range_bytes_def block_range_def del: of_nat_Suc)
  also have "\<dots> = zone_bytes z (blk k c)"
    by (auto simp: zone_bytes_def blk_def less_eq_div_iff_mult_less_eq div_less_iff_less_mult)
  finally show ?thesis .
qed

lemma zone_alloc_cases:
  assumes X: "x86_64_laws X" and ok: "zone_ok M z"
  obtains (none) "zone_alloc X dbg order z = Inr (None, z, [])"
  | (some) c ol' ev where "unat order \<le> 11" "c < M * 2 ^ (11 - unat order)"
      "zone_alloc X dbg order z = Inr (Some (block_range (range_start (pages z)) (unat order) c), z\<lparr>order_list := ol'\<rparr>, ev)"
      "zone_ok M (z\<lparr>order_list := ol'\<rparr>)"
      "alloc_post (unat (zone_pages z)) (unat order) (zone_free_frames M (order_list z)) c (zone_free_frames M ol')"
proof (cases "unat order \<le> 11")
  case True
  then show ?thesis
    using zone_alloc_None(1) [OF ok True] zone_alloc_Some [OF X ok True] that
    by (cases "find_block (order_list z ! 11) order") metis+
qed (use zone_alloc_large_order [OF ok] none in simp)

interpretation zone: total_range_allocator "zone_alloc X dbg" "\<lambda>z. x86_64_laws X \<and> zone_ok M z"
  "\<lambda>z. zone_bytes z (zone_free_frames M (order_list z))"
proof (unfold_locales, goal_cases)
  case (1 z order r z' ev)
  show ?case by (rule zone_alloc_cases [of X M z dbg order]) (use 1 in auto)
next
  case (2 z order z' ev)
  show ?case by (rule zone_alloc_cases [of X M z dbg order]) (use 2 in auto)
next
  case (3 z order rng z' ev)
  then have X: "x86_64_laws X" and ok: "zone_ok M z" by auto
  show ?case
  proof (rule zone_alloc_cases [OF X ok, of dbg order])
    fix c ol' ev'
    assume k: "unat order \<le> 11" "c < M * 2 ^ (11 - unat order)"
      and eq: "zone_alloc X dbg order z = Inr (Some (block_range (range_start (pages z)) (unat order) c), z\<lparr>order_list := ol'\<rparr>, ev')"
      and post: "alloc_post (unat (zone_pages z)) (unat order) (zone_free_frames M (order_list z)) c (zone_free_frames M ol')"
    have "range_bytes rng = zone_bytes z (blk (unat order) c)" "order_list z' = ol'" "pages z' = pages z"
      using eq 3(2) block_range_bytes [OF ok k] by auto
    with post show ?thesis by (auto simp: alloc_post_def zone_bytes_def)
  qed (use 3 in simp)
next
  case (4 z order)
  show ?case by (rule zone_alloc_cases [of X M z dbg order]) (use 4 in auto)
qed

end
