(* ===== verification/Pmm_New.thy ===== *)
theory Pmm_New
  imports Pmm_Alloc
begin

text \<open>
  \<^verbatim>\<open>Zone::new\<close>: the order lists it builds, that they satisfy the invariant of a zone, and which frames a new
  zone offers. \<open>N\<close> is the number of pages of the zone, \<open>M\<close> the number of blocks of the top order.
\<close>

definition max_order_blocks :: "nat \<Rightarrow> nat" where
  "max_order_blocks N = (N + 2047) div 2048"

definition ceil_div :: "nat \<Rightarrow> nat \<Rightarrow> nat" where
  "ceil_div N a = (N + 2 ^ a - 1) div 2 ^ a"

text \<open>The smallest order whose blocks are as large as the zone, 12 if there is none.\<close>

definition ceil_order :: "nat \<Rightarrow> nat" where
  "ceil_order N = length (takeWhile (\<lambda>k. 2 ^ k < N) [0..<12])"

definition new_block :: "nat \<Rightarrow> nat \<Rightarrow> nat \<Rightarrow> Block" where
  "new_block N a i = (if i * 2 ^ a < N then LargestFreeOrder (of_nat (min a (ceil_order N)) + 1) else Used)"

definition new_lists :: "nat \<Rightarrow> Block list list" where
  "new_lists N = map (\<lambda>a. map (new_block N a) [0..<max_order_blocks N * 2 ^ (11 - a)]) [0..<12]"

subsection \<open>Arithmetic\<close>

lemma less_ceil_div: "i < ceil_div N a \<longleftrightarrow> i * 2 ^ a < N"
proof -
  have "i < ceil_div N a \<longleftrightarrow> Suc i * 2 ^ a \<le> N + 2 ^ a - 1"
    unfolding ceil_div_def Suc_le_eq [symmetric] by (simp add: less_eq_div_iff_mult_less_eq)
  also have "\<dots> \<longleftrightarrow> i * 2 ^ a < N" by (cases "2 ^ a :: nat") auto
  finally show ?thesis .
qed

lemma ceil_div_0 [simp]: "ceil_div N 0 = N"
  by (simp add: ceil_div_def)

lemma ceil_div_Suc: "ceil_div N (Suc a) = ceil_div N a div 2 + (if ceil_div N a mod 2 = 0 then 0 else 1)"
proof -
  have "i < ceil_div N (Suc a) \<longleftrightarrow> i < ceil_div N a div 2 + (if ceil_div N a mod 2 = 0 then 0 else 1)" for i
  proof -
    have "i < ceil_div N (Suc a) \<longleftrightarrow> 2 * i < ceil_div N a" by (simp add: less_ceil_div mult.assoc mult.left_commute)
    also have "\<dots> \<longleftrightarrow> i < ceil_div N a div 2 + (if ceil_div N a mod 2 = 0 then 0 else 1)"
      by (simp split: if_split) presburger
    finally show ?thesis .
  qed
  then show ?thesis by (metis linorder_neqE_nat nat_less_le)
qed

lemma ceil_order_le: "ceil_order N \<le> 12"
  unfolding ceil_order_def by (metis diff_zero length_takeWhile_le length_upt)

lemma ceil_order_less: "k < ceil_order N \<Longrightarrow> 2 ^ k < N"
  unfolding ceil_order_def
  by (frule nth_mem, drule set_takeWhileD)
     (metis add_0 diff_zero length_takeWhile_le length_upt nth_upt order_less_le_trans takeWhile_nth)

lemma ceil_order_ge: "ceil_order N < 12 \<Longrightarrow> N \<le> 2 ^ ceil_order N"
  unfolding ceil_order_def using nth_length_takeWhile [of "\<lambda>k. 2 ^ k < N" "[0..<12]"] by auto

lemma ceil_order_bound: "ceil_order N \<le> j \<Longrightarrow> j \<le> 11 \<Longrightarrow> N \<le> 2 ^ j"
  using order_trans [OF ceil_order_ge power_increasing [of "ceil_order N" j "2 :: nat"]] by simp

lemma max_order_blocks_gt: "i < max_order_blocks N \<longleftrightarrow> i * 2048 < N"
  using less_ceil_div [of i N 11] by (simp add: max_order_blocks_def ceil_div_def add.commute)

lemma max_order_blocks_le: "2048 * max_order_blocks N < N + 2048"
  using max_order_blocks_gt [of "max_order_blocks N - 1" N] by (cases "max_order_blocks N") auto

subsection \<open>The invariant holds in a new zone\<close>

lemma of_nat_u8: "k \<le> 12 \<Longrightarrow> unat (of_nat k + 1 :: u8) = Suc k" "k \<le> 12 \<Longrightarrow> (of_nat k + 1 :: u8) \<noteq> 0"
proof -
  assume k: "k \<le> 12"
  have "unat (of_nat (Suc k) :: u8) = Suc k" using k by (intro unat_of_nat_small) simp
  then show u: "unat (of_nat k + 1 :: u8) = Suc k" by (simp add: add.commute)
  show "(of_nat k + 1 :: u8) \<noteq> 0" using u by (metis nat.distinct(1) unat_0)
qed

lemma bval_new_block: "bval (new_block N a i) = (if i * 2 ^ a < N then Suc (min a (ceil_order N)) else 0)"
  using of_nat_u8(1) [of "min a (ceil_order N)"] ceil_order_le [of N] by (simp add: new_block_def)

lemma new_lists_nth:
  "a < 12 \<Longrightarrow> i < max_order_blocks N * 2 ^ (11 - a) \<Longrightarrow> new_lists N ! a ! i = new_block N a i"
  by (simp add: new_lists_def)

lemma new_lists_levels: "levels_ok (max_order_blocks N) (new_lists N)"
  using of_nat_u8(2) ceil_order_le [of N] by (auto simp: levels_ok_def new_lists_def new_block_def)

text \<open>The trees of a new zone, without the bounds of the lists.\<close>

primrec new_tree :: "nat \<Rightarrow> nat \<Rightarrow> nat \<Rightarrow> btree" where
  "new_tree N 0 i = Tip (bval (new_block N 0 i))"
| "new_tree N (Suc j) i = Bin (bval (new_block N (Suc j) i)) (new_tree N j (2 * i)) (new_tree N j (2 * i + 1))"

lemma tree_of_new_lists: "j \<le> 11 \<Longrightarrow> i < max_order_blocks N * 2 ^ (11 - j) \<Longrightarrow> tree_of (new_lists N) j i = new_tree N j i"
proof (induction j arbitrary: i)
  case (Suc j)
  then have "2 * i + 1 < max_order_blocks N * 2 ^ (11 - j)" using child_bound [of j i] by simp
  with Suc show ?case by (simp add: new_lists_nth)
qed (simp add: new_lists_nth)

lemma val_new_tree [simp]: "val (new_tree N j i) = bval (new_block N j i)"
  by (cases j) simp_all

lemma new_tree_ok: "0 < N \<Longrightarrow> j \<le> 11 \<Longrightarrow> tree_ok N j i (new_tree N j i)"
proof (induction j arbitrary: i)
  case (Suc j)
  then have IH: "tree_ok N j (2 * i) (new_tree N j (2 * i))" "tree_ok N j (2 * i + 1) (new_tree N j (2 * i + 1))"
    by simp_all
  show ?case
  proof (cases "i * 2 ^ Suc j < N \<and> ceil_order N \<le> j")
    case True
    have "N \<le> 2 ^ j" using True ceil_order_bound Suc.prems(2) by simp
    then have "i = 0" using True by (cases i) auto
    then show ?thesis using IH True \<open>N \<le> 2 ^ j\<close> Suc.prems above_Used [OF IH(2)]
      by (auto simp: bval_new_block split_node_def)
  next
    case False
    then show ?thesis using IH by (auto simp: bval_new_block full_node_def mult.assoc mult.left_commute)
  qed
qed (simp add: bval_new_block)

lemma new_lists_forest: "0 < N \<Longrightarrow> forest_ok N (max_order_blocks N) (new_lists N)"
  using new_lists_levels new_tree_ok [of N 11] tree_of_new_lists [of 11 _ N] by (simp add: forest_ok_def)

text \<open>
  The frames a new zone offers: up to the next power of two for a zone of at most \<^verbatim>\<open>MAX_ORDER_PAGES\<close>, up to
  the next multiple of \<^verbatim>\<open>MAX_ORDER_PAGES\<close> for a larger one.
\<close>

definition new_extent :: "nat \<Rightarrow> nat" where
  "new_extent N = (if N \<le> 2048 then 2 ^ ceil_order N else 2048 * max_order_blocks N)"

lemma ceil_order_pow: "k \<le> 11 \<Longrightarrow> ceil_order (2 ^ k) = k"
  using ceil_order_bound [of "2 ^ k" "ceil_order (2 ^ k)"] ceil_order_less [of k "2 ^ k"] ceil_order_less [of 11 "2 ^ k"]
  by (cases "ceil_order (2 ^ k)" k rule: linorder_cases) (auto simp: not_le)

lemma ceil_order_eq:
  assumes "N < 2 ^ k" "2 ^ k < 2 * N" "k \<le> 11"
  shows "ceil_order N = k"
proof (rule antisym)
  show "ceil_order N \<le> k" using ceil_order_less [of k N] assms(1) by (meson less_imp_not_less not_le)
  show "k \<le> ceil_order N"
  proof (rule ccontr)
    assume "\<not> k \<le> ceil_order N"
    then have "N \<le> 2 ^ (k - 1)" "0 < k" using ceil_order_bound [of N "k - 1"] assms(3) by auto
    then have "2 * N \<le> 2 ^ k" by (cases k) auto
    then show False using assms(2) by simp
  qed
qed

lemma new_extent_ge: "0 < N \<Longrightarrow> N \<le> new_extent N"
  using ceil_order_bound [of N "ceil_order N"] ceil_order_less [of 11 N] max_order_blocks_gt [of "max_order_blocks N" N]
  by (cases "ceil_order N \<le> 11") (auto simp: new_extent_def)

lemma new_extent_exact:
  assumes "0 < N" "(\<exists>k \<le> 11. N = 2 ^ k) \<or> 2048 dvd N"
  shows "new_extent N = N"
  using assms(2)
proof (elim disjE exE conjE)
  fix k :: nat
  assume "k \<le> 11" "N = 2 ^ k"
  then show ?thesis using power_increasing [of k 11 "2 :: nat"] by (simp add: new_extent_def ceil_order_pow)
next
  assume "2048 dvd N"
  then obtain q where "N = 2048 * q" by auto
  then show ?thesis using assms(1) ceil_order_pow [of 11] by (cases "q = 1") (auto simp: new_extent_def max_order_blocks_def)
qed

lemma blk_0: "blk k 0 = {..<2 ^ k}"
  by (auto simp: blk_def)

lemma fr_new_tree_small: "0 < N \<Longrightarrow> ceil_order N \<le> j \<Longrightarrow> j \<le> 11 \<Longrightarrow> fr j 0 (new_tree N j 0) = {..<2 ^ ceil_order N}"
proof (induction j)
  case 0
  then show ?case by (simp add: bval_new_block blk_0)
next
  case (Suc j)
  show ?case
  proof (cases "ceil_order N = Suc j")
    case True
    then show ?thesis using Suc.prems by (simp add: bval_new_block blk_0)
  next
    case False
    then have "N \<le> 2 ^ j" using ceil_order_bound Suc.prems by simp
    then have "fr j 1 (new_tree N j 1) = {}" by (intro fr_Used) (simp add: bval_new_block)
    then show ?thesis using Suc False by (simp add: bval_new_block)
  qed
qed

lemma new_lists_frames:
  assumes "0 < N"
  shows "zone_free_frames (max_order_blocks N) (new_lists N) = {..<new_extent N}"
proof (cases "ceil_order N \<le> 11")
  case True
  then have "N \<le> 2048" using ceil_order_bound [of N 11] by simp
  then have M: "max_order_blocks N = 1" using assms by (simp add: max_order_blocks_def)
  then show ?thesis
    using fr_new_tree_small [OF assms True order_refl] \<open>N \<le> 2048\<close> tree_of_new_lists [of 11 0 N]
    by (simp add: zone_free_frames_def new_extent_def lessThan_Suc)
next
  case False
  then have big: "2048 < N" using ceil_order_less [of 11 N] by simp
  have "fr 11 i (tree_of (new_lists N) 11 i) = blk 11 i" if "i < max_order_blocks N" for i
    using that tree_of_new_lists [of 11 i N] False max_order_blocks_gt [of i N] new_tree_ok [OF assms order_refl, of i]
    by (intro fr_full [of N]) (simp_all add: bval_new_block min_def)
  then have "zone_free_frames (max_order_blocks N) (new_lists N) = (\<Union>i < max_order_blocks N. blk 11 i)"
    by (simp add: zone_free_frames_def)
  also have "\<dots> = {..<2048 * max_order_blocks N}"
    by (auto simp: blk_mem div_less_iff_less_mult mult.commute)
  finally show ?thesis using big by (simp add: new_extent_def)
qed

subsection \<open>\<^verbatim>\<open>Zone::new\<close> builds these lists\<close>

lemma split_layers_Inr:
  assumes "unat mob * 4096 < 2 ^ 64" "n \<le> 12"
  shows "split_layers dbg mob [12 - n..<12] (replicate (unat mob * (4096 - 2 ^ (12 - n))) Used) tmp
    = Inr (rev (map (\<lambda>k. replicate (unat mob * 2 ^ k) Used) [12 - n..<12]) @ tmp)"
  using assms(2)
proof (induction n arbitrary: tmp)
  case (Suc n)
  define k where "k = 12 - Suc n"
  have k: "12 - n = Suc k" "k < 12" using Suc.prems by (simp_all add: k_def)
  have pow: "(2 :: nat) ^ Suc k \<le> 2 ^ 12" using k(2) by (intro power_increasing) simp_all
  have "unat mob * 2 ^ k \<le> unat mob * 4096" using pow by (intro mult_left_mono) simp_all
  then have p: "unat mob * 2 ^ k < 2 ^ 64" using assms(1) by (rule le_less_trans)
  have layer: "unat (mob * 2 ^ k) = unat mob * 2 ^ k"
    using p k(2) unat_pow2_u64 [of k] by (subst unat_mult_no_wrap) simp_all
  have "(4096 - 2 ^ k :: nat) = 2 ^ k + (4096 - 2 ^ Suc k)" using pow by simp
  then have len: "unat mob * (4096 - 2 ^ k) = unat mob * 2 ^ k + unat mob * (4096 - 2 ^ Suc k)"
    by (simp only: distrib_left)
  have "mul_w dbg mob (2 ^ k) = Inr (mob * 2 ^ k)"
    using p k(2) unat_pow2_u64 [of k] by (intro mul_w_Inr) simp
  with Suc.IH [of "replicate (unat mob * 2 ^ k) Used # tmp"] Suc.prems k layer
  show ?case unfolding k_def [symmetric] by (simp add: upt_conv_Cons len replicate_add)
qed simp

lemma fill_orders_Inr:
  assumes "N < 2 ^ 64" "n \<le> 12"
  shows "fill_orders dbg (12 - n) (of_nat (ceil_div N (12 - n))) (map f [12 - n..<12])
    = Inr (map (\<lambda>a. map (\<lambda>_. LargestFreeOrder (of_nat a + 1)) (take (ceil_div N a) (f a)) @ drop (ceil_div N a) (f a)) [12 - n..<12])"
  using assms(2)
proof (induction n)
  case (Suc n)
  define a where "a = 12 - Suc n"
  have a: "12 - n = Suc a" "a < 12" using Suc.prems by (simp_all add: a_def)
  have "\<not> N < ceil_div N a" unfolding less_ceil_div by simp
  then have c: "unat (of_nat (ceil_div N a) :: u64) = ceil_div N a" using assms(1) by (intro unat_of_nat_small) simp
  have step: "(of_nat (ceil_div N a) :: u64) div 2 + (if (of_nat (ceil_div N a) :: u64) mod 2 = 0 then 0 else 1)
      = of_nat (ceil_div N (Suc a))"
  proof -
    have "(of_nat (ceil_div N a) :: u64) div 2 = of_nat (ceil_div N a div 2)"
      by (subst word_arith_nat_div) (simp add: c)
    moreover have "(of_nat (ceil_div N a) :: u64) mod 2 = 0 \<longleftrightarrow> ceil_div N a mod 2 = 0"
      using unat_mod_distrib [of "of_nat (ceil_div N a) :: u64" 2] by (simp add: c word_unat_eq_iff)
    ultimately show ?thesis by (simp add: ceil_div_Suc)
  qed
  have "unat (of_nat a :: u8) = a" using a(2) by (intro unat_of_nat_small) simp
  then have "from_order dbg (of_nat a) = Inr (LargestFreeOrder (of_nat a + 1))"
    using a(2) by (simp add: from_order_def add_w_Inr)
  with Suc.IH Suc.prems a c step show ?case unfolding a_def [symmetric] by (simp add: upt_conv_Cons Let_def)
qed simp

lemma set_firsts_Inr:
  "L \<le> 12 \<Longrightarrow> list_all (\<lambda>list. list \<noteq> []) ls \<Longrightarrow>
   set_firsts dbg (of_nat L) ls = Inr (map (\<lambda>list. list[0 := LargestFreeOrder (of_nat L + 1)]) ls)"
proof (induction ls)
  case (Cons list ls)
  have "unat (of_nat L :: u8) = L" using Cons.prems(1) by (intro unat_of_nat_small) simp
  then have "from_order dbg (of_nat L) = Inr (LargestFreeOrder (of_nat L + 1))"
    using Cons.prems(1) by (simp add: from_order_def add_w_Inr)
  with Cons show ?case by simp
qed simp

lemma next_power_of_two_order:
  assumes "0 < N" "N < 2 ^ 62"
  shows "\<exists>np. next_power_of_two dbg (of_nat N) = Inr np \<and> min (trailing_zeros np) 12 = ceil_order N"
proof -
  obtain k where le: "N \<le> 2 ^ k" and least: "\<And>j. j < k \<Longrightarrow> \<not> N \<le> 2 ^ j"
    using exists_least_iff [of "\<lambda>k. N \<le> 2 ^ k"] less_imp_le [OF less_exp [of N]] by blast
  have k62: "k \<le> 62" using least [of 62] assms(2) by (meson less_imp_le not_less)
  have lt: "2 ^ k < 2 * N"
  proof (cases k)
    case (Suc j)
    with least [of j] show ?thesis by simp
  qed (use assms(1) in simp)
  have u: "unat (of_nat N :: u64) = N" using assms(2) by (intro unat_of_nat_small) simp
  have "next_power_of_two dbg (of_nat N) = Inr (2 ^ k)"
    using next_power_of_two_Inr [of "of_nat N" k dbg, unfolded u] assms(1) lt le k62 by linarith
  moreover have "trailing_zeros (2 ^ k) = k" using k62 by (intro trailing_zeros_pow2) simp
  moreover have "min k 12 = ceil_order N"
  proof (cases "ceil_order N < 12")
    case True
    then have "k \<le> ceil_order N" using least [of "ceil_order N"] ceil_order_ge by (meson not_less)
    moreover have "\<not> k < ceil_order N" using ceil_order_less [of k N] le by auto
    ultimately show ?thesis using True by simp
  next
    case False
    then have "ceil_order N = 12" using ceil_order_le [of N] by simp
    moreover have "\<not> k < 12" using ceil_order_less [of k N] le calculation by auto
    ultimately show ?thesis by simp
  qed
  ultimately show ?thesis by auto
qed

text \<open>The lists after both loops of \<^verbatim>\<open>Zone::new\<close> are \<open>new_lists\<close>.\<close>

lemma new_lists_alt:
  assumes "0 < N"
  defines "g \<equiv> \<lambda>a. map (\<lambda>_. LargestFreeOrder (of_nat a + 1)) (take (ceil_div N a) (replicate (max_order_blocks N * 2 ^ (11 - a)) Used))
    @ drop (ceil_div N a) (replicate (max_order_blocks N * 2 ^ (11 - a)) Used)"
  shows "map g [0..<ceil_order N] @ map (\<lambda>list. list[0 := LargestFreeOrder (of_nat (ceil_order N) + 1)]) (map g [ceil_order N..<12])
    = new_lists N"
proof -
  have g: "g a = map (\<lambda>i. if i < ceil_div N a then LargestFreeOrder (of_nat a + 1) else Used) [0..<max_order_blocks N * 2 ^ (11 - a)]"
    for a by (auto simp: g_def list_eq_iff_nth_eq nth_append)
  have low: "g a = map (new_block N a) [0..<max_order_blocks N * 2 ^ (11 - a)]" if "a < ceil_order N" for a
    using that by (auto simp: g less_ceil_div new_block_def)
  have high: "(g a)[0 := LargestFreeOrder (of_nat (ceil_order N) + 1)] = map (new_block N a) [0..<max_order_blocks N * 2 ^ (11 - a)]"
    if "ceil_order N \<le> a" "a < 12" for a
  proof -
    have "N \<le> 2 ^ a" using ceil_order_bound that by simp
    then have "i * 2 ^ a < N \<longleftrightarrow> i = 0" for i using assms(1) by (cases i) auto
    then show ?thesis using that(1)
      by (auto simp: g less_ceil_div new_block_def list_eq_iff_nth_eq nth_list_update min_def)
  qed
  have split: "[0..<12] = [0..<ceil_order N] @ [ceil_order N..<12]"
    using ceil_order_le [of N] upt_add_eq_append [of 0 "ceil_order N" "12 - ceil_order N"] by simp
  show ?thesis
    unfolding new_lists_def split map_append map_map
    by (intro arg_cong2 [where f = append] map_cong refl) (simp_all add: low high)
qed

lemma MAX_ORDER_PAGES_pow: "MAX_ORDER_PAGES = 2 ^ 11" "unat MAX_ORDER_PAGES = 2048"
  by (simp_all add: MAX_ORDER_PAGES_def push_bit_eq_mult)

lemma max_order_blocks_bound: "N \<le> 2048 * max_order_blocks N"
  using max_order_blocks_gt [of "max_order_blocks N" N] by simp

text \<open>The computation both \<^verbatim>\<open>split_region\<close> and \<^verbatim>\<open>blocks_in_region\<close> start with.\<close>

lemma align_up_blocks:
  assumes "x86_64_laws X" "unat n < 2 ^ 52"
  shows "\<exists>a. align_up X n MAX_ORDER_PAGES = Inr a \<and> unat (a div MAX_ORDER_PAGES) = max_order_blocks (unat n)"
proof -
  have up: "round_up (unat n) (2 ^ 11) = 2048 * max_order_blocks (unat n)"
    by (simp add: round_up_def max_order_blocks_def)
  have lt: "2048 * max_order_blocks (unat n) < 2 ^ 64" using max_order_blocks_le [of "unat n"] assms(2) by simp
  then have "align_up X n MAX_ORDER_PAGES = Inr (of_nat (2048 * max_order_blocks (unat n)))"
    using align_up_eq [OF assms(1), of 11 n] up by (simp add: MAX_ORDER_PAGES_pow(1))
  moreover have "unat (of_nat (2048 * max_order_blocks (unat n)) div MAX_ORDER_PAGES :: u64) = max_order_blocks (unat n)"
  proof -
    have u: "unat (of_nat (2048 * max_order_blocks (unat n)) :: u64) = 2048 * max_order_blocks (unat n)"
      using lt by (intro unat_of_nat_small) simp
    show ?thesis unfolding unat_div_distrib MAX_ORDER_PAGES_pow(2) u by simp
  qed
  ultimately show ?thesis by blast
qed

lemma split_region_Inr:
  assumes "x86_64_laws X" "unat n < 2 ^ 52"
  shows "split_region X dbg n (replicate (max_order_blocks (unat n) * 4095) Used)
    = Inr (map (\<lambda>a. replicate (max_order_blocks (unat n) * 2 ^ (11 - a)) Used) [0..<12])"
proof -
  obtain a where a: "align_up X n MAX_ORDER_PAGES = Inr a" "unat (a div MAX_ORDER_PAGES) = max_order_blocks (unat n)"
    using align_up_blocks [OF assms] by blast
  have "max_order_blocks (unat n) * 4096 < 2 ^ 64" using max_order_blocks_le [of "unat n"] assms(2) by simp
  then have "split_layers dbg (a div MAX_ORDER_PAGES) [0..<12] (replicate (max_order_blocks (unat n) * 4095) Used) []
    = Inr (rev (map (\<lambda>k. replicate (max_order_blocks (unat n) * 2 ^ k) Used) [0..<12]))"
    using split_layers_Inr [of "a div MAX_ORDER_PAGES" 12 dbg "[]"] a(2) by simp
  moreover have "rev (map f [0..<12]) = map (\<lambda>a. f (11 - a)) [0..<12]" for f :: "nat \<Rightarrow> Block list"
    by (rule nth_equalityI) (simp_all add: rev_nth)
  ultimately show ?thesis unfolding split_region_def by (simp add: a(1) MAX_ORDER_def)
qed

lemma zone_new_Inr:
  assumes X: "x86_64_laws X" and N: "unat len div 4096 = N" "0 < N"
    and addr: "4096 dvd unat addr" "unat addr + 4096 * (2048 * max_order_blocks N) < 2 ^ 47"
  shows "zone_new X dbg addr len (replicate (max_order_blocks N * 4095) Used)
    = Inr \<lparr>pages = \<lparr>range_start = addr, range_end = addr + 4096 * of_nat N\<rparr>, zone_pages = of_nat N, order_list = new_lists N\<rparr>"
proof -
  have lt: "N < 2 ^ 47" using addr(2) max_order_blocks_bound [of N] by linarith
  have n: "unat (len div PAGE_SIZE) = N" using N(1) by (simp add: unat_div_distrib)
  have of_N: "len div PAGE_SIZE = of_nat N" unfolding n [symmetric] by simp
  let ?M = "max_order_blocks N" and ?L = "ceil_order N"
  define f :: "nat \<Rightarrow> Block list" where "f = (\<lambda>a. replicate (?M * 2 ^ (11 - a)) Used)"
  define g where "g = (\<lambda>a. map (\<lambda>_. LargestFreeOrder (of_nat a + 1)) (take (ceil_div N a) (f a)) @ drop (ceil_div N a) (f a))"
  have split: "split_region X dbg (of_nat N) (replicate (?M * 4095) Used) = Inr (map f [0..<12])"
    using split_region_Inr [OF X, of "len div PAGE_SIZE" dbg] lt n by (simp add: of_N f_def)
  have fill: "fill_orders dbg 0 (of_nat N) (map f [0..<12]) = Inr (map g [0..<12])"
    using fill_orders_Inr [of N 12 dbg f] lt by (simp add: g_def del: upt_Suc)
  obtain np where np: "next_power_of_two dbg (of_nat N) = Inr np" "min (trailing_zeros np) 12 = ?L"
    using next_power_of_two_order [of N dbg] N(2) lt by auto
  have "0 < ?M" using max_order_blocks_gt [of 0 N] N(2) by simp
  then have "list_all (\<lambda>list. list \<noteq> []) (map g [?L..<12])" by (auto simp: g_def f_def list_all_iff)
  then have firsts: "set_firsts dbg (of_nat ?L) (drop ?L (map g [0..<12]))
      = Inr (map (\<lambda>list. list[0 := LargestFreeOrder (of_nat ?L + 1)]) (map g [?L..<12]))"
    using set_firsts_Inr [OF ceil_order_le] by (simp add: drop_map)
  have "frame_add X addr (of_nat N) = Inr (addr + 4096 * of_nat N)"
    using frame_add_eq [OF X, of addr "len div PAGE_SIZE"] addr(2) n max_order_blocks_bound [of N] by (simp add: of_N)
  moreover have "containing_address X addr = addr" using containing_address_aligned [OF X addr(1)] .
  moreover have "take ?L (map g [0..<12]) = map g [0..<?L]" using ceil_order_le [of N] by (simp add: take_map)
  ultimately show ?thesis
    unfolding zone_new_def of_N Let_def split fill bind_res_Inr np firsts MAX_ORDER_def
    using new_lists_alt [OF N(2)] np(2) firsts by (simp add: g_def f_def)
qed

subsection \<open>Properties of a zone\<close>

text \<open>A zone as \<^verbatim>\<open>Zone::new\<close> builds it for \<open>N\<close> pages at address \<open>addr\<close>.\<close>

definition new_zone :: "phys_addr \<Rightarrow> nat \<Rightarrow> Zone" where
  "new_zone addr N = \<lparr>pages = \<lparr>range_start = addr, range_end = addr + 4096 * of_nat N\<rparr>, zone_pages = of_nat N,
     order_list = new_lists N\<rparr>"

definition zone_place_ok :: "phys_addr \<Rightarrow> nat \<Rightarrow> bool" where
  "zone_place_ok addr N \<longleftrightarrow> 0 < N \<and> 4096 dvd unat addr \<and> unat addr + 4096 * (2048 * max_order_blocks N) < 2 ^ 47"

lemma new_zone_ok:
  assumes "zone_place_ok addr N"
  shows "zone_ok (max_order_blocks N) (new_zone addr N)" "unat (zone_pages (new_zone addr N)) = N"
    "unat (range_end (pages (new_zone addr N))) = unat addr + 4096 * N"
proof -
  have lt: "unat addr + 4096 * N < 2 ^ 47"
    using assms max_order_blocks_bound [of N] unfolding zone_place_ok_def by linarith
  have u: "unat (of_nat N :: u64) = N" using lt by (intro unat_of_nat_small) simp
  then show "unat (zone_pages (new_zone addr N)) = N" by (simp add: new_zone_def)
  with assms show "zone_ok (max_order_blocks N) (new_zone addr N)"
    using new_lists_forest [of N] by (simp add: zone_ok_def new_zone_def zone_place_ok_def)
  have "unat (4096 * of_nat N :: u64) = 4096 * N" using lt u by (subst unat_mult_no_wrap) simp_all
  then show "unat (range_end (pages (new_zone addr N))) = unat addr + 4096 * N"
    using lt by (simp add: new_zone_def unat_add_no_wrap)
qed

lemma new_zone_alloc_returns:
  assumes "x86_64_laws X" "zone_ok M z" "blk (unat order) c \<subseteq> zone_free_frames M (order_list z)" "unat order \<le> 11"
  shows "\<exists>rng z' ev. zone_alloc X dbg order z = Inr (Some rng, z', ev)
    \<and> (c = 0 \<longrightarrow> rng = block_range (range_start (pages z)) (unat order) 0)"
proof (cases "find_block (order_list z ! 11) order")
  case None
  then show ?thesis using zone_alloc_None(2) [OF assms(2,4)] assms(3) by blast
next
  case (Some tp)
  obtain c' ol' where a: "zone_alloc X dbg order z
      = Inr (Some (block_range (range_start (pages z)) (unat order) c'), z\<lparr>order_list := ol'\<rparr>,
          [Write_Bytes (range_start (block_range (range_start (pages z)) (unat order) c') + PHYS_OFFSET)
             (clear_byte dbg) (PAGE_SIZE * 2 ^ unat order)])"
    "alloc_post (unat (zone_pages z)) (unat order) (zone_free_frames M (order_list z)) c' (zone_free_frames M ol')"
    by (rule zone_alloc_Some [OF assms(1,2,4) Some, of dbg]) blast
  have "c = 0 \<Longrightarrow> c' = 0" using a(2) assms(3) by (auto simp: alloc_post_def)
  then show ?thesis using a(1) by auto
qed

lemma sample_zone_ok: "zone_place_ok 0x1000 4" "zone_place_ok 0x1000 3"
  by (simp_all add: zone_place_ok_def max_order_blocks_def)

lemma ceil_order_samples: "ceil_order 3 = 2" "ceil_order 4 = 2"
  by (simp_all add: ceil_order_def upt_rec)

text \<open>
  Claim C3 (\<^verbatim>\<open>Zone::alloc\<close> refines first fit). In a well-formed zone a request of order at most \<^verbatim>\<open>MAX_ORDER\<close>
  never panics (in particular never reaches \<^verbatim>\<open>unreachable!\<close>). If some aligned block of that order consists
  of free frames, the call returns the lowest one, which starts inside the zone, clears exactly its
  pages, and removes exactly its frames from the free frames of the zone (frames beyond the end of the
  zone may disappear with it). Otherwise it returns \<^verbatim>\<open>None\<close> and changes nothing. The zone stays well-formed.
\<close>

theorem zone_alloc_first_fit:
  assumes "x86_64_laws X" "zone_ok M z" "unat order \<le> MAX_ORDER"
  shows "if \<exists>c. blk (unat order) c \<subseteq> zone_free_frames M (order_list z)
    then \<exists>c z' rng. zone_alloc X dbg order z
        = Inr (Some rng, z', [Write_Bytes (range_start rng + PHYS_OFFSET) (clear_byte dbg) (PAGE_SIZE * 2 ^ unat order)])
      \<and> unat (range_start rng) = unat (range_start (pages z)) + 4096 * (c * 2 ^ unat order)
      \<and> unat (range_end rng) = unat (range_start (pages z)) + 4096 * ((c + 1) * 2 ^ unat order)
      \<and> alloc_post (unat (zone_pages z)) (unat order) (zone_free_frames M (order_list z)) c (zone_free_frames M (order_list z'))
      \<and> zone_ok M z' \<and> pages z' = pages z \<and> zone_pages z' = zone_pages z
    else zone_alloc X dbg order z = Inr (None, z, [])"
proof (cases "find_block (order_list z ! 11) order")
  case None
  then show ?thesis using zone_alloc_None [OF assms(2)] assms(3) by (simp add: MAX_ORDER_def)
next
  case (Some tp)
  have k: "unat order \<le> 11" using assms(3) by (simp add: MAX_ORDER_def)
  let ?base = "range_start (pages z)"
  obtain c ol' where alloc: "zone_alloc X dbg order z
      = Inr (Some (block_range ?base (unat order) c), z\<lparr>order_list := ol'\<rparr>,
          [Write_Bytes (range_start (block_range ?base (unat order) c) + PHYS_OFFSET)
             (clear_byte dbg) (PAGE_SIZE * 2 ^ unat order)])"
    and c: "zone_ok M (z\<lparr>order_list := ol'\<rparr>)" "c < M * 2 ^ (11 - unat order)"
      "alloc_post (unat (zone_pages z)) (unat order) (zone_free_frames M (order_list z)) c (zone_free_frames M ol')"
    by (rule zone_alloc_Some [OF assms(1,2) k Some, of dbg]) blast
  have base: "unat ?base + 4096 * (2048 * M) < 2 ^ 47" using assms(2) by (simp only: zone_ok_def)
  have "unat (range_start (block_range ?base (unat order) c)) = unat ?base + 4096 * (c * 2 ^ unat order)"
    "unat (range_end (block_range ?base (unat order) c)) = unat ?base + 4096 * ((c + 1) * 2 ^ unat order)"
    using unat_block_offset(4) [OF k _ base, of c] unat_block_offset(4) [OF k _ base, of "c + 1"] c(2)
    by (simp_all add: block_range_def del: of_nat_Suc)
  moreover have "blk (unat order) c \<subseteq> zone_free_frames M (order_list z)" using c(3) by (simp add: alloc_post_def)
  ultimately show ?thesis using alloc c(1,3) by fastforce
qed

theorem zone_alloc_first_fit_witness:
  "\<exists>c z' rng. zone_alloc x86_64_ref True 1 (new_zone 0x1000 4)
      = Inr (Some rng, z', [Write_Bytes (range_start rng + PHYS_OFFSET) (clear_byte True) (PAGE_SIZE * 2)])
    \<and> unat (range_start rng) = 0x1000 + 4096 * (c * 2)
    \<and> alloc_post 4 1 {..<4} c (zone_free_frames 1 (order_list z'))"
proof -
  have M: "max_order_blocks 4 = 1" by (simp add: max_order_blocks_def)
  have F: "zone_free_frames 1 (order_list (new_zone 0x1000 4)) = {..<4}"
    using new_lists_frames [of 4] by (simp add: M new_zone_def new_extent_def ceil_order_samples)
  have "blk 1 0 \<subseteq> {..<4}" by (auto simp: blk_def)
  then have ex: "\<exists>c. blk (unat (1 :: u8)) c \<subseteq> {..<4}" by auto
  have "unat (1 :: u8) \<le> MAX_ORDER" by (simp add: MAX_ORDER_def)
  from zone_alloc_first_fit [OF x86_64_laws_ref new_zone_ok(1) [OF sample_zone_ok(1), unfolded M] this, of True,
      unfolded F new_zone_ok(2) [OF sample_zone_ok(1)] if_P [OF ex]]
  obtain c z' rng where "zone_alloc x86_64_ref True 1 (new_zone 0x1000 4)
      = Inr (Some rng, z', [Write_Bytes (range_start rng + PHYS_OFFSET) (clear_byte True) (PAGE_SIZE * 2 ^ unat (1 :: u8))])"
    "unat (range_start rng) = unat (range_start (pages (new_zone 0x1000 4))) + 4096 * (c * 2 ^ unat (1 :: u8))"
    "alloc_post 4 (unat (1 :: u8)) {..<4} c (zone_free_frames 1 (order_list z'))"
    by blast
  then show ?thesis by (intro exI [of _ c] exI [of _ z'] exI [of _ rng]) (simp add: new_zone_def)
qed

text \<open>
  \<^verbatim>\<open>Zone::free\<close> cannot succeed: the length of the range is in bytes, so for page-aligned frames
  its number of trailing zeros is at least 12 and the order computed from it is beyond the order lists:
  every call panics, in both build profiles.
\<close>

lemma zone_free_always_panics:
  assumes "x86_64_laws X" "length (order_list z) = MAX_ORDER + 1"
    and "4096 dvd unat (range_start rng)" "4096 dvd unat (range_end rng)"
  shows "\<exists>cause. zone_free X dbg rng z = Inl cause"
proof (cases "range_start rng \<le> range_end rng")
  case False
  then show ?thesis by (simp add: zone_free_def phys_addr_sub_eq [OF assms(1)])
next
  case True
  define len where "len = range_end rng - range_start rng"
  have "2 ^ 12 dvd unat len"
    using True assms(3,4) by (simp add: len_def unat_minus_no_wrap word_le_nat_alt)
  then have order: "12 \<le> trailing_zeros len" by (rule trailing_zeros_ge) simp
  have get: "get_block (order_list z) (trailing_zeros len) idx = Inl Index_Out_Of_Bounds"
    "set_block (order_list z) (trailing_zeros len) idx b = Inl Index_Out_Of_Bounds" for idx b
    using order assms(2) by (simp_all add: get_block_def set_block_def index_res_beyond MAX_ORDER_def)
  have "phys_addr_sub X (range_end rng) (range_start rng) = Inr len"
    using True by (simp add: phys_addr_sub_eq [OF assms(1)] len_def)
  then have "zone_free X dbg rng z \<noteq> Inr z'" for z'
    by (auto simp: zone_free_def get Let_def res_elim)
  then show ?thesis by (cases "zone_free X dbg rng z") auto
qed

text \<open>
  Claim C20 (\<^verbatim>\<open>Zone::new\<close>). For a non-empty, page-aligned piece of mappable memory and as many \<^verbatim>\<open>Used\<close> blocks as
  \<^verbatim>\<open>blocks_in_region\<close> counts, the constructor does not panic, and the zone it returns is well-formed, covers
  exactly the given pages, and offers the frames from 0 up to \<open>new_extent\<close>, which is at least the number
  of pages and equal to it when that is a power of two up to 2048 or a multiple of 2048.
\<close>

theorem zone_new_correct:
  assumes "x86_64_laws X" "zone_place_ok addr N" "unat len div 4096 = N"
  shows "\<exists>z. zone_new X dbg addr len (replicate (max_order_blocks N * 4095) Used) = Inr z
    \<and> zone_ok (max_order_blocks N) z \<and> unat (zone_pages z) = N
    \<and> range_start (pages z) = addr \<and> unat (range_end (pages z)) = unat addr + 4096 * N
    \<and> zone_free_frames (max_order_blocks N) (order_list z) = {..<new_extent N}
    \<and> N \<le> new_extent N \<and> ((\<exists>k \<le> 11. N = 2 ^ k) \<or> 2048 dvd N \<longrightarrow> new_extent N = N)"
proof -
  have N: "0 < N" "4096 dvd unat addr" "unat addr + 4096 * (2048 * max_order_blocks N) < 2 ^ 47"
    using assms(2) by (auto simp: zone_place_ok_def)
  have "zone_new X dbg addr len (replicate (max_order_blocks N * 4095) Used) = Inr (new_zone addr N)"
    unfolding new_zone_def by (rule zone_new_Inr [OF assms(1,3) N])
  moreover have "range_start (pages (new_zone addr N)) = addr" by (simp add: new_zone_def)
  moreover have "zone_free_frames (max_order_blocks N) (order_list (new_zone addr N)) = {..<new_extent N}"
    using new_lists_frames [OF N(1)] by (simp add: new_zone_def)
  ultimately show ?thesis using new_zone_ok [OF assms(2)] new_extent_ge [OF N(1)] new_extent_exact [OF N(1)] by blast
qed

theorem zone_new_correct_witness:
  "\<exists>z. zone_new x86_64_ref True 0x1000 0x4000 (replicate 4095 Used) = Inr z
    \<and> zone_free_frames 1 (order_list z) = {..<4}"
proof -
  have M: "max_order_blocks 4 = 1" "new_extent 4 = 4"
    by (simp_all add: max_order_blocks_def new_extent_def ceil_order_samples)
  have "unat (0x4000 :: usize) div 4096 = 4" by simp
  from zone_new_correct [OF x86_64_laws_ref sample_zone_ok(1) this, of True] show ?thesis
    unfolding M by auto
qed

text \<open>
  A zone never hands out a frame twice. Any sequence of requests, of any orders, runs without a
  panic on a well-formed zone, and the ranges it returns are pairwise disjoint and consist of frames
  that were free before.
\<close>

lemma zone_ranges_disjoint:
  assumes "x86_64_laws X" "zone_ok M z"
  shows "\<exists>rs z'. alloc_ranges (zone_alloc X dbg) orders z = Inr (rs, z')
    \<and> sorted_wrt (\<lambda>r q. range_bytes r \<inter> range_bytes q = {}) rs
    \<and> (\<Union>r \<in> set rs. range_bytes r) \<subseteq> zone_bytes z (zone_free_frames M (order_list z)) \<and> zone_ok M z'"
  using zone.ranges_return [of X M z dbg orders] zone.ranges_disjoint [of X M z dbg orders] assms by blast

lemma zone_ranges_disjoint_witness:
  "\<exists>rs z'. alloc_ranges (zone_alloc x86_64_ref True) [0, 1, 0, 3] (new_zone 0x1000 4) = Inr (rs, z')
    \<and> sorted_wrt (\<lambda>r q. range_bytes r \<inter> range_bytes q = {}) rs"
  using zone_ranges_disjoint [OF x86_64_laws_ref new_zone_ok(1) [OF sample_zone_ok(1)], of True "[0, 1, 0, 3]"] by blast

text \<open>
  Blocks inside the zone. A block starts inside the zone, and when its length divides the number
  of pages of the zone it also ends there; in particular a single page is always a page of the zone.
\<close>

lemma zone_alloc_in_bounds:
  assumes "x86_64_laws X" "zone_ok M z" "zone_alloc X dbg order z = Inr (Some rng, z', ev)"
  shows "range_start (pages z) \<le> range_start rng
    \<and> unat (range_start rng) < unat (range_start (pages z)) + 4096 * unat (zone_pages z)
    \<and> (2 ^ unat order dvd unat (zone_pages z) \<longrightarrow>
        unat (range_end rng) \<le> unat (range_start (pages z)) + 4096 * unat (zone_pages z))"
proof (rule zone_alloc_cases [OF assms(1,2), of dbg order])
  fix c ol' ev'
  let ?k = "unat order" and ?b = "range_start (pages z)"
  assume k: "?k \<le> 11" "c < M * 2 ^ (11 - ?k)"
    and eq: "zone_alloc X dbg order z = Inr (Some (block_range ?b ?k c), z\<lparr>order_list := ol'\<rparr>, ev')"
    and post: "alloc_post (unat (zone_pages z)) ?k (zone_free_frames M (order_list z)) c (zone_free_frames M ol')"
  have base: "unat ?b + 4096 * (2048 * M) < 2 ^ 47" using assms(2) by (simp only: zone_ok_def)
  have rng: "unat (range_start rng) = unat ?b + 4096 * (c * 2 ^ ?k)" "unat (range_end rng) = unat ?b + 4096 * ((c + 1) * 2 ^ ?k)"
    using unat_block_offset(4) [OF k(1) _ base, of c] unat_block_offset(4) [OF k(1) _ base, of "c + 1"] k(2) eq assms(3)
    by (auto simp: block_range_def simp del: of_nat_Suc)
  have lt: "c * 2 ^ ?k < unat (zone_pages z)" using post by (simp add: alloc_post_def)
  moreover have "(c + 1) * 2 ^ ?k \<le> unat (zone_pages z)" if dvd: "2 ^ ?k dvd unat (zone_pages z)"
  proof -
    obtain q where q: "unat (zone_pages z) = 2 ^ ?k * q" using dvd by (rule dvdE)
    then have "c + 1 \<le> q" using lt by (simp add: mult.commute)
    then have "(c + 1) * 2 ^ ?k \<le> q * 2 ^ ?k" by (rule mult_right_mono) simp
    then show ?thesis unfolding q by (simp only: mult.commute)
  qed
  ultimately show ?thesis using rng by (auto simp: word_le_nat_alt)
qed (use assms(3) in simp)

lemma zone_alloc_in_bounds_witness:
  "\<exists>rng z' ev. zone_alloc x86_64_ref True 1 (new_zone 0x1000 4) = Inr (Some rng, z', ev)
    \<and> unat (range_end rng) \<le> 0x1000 + 4096 * 4"
proof -
  note ok = new_zone_ok [OF sample_zone_ok(1)]
  have "zone_free_frames (max_order_blocks 4) (order_list (new_zone 0x1000 4)) = {..<4}"
    using new_lists_frames [of 4] by (simp add: new_zone_def new_extent_def ceil_order_samples)
  moreover have "blk 1 0 \<subseteq> {..<4}" by (auto simp: blk_def)
  ultimately obtain rng z' ev where a: "zone_alloc x86_64_ref True 1 (new_zone 0x1000 4) = Inr (Some rng, z', ev)"
    using new_zone_alloc_returns [OF x86_64_laws_ref ok(1), of 1 0 True] by auto
  from zone_alloc_in_bounds [OF x86_64_laws_ref ok(1) a] a ok(2) show ?thesis
    by (auto simp: new_zone_def)
qed



end
