(* ===== verification/Pmm.thy ===== *)
theory Pmm
  imports Pmm_New
begin

text \<open>
  Model of \<^verbatim>\<open>PhysAllocator\<close>, \<^verbatim>\<open>src/src/mm/pmm.rs\<close>: how much of a region is usable, the construction of the zones
  at boot, and allocation and release over all zones. The state is the list of zones behind the two locks,
  \<^verbatim>\<open>None\<close> before \<^verbatim>\<open>init\<close>; the locks themselves are the subject of theories \<open>Spin_Lock\<close> and \<open>Rw_Spin_Lock\<close>.
\<close>

definition blocks_in_region :: "x86_64 \<Rightarrow> bool \<Rightarrow> u64 \<Rightarrow> u64 res" where
  "blocks_in_region X dbg n =
     bind_res (align_up X n MAX_ORDER_PAGES) (\<lambda>up.
     bind_res (pow2_u64 dbg (MAX_ORDER + 1)) (\<lambda>p.
     bind_res (sub_w dbg p 1) (\<lambda>q.
     mul_w dbg (up div MAX_ORDER_PAGES) q)))"

definition usable_pages :: "x86_64 \<Rightarrow> bool \<Rightarrow> u64 \<Rightarrow> u64 res" where
  "usable_pages X dbg total_pages =
     bind_res (mul_w dbg 4096 total_pages) (\<lambda>bytes.
     bind_res (blocks_in_region X dbg total_pages) (\<lambda>blocks.
     bind_res (sub_w dbg bytes blocks) (\<lambda>rest.
     bind_res (add_w dbg size_of_PageInfo 4096) (\<lambda>per_page.
     sub_w dbg (rest div per_page) 2))))"

text \<open>
  A \<^verbatim>\<open>Block\<close> is one byte (the niche of \<^verbatim>\<open>NonZeroU8\<close> encodes \<^verbatim>\<open>Used\<close> as 0), so zeroed memory is a slice of
  \<^verbatim>\<open>Used\<close> blocks.
\<close>

definition size_of_Block :: usize where
  "size_of_Block = 1"

definition align_of_Block :: usize where
  "align_of_Block = 1"

definition new_blocks_for_region ::
  "x86_64 \<Rightarrow> bool \<Rightarrow> Region \<Rightarrow> u64 \<Rightarrow> (Block list \<times> mem_event list) res" where
  "new_blocks_for_region X dbg region usable =
     bind_res (blocks_in_region X dbg usable) (\<lambda>block_count.
     bind_res (mul_w dbg block_count size_of_Block) (\<lambda>bytes.
     bind_res (expect_some Unwrap_None (from_size_align bytes align_of_Block)) (\<lambda>layout.
     bind_res (bump_alloc X dbg (bump_from region) layout) (\<lambda>(r, _).
     bind_res (expect_some Expect_Failed r) (\<lambda>ptr.
     bind_res (if dbg then bind_res (align_down X ptr PAGE_SIZE) (\<lambda>a. debug_assert dbg (ptr = a)) else Inr ()) (\<lambda>_.
     Inr (replicate (unat block_count) Used, [Write_Bytes ptr 0 block_count])))))))"

text \<open>\<^verbatim>\<open>for rg in map\<close>: the iterator takes regions off the front until there is none; \<open>fuel\<close> bounds the loop.\<close>

fun iter_regions :: "Region arrayvec \<Rightarrow> nat \<Rightarrow> Region list \<Rightarrow> Region list" where
  "iter_regions A 0 rs = []"
| "iter_regions A (Suc fuel) rs =
     (case region_iter_next A rs of (None, _) \<Rightarrow> [] | (Some rg, rs') \<Rightarrow> rg # iter_regions A fuel rs')"

definition zone_of_region :: "x86_64 \<Rightarrow> bool \<Rightarrow> Region \<Rightarrow> (Zone \<times> Region \<times> mem_event list) option res" where
  "zone_of_region X dbg rg =
     (let pages_in_rg = reg_size rg div PAGE_SIZE in
      bind_res (usable_pages X dbg pages_in_rg) (\<lambda>n.
      if n \<le> 1 then Inr None
      else
        bind_res (sub_w dbg pages_in_rg n) (\<lambda>d.
        bind_res (mul_w dbg d PAGE_SIZE) (\<lambda>off.
        bind_res (split_at X dbg rg off) (\<lambda>(reserved, usable).
        bind_res (align_down X (reg_size usable) PAGE_SIZE) (\<lambda>len.
        bind_res (new_blocks_for_region X dbg reserved n) (\<lambda>(blocks, ev).
        bind_res (zone_new X dbg (reg_addr usable) len blocks) (\<lambda>zone.
        Inr (Some (zone, usable, ev))))))))))"

fun init_zones ::
  "x86_64 \<Rightarrow> Zone arrayvec \<Rightarrow> bool \<Rightarrow> Region list \<Rightarrow> Zone list \<Rightarrow> (Zone list \<times> mem_event list) res" where
  "init_zones X AZ dbg [] zones = Inr (zones, [])"
| "init_zones X AZ dbg (rg # rgs) zones =
     bind_res (zone_of_region X dbg rg) (\<lambda>r.
     case r of
       None \<Rightarrow> init_zones X AZ dbg rgs zones
     | Some (zone, usable, ev) \<Rightarrow>
         bind_res (av_push AZ zones zone) (\<lambda>zones'.
         bind_res (assert_res (reg_addr usable AND (PAGE_SIZE - 1) = 0)) (\<lambda>_.
         bind_res (init_zones X AZ dbg rgs zones') (\<lambda>(zones'', ev').
         Inr (zones'', ev @ ev')))))"

type_synonym pmm = "Zone list option"

definition pmm_init ::
  "x86_64 \<Rightarrow> Region arrayvec \<Rightarrow> Zone arrayvec \<Rightarrow> bool \<Rightarrow> MemoryMap \<Rightarrow> (pmm \<times> mem_event list) res" where
  "pmm_init X A AZ dbg mm =
     bind_res (init_zones X AZ dbg (iter_regions A (Suc (length (regions mm))) (regions mm)) []) (\<lambda>(zones, ev).
     Inr (Some zones, ev))"

fun alloc_zones ::
  "x86_64 \<Rightarrow> bool \<Rightarrow> u8 \<Rightarrow> Zone list \<Rightarrow> (phys_frame_range \<times> Zone list \<times> mem_event list) res" where
  "alloc_zones X dbg order [] = Inl Explicit_Panic"
| "alloc_zones X dbg order (zone # zones) =
     bind_res (zone_alloc X dbg order zone) (\<lambda>(r, zone', ev).
     case r of
       Some rng \<Rightarrow> Inr (rng, zone' # zones, ev)
     | None \<Rightarrow>
         bind_res (alloc_zones X dbg order zones) (\<lambda>(rng, zones', ev'). Inr (rng, zone' # zones', ev @ ev')))"

definition pmm_alloc :: "x86_64 \<Rightarrow> bool \<Rightarrow> u8 \<Rightarrow> pmm \<Rightarrow> (phys_frame_range \<times> pmm \<times> mem_event list) res" where
  "pmm_alloc X dbg order pmm =
     bind_res (debug_assert dbg (unat order \<le> MAX_ORDER)) (\<lambda>_.
     bind_res (expect_some Unwrap_None pmm) (\<lambda>zones.
     bind_res (alloc_zones X dbg order zones) (\<lambda>(rng, zones', ev). Inr (rng, Some zones', ev))))"

fun free_zones :: "x86_64 \<Rightarrow> bool \<Rightarrow> phys_frame_range \<Rightarrow> Zone list \<Rightarrow> Zone list res" where
  "free_zones X dbg rng [] = Inl Explicit_Panic"
| "free_zones X dbg rng (zone # zones) =
     (if range_start (pages zone) \<le> range_start rng \<and> range_end (pages zone) \<ge> range_end rng then
        bind_res (zone_free X dbg rng zone) (\<lambda>zone'. Inr (zone' # zones))
      else bind_res (free_zones X dbg rng zones) (\<lambda>zones'. Inr (zone # zones')))"

definition pmm_free :: "x86_64 \<Rightarrow> bool \<Rightarrow> phys_frame_range \<Rightarrow> pmm \<Rightarrow> pmm res" where
  "pmm_free X dbg rng pmm =
     bind_res (expect_some Unwrap_None pmm) (\<lambda>zones.
     bind_res (free_zones X dbg rng zones) (\<lambda>zones'. Inr (Some zones')))"

subsection \<open>Usable pages\<close>

lemma blocks_in_region_Inr:
  assumes "x86_64_laws X" "unat n < 2 ^ 48"
  shows "\<exists>b. blocks_in_region X dbg n = Inr b \<and> unat b = max_order_blocks (unat n) * 4095"
proof -
  obtain a where a: "align_up X n MAX_ORDER_PAGES = Inr a" "unat (a div MAX_ORDER_PAGES) = max_order_blocks (unat n)"
    using align_up_blocks [OF assms(1), of n] assms(2) by auto
  have lt: "max_order_blocks (unat n) * 4095 < 2 ^ 64" using max_order_blocks_le [of "unat n"] assms(2) by simp
  have "sub_w dbg (2 ^ 12 :: u64) 1 = Inr 4095" by (simp add: sub_w_def)
  then have "blocks_in_region X dbg n = Inr (a div MAX_ORDER_PAGES * 4095)"
    using a lt by (simp add: blocks_in_region_def MAX_ORDER_def mul_w_Inr)
  moreover have "unat (a div MAX_ORDER_PAGES * 4095) = max_order_blocks (unat n) * 4095"
    using a(2) lt by (subst unat_mult_no_wrap) simp_all
  ultimately show ?thesis by blast
qed

lemma blocks_fit: "4 \<le> t \<Longrightarrow> max_order_blocks t * 4095 + 2 * 4104 \<le> 4096 * t"
  using max_order_blocks_le [of t] by linarith

lemma zone_pages_fit:
  assumes "4 \<le> t"
  shows "((4096 * t - max_order_blocks t * 4095) div 4104) * 4104 + max_order_blocks t * 4095 \<le> 4096 * t"
    "2 \<le> (4096 * t - max_order_blocks t * 4095) div 4104"
  using blocks_fit [OF assms] div_times_less_eq_dividend [of "4096 * t - max_order_blocks t * 4095" 4104]
  by (simp_all add: less_eq_div_iff_mult_less_eq)

lemma usable_pages_Inr:
  assumes "x86_64_laws X" "4 \<le> unat t" "unat t < 2 ^ 48"
  shows "\<exists>n. usable_pages X dbg t = Inr n
    \<and> unat n + 2 = (4096 * unat t - max_order_blocks (unat t) * 4095) div 4104"
proof -
  obtain b where b: "blocks_in_region X dbg t = Inr b" "unat b = max_order_blocks (unat t) * 4095"
    using blocks_in_region_Inr [OF assms(1,3)] by blast
  have mul: "unat (4096 * t) = 4096 * unat t" "mul_w dbg 4096 t = Inr (4096 * t)"
    using assms(3) by (simp_all add: unat_mult_no_wrap mul_w_Inr)
  have T: "max_order_blocks (unat t) * 4095 + 2 * 4104 \<le> 4096 * unat t"
    using blocks_fit [OF assms(2)] .
  have rest: "unat (4096 * t - b) = 4096 * unat t - max_order_blocks (unat t) * 4095"
    using T mul(1) b(2) by (subst unat_minus_no_wrap) simp_all
  have per: "add_w dbg size_of_PageInfo 4096 = Inr 4104" by (simp add: add_w_def size_of_PageInfo_def)
  have q: "unat ((4096 * t - b) div 4104) = (4096 * unat t - max_order_blocks (unat t) * 4095) div 4104"
    by (simp add: unat_div_distrib rest)
  moreover have two: "2 \<le> (4096 * unat t - max_order_blocks (unat t) * 4095) div 4104"
    using T by (simp add: less_eq_div_iff_mult_less_eq)
  ultimately have "unat ((4096 * t - b) div 4104 - 2) + 2 = (4096 * unat t - max_order_blocks (unat t) * 4095) div 4104"
    by (subst unat_minus_no_wrap) simp_all
  moreover have "usable_pages X dbg t = Inr ((4096 * t - b) div 4104 - 2)"
    using mul b T q two per by (simp add: usable_pages_def sub_w_Inr)
  ultimately show ?thesis by blast
qed

text \<open>
  \<^verbatim>\<open>usable_pages\<close>. For a region of at least four pages the function does not panic, and its result
  \<open>n\<close> satisfies the inequality in the comment above it: the \<^verbatim>\<open>PageInfo\<close> overhead it counts and the block
  bytes of \<open>n\<close> pages fit into the pages that are not usable, with two pages to spare.
\<close>

lemma usable_pages_fit:
  assumes "x86_64_laws X" "4 \<le> unat total_pages" "unat total_pages < 2 ^ 48"
  shows "\<exists>n b. usable_pages X dbg total_pages = Inr n \<and> blocks_in_region X dbg n = Inr b
    \<and> unat n < unat total_pages
    \<and> unat n * unat size_of_PageInfo + unat b + 2 * 4096 \<le> 4096 * (unat total_pages - unat n)"
proof -
  obtain n where n: "usable_pages X dbg total_pages = Inr n"
    "unat n + 2 = (4096 * unat total_pages - max_order_blocks (unat total_pages) * 4095) div 4104"
    using usable_pages_Inr [OF assms] by blast
  have le: "(unat n + 2) * 4104 + max_order_blocks (unat total_pages) * 4095 \<le> 4096 * unat total_pages"
    using zone_pages_fit(1) [OF assms(2)] unfolding n(2) .
  then have lt: "unat n < unat total_pages" by (simp add: algebra_simps)
  obtain b where b: "blocks_in_region X dbg n = Inr b" "unat b = max_order_blocks (unat n) * 4095"
    using blocks_in_region_Inr [OF assms(1), of n dbg] lt assms(3) by auto
  have "max_order_blocks (unat n) \<le> max_order_blocks (unat total_pages)"
    using lt by (simp add: max_order_blocks_def div_le_mono)
  then show ?thesis using n b le lt by (simp add: size_of_PageInfo_def)
qed

lemma usable_pages_fit_witness:
  "\<exists>n b. usable_pages x86_64_ref True 1000 = Inr n \<and> blocks_in_region x86_64_ref True n = Inr b \<and> unat n < 1000
    \<and> unat n * 8 + unat b + 2 * 4096 \<le> 4096 * (1000 - unat n)"
  using usable_pages_fit [OF x86_64_laws_ref, of 1000 True] by (simp add: size_of_PageInfo_def)

text \<open>
  Claim C39 (\<^verbatim>\<open>usable_pages\<close> on tiny regions). For a region of fewer than four pages the final subtraction
  underflows: a debug build panics at boot, a release build wraps around to a count beyond any memory.
\<close>

theorem usable_pages_underflow:
  assumes "x86_64_laws X" "unat total_pages < 4"
  shows "usable_pages X True total_pages = Inl Overflow
    \<and> (\<exists>n. usable_pages X False total_pages = Inr n \<and> 2 ^ 64 - 2 \<le> unat n)"
proof -
  let ?M = "max_order_blocks (unat total_pages)"
  have small: "?M * 4095 \<le> 4096 * unat total_pages" "4096 * unat total_pages - ?M * 4095 < 2 * 4104"
    using assms(2) max_order_blocks_le [of "unat total_pages"] max_order_blocks_gt [of 0 "unat total_pages"] by linarith+
  define b :: u64 where "b = of_nat (?M * 4095)"
  have b: "blocks_in_region X dbg total_pages = Inr b" "unat b = ?M * 4095" for dbg
  proof -
    obtain b' where b': "blocks_in_region X dbg total_pages = Inr b'" "unat b' = ?M * 4095"
      using blocks_in_region_Inr [OF assms(1), of total_pages dbg] assms(2) by auto
    then have "b' = b" unfolding b_def b'(2) [symmetric] by simp
    with b' show "blocks_in_region X dbg total_pages = Inr b" "unat b = ?M * 4095" by simp_all
  qed
  have mul: "unat (4096 * total_pages) = 4096 * unat total_pages" "mul_w dbg 4096 total_pages = Inr (4096 * total_pages)" for dbg
    using assms(2) by (simp_all add: unat_mult_no_wrap mul_w_Inr)
  define c where "c = (4096 * total_pages - b) div 4104"
  have "unat c < 2"
    using small mul(1) b(2) by (simp add: c_def unat_div_distrib unat_minus_no_wrap div_less_iff_less_mult)
  then have c: "c = 0 \<or> c = 1" by (auto simp: less_2_cases_iff word_unat_eq_iff)
  have "usable_pages X dbg total_pages = sub_w dbg c 2" for dbg
    using mul b small by (simp add: usable_pages_def sub_w_Inr size_of_PageInfo_def add_w_def c_def)
  then show ?thesis using c by (auto simp: sub_w_def unsigned_minus_1_eq_mask mask_eq_exp_minus_1)
qed

theorem usable_pages_underflow_witness:
  "usable_pages x86_64_ref True 3 = Inl Overflow
    \<and> (\<exists>n. usable_pages x86_64_ref False 3 = Inr n \<and> 2 ^ 64 - 2 \<le> unat n)"
  by (rule usable_pages_underflow [OF x86_64_laws_ref]) simp

subsection \<open>Boot\<close>

lemma split_at_Inr:
  assumes "x86_64_laws X" "off < reg_size rg" "unat (reg_addr rg) + unat (reg_size rg) < 2 ^ 52"
  shows "split_at X dbg rg off
    = Inr (\<lparr>reg_addr = reg_addr rg, reg_size = off\<rparr>, \<lparr>reg_addr = reg_addr rg + off, reg_size = reg_size rg - off\<rparr>)"
proof -
  have "unat (reg_addr rg) + unat off < 2 ^ 52" using assms(2,3) by (simp add: word_less_nat_alt)
  with assms show ?thesis
    by (simp add: split_at_def add_w_Inr sub_w_Inr phys_addr_new_eq unat_add_no_wrap word_less_nat_alt)
qed

lemma from_size_align_1: "from_size_align b 1 = Some \<lparr>lay_size = b, lay_align = 1\<rparr>"
proof -
  have "is_pow2 1" unfolding is_pow2_iff by (intro exI [of _ 0]) simp
  then show ?thesis using unsigned_less [of b, where 'a = nat] by (simp add: from_size_align_def)
qed

lemma new_blocks_Inr:
  assumes X: "x86_64_laws X" and rg: "region_ok rg" and n: "unat n < 2 ^ 48"
    and fit: "max_order_blocks (unat n) * 4095 \<le> unat (reg_size rg)"
  shows "\<exists>b. unat b = max_order_blocks (unat n) * 4095
    \<and> new_blocks_for_region X dbg rg n = Inr (replicate (unat b) Used, [Write_Bytes (reg_addr rg + PHYS_OFFSET) 0 b])"
proof -
  obtain b where b: "blocks_in_region X dbg n = Inr b" "unat b = max_order_blocks (unat n) * 4095"
    using blocks_in_region_Inr [OF X n] by blast
  have small: "unat (reg_addr rg) + unat (reg_size rg) < 2 ^ 47" "4096 dvd unat (reg_addr rg)"
    using rg by (auto simp: region_ok_def)
  have "bump_ok (bump_from rg)" using small by (simp add: bump_ok_def bump_from_def)
  from bump_alloc_eq [OF X this, where k = 0 and layout = "\<lparr>lay_size = b, lay_align = 1\<rparr>" and dbg = dbg]
  have bump: "\<exists>b'. bump_alloc X dbg (bump_from rg) \<lparr>lay_size = b, lay_align = 1\<rparr> = Inr (Some (reg_addr rg + PHYS_OFFSET), b')"
    using fit small b(2) by (simp add: bump_from_def round_up_def)
  have ptr: "unat (reg_addr rg + PHYS_OFFSET) = unat (reg_addr rg) + (2 ^ 64 - 2 ^ 47)"
    using phys_to_kernel_virt_eq(2) [OF X, of "reg_addr rg"] small(1) by simp
  have "4096 dvd unat (reg_addr rg + PHYS_OFFSET)" unfolding ptr using small(2) by (simp add: dvd_add)
  moreover have "PAGE_SIZE = 2 ^ 12" by (simp add: PAGE_SIZE_def)
  ultimately have "align_down X (reg_addr rg + PHYS_OFFSET) PAGE_SIZE = Inr (reg_addr rg + PHYS_OFFSET)"
    using align_down_eq [OF X, of 12 "reg_addr rg + PHYS_OFFSET"] by (simp add: round_down_id)
  moreover have "mul_w dbg b 1 = Inr b" using unsigned_less [of b, where 'a = nat] by (simp add: mul_w_def)
  ultimately show ?thesis
    using b bump by (auto simp: new_blocks_for_region_def size_of_Block_def align_of_Block_def from_size_align_1)
qed

text \<open>A region whose pages, with the padding of the last block, are in the part of memory the kernel maps.\<close>

definition region_fits :: "Region \<Rightarrow> bool" where
  "region_fits rg \<longleftrightarrow> 4096 dvd unat (reg_addr rg) \<and> unat (reg_addr rg) + unat (reg_size rg) + 2 ^ 23 < 2 ^ 47
     \<and> 4 * 4096 \<le> unat (reg_size rg)"

text \<open>Where the zone of a region starts and how many pages it has.\<close>

definition zone_pages_of :: "Region \<Rightarrow> nat" where
  "zone_pages_of rg = (4096 * (unat (reg_size rg) div 4096) - max_order_blocks (unat (reg_size rg) div 4096) * 4095) div 4104 - 2"

definition zone_start_of :: "Region \<Rightarrow> phys_addr" where
  "zone_start_of rg = reg_addr rg + of_nat (4096 * (unat (reg_size rg) div 4096 - zone_pages_of rg))"

text \<open>The arithmetic of \<^verbatim>\<open>init\<close>, with \<open>t\<close> pages in the region and \<open>n\<close> usable ones.\<close>

lemma zone_geometry:
  assumes rg: "region_fits rg" and n1: "1 < zone_pages_of rg"
  defines "n \<equiv> zone_pages_of rg" and "t \<equiv> unat (reg_size rg) div 4096"
  shows "n < t" "4096 * t \<le> unat (reg_size rg)" "unat (of_nat (4096 * (t - n)) :: u64) = 4096 * (t - n)"
    and "unat (zone_start_of rg) = unat (reg_addr rg) + 4096 * (t - n)"
    and "max_order_blocks n * 4095 \<le> 4096 * (t - n)" "zone_place_ok (zone_start_of rg) n"
    and "unat (zone_start_of rg) + 4096 * n \<le> unat (reg_addr rg) + unat (reg_size rg)"
proof -
  have rgb: "4096 dvd unat (reg_addr rg)" "unat (reg_addr rg) + unat (reg_size rg) + 2 ^ 23 < 2 ^ 47" and t4: "4 \<le> t"
    using rg by (auto simp: region_fits_def t_def less_eq_div_iff_mult_less_eq)
  have "n = (4096 * t - max_order_blocks t * 4095) div 4104 - 2" unfolding n_def zone_pages_of_def t_def ..
  then have "n + 2 = (4096 * t - max_order_blocks t * 4095) div 4104" using zone_pages_fit(2) [OF t4] by linarith
  then have fit: "(n + 2) * 4104 + max_order_blocks t * 4095 \<le> 4096 * t" using zone_pages_fit(1) [OF t4] by simp
  then show lt: "n < t" by (simp add: algebra_simps)
  show size: "4096 * t \<le> unat (reg_size rg)" by (simp add: t_def)
  show u: "unat (of_nat (4096 * (t - n)) :: u64) = 4096 * (t - n)"
    using size rgb(2) by (intro unat_of_nat_small) simp
  show start: "unat (zone_start_of rg) = unat (reg_addr rg) + 4096 * (t - n)"
    unfolding zone_start_of_def n_def [symmetric] t_def [symmetric]
    using size rgb(2) u by (subst unat_add_no_wrap) simp_all
  have "max_order_blocks n \<le> max_order_blocks t" using lt by (simp add: max_order_blocks_def div_le_mono)
  then show "max_order_blocks n * 4095 \<le> 4096 * (t - n)" using fit lt by (simp add: algebra_simps)
  have tn: "4096 * (t - n) + 4096 * n = 4096 * t" using lt by simp
  then show "unat (zone_start_of rg) + 4096 * n \<le> unat (reg_addr rg) + unat (reg_size rg)" using start size by simp
  from tn have "unat (zone_start_of rg) + 4096 * (2048 * max_order_blocks n) < 2 ^ 47"
    using start size rgb(2) max_order_blocks_le [of n] by simp
  then show "zone_place_ok (zone_start_of rg) n"
    using n1 rgb(1) start by (simp add: zone_place_ok_def n_def)
qed

lemma zone_of_region_small:
  assumes "x86_64_laws X" "region_fits rg" "zone_pages_of rg \<le> 1"
  shows "zone_of_region X dbg rg = Inr None"
proof -
  have t: "unat (reg_size rg div PAGE_SIZE) = unat (reg_size rg) div 4096" by (simp add: unat_div_distrib)
  then have "4 \<le> unat (reg_size rg div PAGE_SIZE)" "unat (reg_size rg div PAGE_SIZE) < 2 ^ 48"
    using assms(2) by (simp_all add: region_fits_def less_eq_div_iff_mult_less_eq div_less_iff_less_mult)
  from usable_pages_Inr [OF assms(1) this, of dbg] obtain n
    where "usable_pages X dbg (reg_size rg div PAGE_SIZE) = Inr n" "unat n = zone_pages_of rg"
    by (auto simp: zone_pages_of_def t)
  then show ?thesis using assms(3) by (simp add: zone_of_region_def word_le_nat_alt)
qed

lemma zone_of_region_Inr:
  assumes X: "x86_64_laws X" and rg: "region_fits rg" and n1: "1 < zone_pages_of rg"
  shows "\<exists>usable ev. zone_of_region X dbg rg = Inr (Some (new_zone (zone_start_of rg) (zone_pages_of rg), usable, ev))
    \<and> reg_addr usable = zone_start_of rg"
proof -
  define t where "t = reg_size rg div PAGE_SIZE"
  define d where "d = 4096 * (unat t - zone_pages_of rg)"
  have t: "unat t = unat (reg_size rg) div 4096" by (simp add: t_def unat_div_distrib)
  note geo = zone_geometry [OF rg n1, folded t]
  have rgb: "4096 dvd unat (reg_addr rg)" "unat (reg_addr rg) + unat (reg_size rg) + 2 ^ 23 < 2 ^ 47" "4 \<le> unat t"
    using rg by (auto simp: region_fits_def t less_eq_div_iff_mult_less_eq)
  have t48: "unat t < 2 ^ 48" using geo(2) rgb(2) by simp
  obtain n where n: "usable_pages X dbg t = Inr n" "unat n = zone_pages_of rg"
    using usable_pages_Inr [OF X rgb(3) t48, of dbg] by (auto simp: zone_pages_of_def t)
  have du: "unat (of_nat d :: u64) = d" "d < unat (reg_size rg)" using geo(1-3) n1 by (simp_all add: d_def)
  have sub: "sub_w dbg t n = Inr (t - n)" "unat (t - n) = unat t - unat n"
    using geo(1) n(2) by (simp_all add: sub_w_Inr unat_minus_no_wrap)
  have mul: "mul_w dbg (t - n) PAGE_SIZE = Inr ((t - n) * PAGE_SIZE)" "unat ((t - n) * PAGE_SIZE) = d"
    using sub(2) du(2) rgb(2) n(2) by (simp_all add: mul_w_Inr unat_mult_no_wrap d_def)
  have dw: "(t - n) * PAGE_SIZE = of_nat d" unfolding mul(2) [symmetric] by simp
  have start: "zone_start_of rg = reg_addr rg + of_nat d" unfolding zone_start_of_def d_def t ..
  have "of_nat d < reg_size rg" using du by (simp add: word_less_nat_alt)
  then have split: "split_at X dbg rg (of_nat d)
      = Inr (\<lparr>reg_addr = reg_addr rg, reg_size = of_nat d\<rparr>, \<lparr>reg_addr = zone_start_of rg, reg_size = reg_size rg - of_nat d\<rparr>)"
    using split_at_Inr [OF X, of "of_nat d" rg dbg] rgb(2) by (simp add: start)
  obtain b where b: "unat b = max_order_blocks (unat n) * 4095"
    "new_blocks_for_region X dbg \<lparr>reg_addr = reg_addr rg, reg_size = of_nat d\<rparr> n
      = Inr (replicate (unat b) Used, [Write_Bytes (reg_addr rg + PHYS_OFFSET) 0 b])"
    using new_blocks_Inr [OF X, of "\<lparr>reg_addr = reg_addr rg, reg_size = of_nat d\<rparr>" n dbg] geo(1,5) du rgb t48 n(2)
    by (auto simp: region_ok_def d_def)
  define len where "len = round_down (unat (reg_size rg) - d) 4096"
  have "unat (reg_size rg) - d = 4096 * unat n + unat (reg_size rg) mod 4096"
    using geo(1) n(2) mult_div_mod_eq [of 4096 "unat (reg_size rg)"] by (simp add: d_def t [symmetric] algebra_simps)
  then have len: "len = 4096 * unat n" by (simp add: len_def round_down_def)
  have "align_down X (reg_size rg - of_nat d) PAGE_SIZE = Inr (of_nat len)"
    using align_down_eq [OF X, of 12 "reg_size rg - of_nat d"] du by (simp add: unat_minus_no_wrap PAGE_SIZE_def len_def)
  moreover have "unat (of_nat len :: usize) div 4096 = unat n"
    unfolding len using geo(1,2) rgb(2) n(2) by (subst unat_of_nat_small) simp_all
  then have "zone_new X dbg (zone_start_of rg) (of_nat len) (replicate (unat b) Used) = Inr (new_zone (zone_start_of rg) (unat n))"
    using geo(6) zone_new_Inr [OF X, of _ "unat n" "zone_start_of rg" dbg] unfolding new_zone_def b(1)
    by (simp add: zone_place_ok_def n(2))
  ultimately show ?thesis
    using n n1 sub(1) mul(1) split b(2) by (simp add: zone_of_region_def t_def [symmetric] dw word_le_nat_alt)
qed

lemma page_aligned_mask: "4096 dvd unat w \<Longrightarrow> w AND (PAGE_SIZE - 1) = 0" for w :: u64
proof -
  assume "4096 dvd unat w"
  have "PAGE_SIZE - 1 = mask 12" by (simp add: PAGE_SIZE_def mask_eq_exp_minus_1)
  then have "w AND (PAGE_SIZE - 1) = take_bit 12 w" by (simp add: take_bit_eq_mask)
  moreover have "unat (take_bit 12 w) = unat w mod 2 ^ 12" by (simp add: take_bit_eq_mod unat_mod_distrib)
  ultimately show ?thesis using \<open>4096 dvd unat w\<close> by (simp add: unat_eq_zero [symmetric] mod_eq_0_iff_dvd)
qed

definition zones_of :: "Region list \<Rightarrow> Zone list" where
  "zones_of rgs = map (\<lambda>rg. new_zone (zone_start_of rg) (zone_pages_of rg)) (filter (\<lambda>rg. 1 < zone_pages_of rg) rgs)"

lemma init_zones_Inr:
  assumes "x86_64_laws X" "arrayvec_laws MAX_ZONES AZ" "list_all region_fits rgs" "length zones + length rgs \<le> MAX_ZONES"
  shows "\<exists>ev. init_zones X AZ dbg rgs zones = Inr (zones @ zones_of rgs, ev)"
  using assms(3,4)
proof (induction rgs arbitrary: zones)
  case (Cons rg rgs)
  then have rg: "region_fits rg" and rgs: "list_all region_fits rgs" by simp_all
  show ?case
  proof (cases "zone_pages_of rg \<le> 1")
    case True
    with zone_of_region_small [OF assms(1) rg, of dbg] Cons.IH [OF rgs, of zones] Cons.prems(2)
    show ?thesis by (simp add: zones_of_def)
  next
    case False
    let ?z = "new_zone (zone_start_of rg) (zone_pages_of rg)"
    obtain usable ev where z: "zone_of_region X dbg rg = Inr (Some (?z, usable, ev))" "reg_addr usable = zone_start_of rg"
      using zone_of_region_Inr [OF assms(1) rg, of dbg] False by auto
    have "av_push AZ zones ?z = Inr (zones @ [?z])" using av_push_eq [OF assms(2)] Cons.prems(2) by simp
    moreover have "reg_addr usable AND (PAGE_SIZE - 1) = 0" using z(2) zone_geometry(6) [OF rg] False page_aligned_mask
      by (simp add: zone_place_ok_def)
    moreover obtain ev' where "init_zones X AZ dbg rgs (zones @ [?z]) = Inr ((zones @ [?z]) @ zones_of rgs, ev')"
      using Cons.IH [OF rgs, of "zones @ [?z]"] Cons.prems(2) by auto
    ultimately show ?thesis using z(1) False by (simp add: zones_of_def)
  qed
qed (simp add: zones_of_def)

lemma iter_regions_all: "arrayvec_laws cap A \<Longrightarrow> length rs < fuel \<Longrightarrow> iter_regions A fuel rs = rs"
proof (induction fuel arbitrary: rs)
  case (Suc fuel)
  then show ?case using av_pop_at_eq [OF Suc.prems(1), of rs 0] by (cases rs) (simp_all add: region_iter_next_def)
qed simp

text \<open>A zone that covers the usable part of a region, behind the bytes of its own blocks.\<close>

definition zone_in_region :: "Zone \<Rightarrow> Region \<Rightarrow> bool" where
  "zone_in_region z rg \<longleftrightarrow> zone_ok (max_order_blocks (unat (zone_pages z))) z
     \<and> unat (zone_pages z) = zone_pages_of rg
     \<and> unat (reg_addr rg) + max_order_blocks (zone_pages_of rg) * 4095 \<le> unat (range_start (pages z))
     \<and> unat (range_end (pages z)) = unat (range_start (pages z)) + 4096 * zone_pages_of rg
     \<and> unat (range_end (pages z)) \<le> unat (reg_addr rg) + unat (reg_size rg)"

lemma new_zone_in_region:
  assumes "region_fits rg" "1 < zone_pages_of rg"
  shows "zone_in_region (new_zone (zone_start_of rg) (zone_pages_of rg)) rg"
  using zone_geometry(4,5,7) [OF assms] new_zone_ok [OF zone_geometry(6) [OF assms]]
  unfolding zone_in_region_def by (simp add: new_zone_def)

lemma zones_of_in_regions:
  "list_all region_fits rgs \<Longrightarrow> list_all2 zone_in_region (zones_of rgs) (filter (\<lambda>rg. 1 < zone_pages_of rg) rgs)"
  using new_zone_in_region by (induction rgs) (simp_all add: zones_of_def)

lemma pmm_init_Inr:
  assumes "x86_64_laws X" "arrayvec_laws MAX_REGIONS A" "arrayvec_laws MAX_ZONES AZ"
    and "list_all region_fits (regions mm)" "length (regions mm) \<le> MAX_ZONES"
  shows "\<exists>ev. pmm_init X A AZ dbg mm = Inr (Some (zones_of (regions mm)), ev)"
proof -
  obtain ev where "init_zones X AZ dbg (regions mm) [] = Inr (zones_of (regions mm), ev)"
    using init_zones_Inr [OF assms(1,3,4), of "[]" dbg] assms(5) by auto
  then show ?thesis
    using iter_regions_all [OF assms(2), of "regions mm" "Suc (length (regions mm))"] by (simp add: pmm_init_def)
qed


text \<open>Two regions of 16 and 32 pages.\<close>

definition sample_regions :: MemoryMap where
  "sample_regions = \<lparr>regions = [\<lparr>reg_addr = 0x100000, reg_size = 0x10000\<rparr>, \<lparr>reg_addr = 0x200000, reg_size = 0x20000\<rparr>],
     num_pages = 48\<rparr>"

lemma sample_regions_fit: "list_all region_fits (regions sample_regions)" "length (regions sample_regions) \<le> MAX_ZONES"
  by (simp_all add: sample_regions_def region_fits_def MAX_ZONES_def)


subsection \<open>Allocation over all zones\<close>

abbreviation zone_blocks :: "Zone \<Rightarrow> nat" where
  "zone_blocks z \<equiv> max_order_blocks (unat (zone_pages z))"

definition has_block :: "nat \<Rightarrow> Zone \<Rightarrow> bool" where
  "has_block k z \<longleftrightarrow> (\<exists>c. blk k c \<subseteq> zone_free_frames (zone_blocks z) (order_list z))"

lemma zone_alloc_has_block:
  assumes "x86_64_laws X" "zone_ok M z" "unat order \<le> 11" "M = zone_blocks z"
  shows "if has_block (unat order) z then \<exists>rng z' ev. zone_alloc X dbg order z = Inr (Some rng, z', ev)
    else zone_alloc X dbg order z = Inr (None, z, [])"
proof (cases "has_block (unat order) z")
  case True
  then obtain c where "blk (unat order) c \<subseteq> zone_free_frames M (order_list z)" using assms(4) by (auto simp: has_block_def)
  from new_zone_alloc_returns [OF assms(1,2) this assms(3), of dbg] True show ?thesis by auto
next
  case False
  then show ?thesis
    using zone_alloc_None(1) [OF assms(2,3)] zone_alloc_Some [OF assms(1-3)] assms(4)
    by (cases "find_block (order_list z ! 11) order") (auto simp: has_block_def alloc_post_def)
qed

lemma alloc_zones_first:
  assumes "x86_64_laws X" "list_all (\<lambda>z. zone_ok (zone_blocks z) z) zones" "unat order \<le> 11"
  shows "case List.find (\<lambda>i. has_block (unat order) (zones ! i)) [0..<length zones] of
      None \<Rightarrow> alloc_zones X dbg order zones = Inl Explicit_Panic
    | Some i \<Rightarrow> \<exists>rng z' ev. zone_alloc X dbg order (zones ! i) = Inr (Some rng, z', ev)
        \<and> alloc_zones X dbg order zones = Inr (rng, zones[i := z'], ev)"
  using assms(2)
proof (induction zones)
  case (Cons z zones)
  have z: "zone_ok (zone_blocks z) z" using Cons.prems by simp
  have upt: "[0..<length (z # zones)] = 0 # map Suc [0..<length zones]" by (simp add: upt_conv_Cons map_Suc_upt del: upt_Suc)
  show ?case
  proof (cases "has_block (unat order) z")
    case True
    then show ?thesis using zone_alloc_has_block [OF assms(1) z assms(3) refl, of dbg] unfolding upt by auto
  next
    case False
    have "List.find P (map Suc xs) = map_option Suc (List.find (P \<circ> Suc) xs)" for P xs
      by (induction xs) simp_all
    with False Cons zone_alloc_has_block [OF assms(1) z assms(3) refl, of dbg] show ?thesis
      unfolding upt by (auto simp: comp_def split: option.splits)
  qed
qed simp

text \<open>
  Claim C21 (\<^verbatim>\<open>PhysAllocator::alloc\<close>). Before \<^verbatim>\<open>init\<close> the call panics, and so does a debug build when the order
  exceeds \<^verbatim>\<open>MAX_ORDER\<close>. Otherwise the request is served by the first zone that has a free aligned block of
  the order, and only that zone changes; when no zone has one the call panics.
\<close>

theorem pmm_alloc_first_zone:
  assumes "x86_64_laws X" "list_all (\<lambda>z. zone_ok (zone_blocks z) z) zones"
  shows "(unat order \<le> MAX_ORDER \<or> \<not> dbg \<longrightarrow> pmm_alloc X dbg order None = Inl Unwrap_None)
    \<and> (unat order > MAX_ORDER \<and> dbg \<longrightarrow> pmm_alloc X dbg order (Some zones) = Inl Debug_Assert_Failed)
    \<and> (unat order \<le> MAX_ORDER \<longrightarrow>
      (case List.find (\<lambda>i. has_block (unat order) (zones ! i)) [0..<length zones] of
         None \<Rightarrow> pmm_alloc X dbg order (Some zones) = Inl Explicit_Panic
       | Some i \<Rightarrow> \<exists>rng z' ev. zone_alloc X dbg order (zones ! i) = Inr (Some rng, z', ev)
           \<and> pmm_alloc X dbg order (Some zones) = Inr (rng, Some (zones[i := z']), ev)))"
  using alloc_zones_first [OF assms, of order dbg]
  by (auto simp: pmm_alloc_def MAX_ORDER_def debug_assert_def split: option.splits)

lemma sample_zones: "list_all (\<lambda>z. zone_ok (zone_blocks z) z) [new_zone 0x1000 3, new_zone 0x100000 4]"
proof -
  have "zone_place_ok 0x100000 4" by (simp add: zone_place_ok_def max_order_blocks_def)
  then show ?thesis using new_zone_ok [OF sample_zone_ok(2)] new_zone_ok [of "0x100000" 4] by simp
qed

theorem pmm_alloc_first_zone_witness:
  "\<exists>rng z' ev. zone_alloc x86_64_ref True 1 (new_zone 0x1000 3) = Inr (Some rng, z', ev)
    \<and> pmm_alloc x86_64_ref True 1 (Some [new_zone 0x1000 3, new_zone 0x100000 4])
      = Inr (rng, Some [z', new_zone 0x100000 4], ev)"
proof -
  have lists: "order_list (new_zone 0x1000 3) = new_lists 3" by (simp only: new_zone_def Zone.select_convs)
  have "new_extent 3 = 4" by (simp add: new_extent_def ceil_order_samples)
  with new_lists_frames [of 3] have "zone_free_frames (zone_blocks (new_zone 0x1000 3)) (order_list (new_zone 0x1000 3)) = {..<4}"
    unfolding lists new_zone_ok(2) [OF sample_zone_ok(2)] by simp
  moreover have "blk 1 0 \<subseteq> {..<4}" by (auto simp: blk_def)
  ultimately have "has_block 1 (new_zone 0x1000 3)" unfolding has_block_def by metis
  then have find: "List.find (\<lambda>i. has_block (unat (1 :: u8)) ([new_zone 0x1000 3, new_zone 0x100000 4] ! i))
      [0..<length [new_zone 0x1000 3, new_zone 0x100000 4]] = Some 0"
    by simp
  have "unat (1 :: u8) \<le> MAX_ORDER" by (simp add: MAX_ORDER_def)
  with pmm_alloc_first_zone [OF x86_64_laws_ref sample_zones, of 1 True, unfolded find option.case]
  show ?thesis unfolding nth_Cons_0 list_update_code by blast
qed

subsection \<open>Single frames\<close>

text \<open>The frames of a zone that are free and inside the zone, by their physical address.\<close>

definition zone_addrs :: "Zone \<Rightarrow> nat set" where
  "zone_addrs z = (\<lambda>f. unat (range_start (pages z)) + 4096 * f)
     ` (zone_free_frames (zone_blocks z) (order_list z) \<inter> {..<unat (zone_pages z)})"

definition zone_extent :: "Zone \<Rightarrow> nat set" where
  "zone_extent z = {unat (range_start (pages z)) ..< unat (range_start (pages z)) + 4096 * unat (zone_pages z)}"

definition zones_ok :: "Zone list \<Rightarrow> bool" where
  "zones_ok zones \<longleftrightarrow> list_all (\<lambda>z. zone_ok (zone_blocks z) z) zones
     \<and> sorted_wrt (\<lambda>z w. zone_extent z \<inter> zone_extent w = {}) zones"

definition pmm_addrs :: "Zone list \<Rightarrow> nat set" where
  "pmm_addrs zones = (\<Union>z \<in> set zones. zone_addrs z)"

lemma zone_addrs_sub: "zone_addrs z \<subseteq> zone_extent z"
  by (auto simp: zone_addrs_def zone_extent_def)

lemma zone_alloc_0:
  assumes X: "x86_64_laws X" and ok: "zone_ok (zone_blocks z) z" and alloc: "zone_alloc X dbg 0 z = Inr (Some rng, z', ev)"
  shows "zone_ok (zone_blocks z') z' \<and> zone_extent z' = zone_extent z \<and> unat (range_start rng) \<in> zone_addrs z
    \<and> zone_addrs z' = zone_addrs z - {unat (range_start rng)}"
proof (rule zone_alloc_cases [OF X ok, of dbg 0])
  fix c ol' ev'
  let ?b = "range_start (pages z)" and ?F = "zone_free_frames (zone_blocks z) (order_list z)" and ?N = "unat (zone_pages z)"
  assume c: "c < zone_blocks z * 2 ^ (11 - unat (0 :: u8))"
    and eq: "zone_alloc X dbg 0 z = Inr (Some (block_range ?b (unat (0 :: u8)) c), z\<lparr>order_list := ol'\<rparr>, ev')"
    and ok': "zone_ok (zone_blocks z) (z\<lparr>order_list := ol'\<rparr>)"
    and post: "alloc_post ?N (unat (0 :: u8)) ?F c (zone_free_frames (zone_blocks z) ol')"
  have base: "unat ?b + 4096 * (2048 * zone_blocks z) < 2 ^ 47" using ok by (simp only: zone_ok_def)
  have z': "z' = z\<lparr>order_list := ol'\<rparr>" "rng = block_range ?b 0 c" using eq alloc by auto
  have start: "unat (range_start rng) = unat ?b + 4096 * c"
    using unat_block_offset(4) [OF _ _ base, of 0 c] c by (simp add: z' block_range_def)
  have F: "c \<in> ?F" "c < ?N" "zone_free_frames (zone_blocks z) ol' \<inter> {..<?N} = ?F \<inter> {..<?N} - {c}"
    using post by (auto simp: alloc_post_def blk_def)
  have fields: "zone_pages z' = zone_pages z" "pages z' = pages z" "order_list z' = ol'" by (simp_all add: z'(1))
  have inj: "inj (\<lambda>f. unat ?b + 4096 * f)" by (simp add: inj_on_def)
  have "zone_addrs z' = zone_addrs z - {unat (range_start rng)}"
    unfolding zone_addrs_def start fields F(3) image_set_diff [OF inj] by simp
  moreover have "unat (range_start rng) \<in> zone_addrs z" unfolding zone_addrs_def start using F(1,2) by blast
  moreover have "zone_ok (zone_blocks z') z'" using ok' unfolding fields z'(1) [symmetric] .
  moreover have "zone_extent z' = zone_extent z" unfolding zone_extent_def fields ..
  ultimately show ?thesis by blast
qed (use alloc in simp)

lemma pmm_addrs_Cons: "pmm_addrs (z # zones) = zone_addrs z \<union> pmm_addrs zones"
  by (simp add: pmm_addrs_def)

lemma zones_ok_Cons_extent:
  assumes "map zone_extent zones' = map zone_extent zones" "zones_ok zones'" "zone_ok (zone_blocks z) z"
    and "\<And>w. w \<in> set zones \<Longrightarrow> zone_extent z \<inter> zone_extent w = {}"
  shows "zones_ok (z # zones')"
proof -
  have "set (map zone_extent zones') = set (map zone_extent zones)" using assms(1) by simp
  then have "zone_extent z \<inter> zone_extent w = {}" if "w \<in> set zones'" for w
    using assms(4) that by (metis (no_types, lifting) image_iff image_set)
  with assms(2,3) show ?thesis by (simp add: zones_ok_def)
qed

lemma alloc_zones_0:
  assumes "x86_64_laws X" "zones_ok zones" "alloc_zones X dbg 0 zones = Inr (rng, zones', ev)"
  shows "zones_ok zones' \<and> map zone_extent zones' = map zone_extent zones \<and> unat (range_start rng) \<in> pmm_addrs zones
    \<and> pmm_addrs zones' = pmm_addrs zones - {unat (range_start rng)}"
  using assms(2,3)
proof (induction zones arbitrary: zones' ev)
  case (Cons z zones)
  have z: "zone_ok (zone_blocks z) z" and zs: "zones_ok zones"
    and dj: "\<And>w. w \<in> set zones \<Longrightarrow> zone_extent z \<inter> zone_extent w = {}"
    using Cons.prems(1) by (simp_all add: zones_ok_def)
  have apart: "zone_addrs z \<inter> pmm_addrs zones = {}"
    unfolding pmm_addrs_def using dj zone_addrs_sub by (simp add: disjoint_iff) blast
  show ?case
  proof (rule zone_alloc_cases [OF assms(1) z, of dbg 0])
    assume "zone_alloc X dbg 0 z = Inr (None, z, [])"
    then obtain zones1 e1 where rest: "alloc_zones X dbg 0 zones = Inr (rng, zones1, e1)" and eq: "zones' = z # zones1"
      using Cons.prems(2) by (auto simp: bind_res_eq_Inr)
    from Cons.IH [OF zs rest] have IH: "zones_ok zones1" "map zone_extent zones1 = map zone_extent zones"
      "unat (range_start rng) \<in> pmm_addrs zones" "pmm_addrs zones1 = pmm_addrs zones - {unat (range_start rng)}" by auto
    then have "unat (range_start rng) \<notin> zone_addrs z" using apart by blast
    then have "pmm_addrs zones' = pmm_addrs (z # zones) - {unat (range_start rng)}"
      using IH by (simp add: eq pmm_addrs_Cons Un_Diff)
    moreover have "zones_ok zones'"
      unfolding eq by (rule zones_ok_Cons_extent [OF _ _ z dj]) (use IH in simp_all)
    ultimately show ?thesis using IH by (simp add: eq pmm_addrs_Cons)
  next
    fix c ol' e
    assume r: "zone_alloc X dbg 0 z = Inr (Some (block_range (range_start (pages z)) (unat (0 :: u8)) c), z\<lparr>order_list := ol'\<rparr>, e)"
    define z' where "z' = z\<lparr>order_list := ol'\<rparr>"
    have eq: "zone_alloc X dbg 0 z = Inr (Some rng, z', e)" "zones' = z' # zones"
      using r Cons.prems(2) by (simp_all add: z'_def)
    note head = zone_alloc_0 [OF assms(1) z eq(1)]
    then have "unat (range_start rng) \<notin> pmm_addrs zones" using apart by blast
    then have "pmm_addrs zones' = pmm_addrs (z # zones) - {unat (range_start rng)}"
      using head by (simp add: eq pmm_addrs_Cons Un_Diff)
    moreover have "zones_ok zones'" using head Cons.prems(1) by (simp add: eq zones_ok_def)
    ultimately show ?thesis using head by (simp add: eq pmm_addrs_Cons)
  qed
qed simp

lemma alloc_zones_serves:
  assumes "x86_64_laws X" "zones_ok zones" "pmm_addrs zones \<noteq> {}"
  obtains rng zones' ev where "alloc_zones X dbg 0 zones = Inr (rng, zones', ev)"
proof -
  obtain z c where z: "z \<in> set zones" "c \<in> zone_free_frames (zone_blocks z) (order_list z)"
    using assms(3) by (auto simp: pmm_addrs_def zone_addrs_def)
  then obtain i where "i < length zones" "zones ! i = z" by (auto simp: in_set_conv_nth)
  moreover have "blk 0 c \<subseteq> zone_free_frames (zone_blocks z) (order_list z)" using z(2) by (simp add: blk_def)
  ultimately have "List.find (\<lambda>i. has_block (unat (0 :: u8)) (zones ! i)) [0..<length zones] \<noteq> None"
    by (auto simp: find_None_iff has_block_def)
  with alloc_zones_first [OF assms(1), of zones 0 dbg] assms(2) that show ?thesis
    by (auto simp: zones_ok_def split: option.splits)
qed

subsection \<open>Release\<close>

lemma free_zones_panics:
  assumes "x86_64_laws X" "4096 dvd unat (range_start rng)" "4096 dvd unat (range_end rng)"
    and "list_all (\<lambda>z. length (order_list z) = MAX_ORDER + 1) zones"
  shows "\<exists>cause. free_zones X dbg rng zones = Inl cause"
  using assms(4)
proof (induction zones)
  case (Cons z zones)
  then obtain cause cause' where "zone_free X dbg rng z = Inl cause" "free_zones X dbg rng zones = Inl cause'"
    using zone_free_always_panics [OF assms(1) _ assms(2,3), of z dbg] by auto
  then show ?case by simp
qed simp

text \<open>
  Claim C36 (memory is never returned). \<^verbatim>\<open>PhysAllocator::free\<close> panics on every page-aligned range, whichever zone
  it belongs to, in both build profiles: the order is taken from the length in bytes, whose 12 low bits
  are zero, so it is beyond the order lists of the zone.
\<close>

theorem pmm_free_always_panics:
  assumes "x86_64_laws X" "list_all (\<lambda>z. length (order_list z) = MAX_ORDER + 1) zones"
    and "4096 dvd unat (range_start rng)" "4096 dvd unat (range_end rng)"
  shows "\<exists>cause. pmm_free X dbg rng (Some zones) = Inl cause"
  using free_zones_panics [OF assms(1,3,4,2), of dbg] by (auto simp: pmm_free_def)

theorem pmm_free_always_panics_witness:
  "\<exists>cause. pmm_free x86_64_ref False (block_range 0x1000 1 0) (Some [new_zone 0x1000 3, new_zone 0x100000 4]) = Inl cause"
  by (rule pmm_free_always_panics [OF x86_64_laws_ref])
     (simp_all add: new_zone_def new_lists_def MAX_ORDER_def block_range_def)

end
