(* ===== verification/Slob.thy ===== *)
theory Slob
  imports Pmm
begin

text \<open>
  Model of the kernel heap, \<^verbatim>\<open>src/src/mm/slob.rs\<close>: a free list of blocks sorted by address, threaded through
  the headers of the blocks.

  \<^item> A pointer is a \<open>u64\<close> and \<^verbatim>\<open>Option<NonNull<Block>>\<close> is \<open>u64 option\<close>. The memory is a function from
    addresses to the \<^verbatim>\<open>Block\<close> header that stands there: headers are 16 bytes long and 16-aligned, so two
    of them never overlap in part.
  \<^item> The heap's state is the list head, which \<^verbatim>\<open>HEAP\<close> guards with a spin lock, the memory, and the
    physical allocator that \<^verbatim>\<open>morecore\<close> calls.
  \<^item> The loops follow \<^verbatim>\<open>next\<close> pointers and would not end on a cyclic list. A result of type \<open>'a run\<close> is
    \<open>None\<close> for a loop that never ends, and otherwise a panic or a value.
\<close>

record slob_block =
  blk_size :: usize
  blk_next :: "u64 option"

type_synonym slob_mem = "u64 \<Rightarrow> slob_block"

record heap =
  hp_head :: "u64 option"
  hp_mem :: slob_mem
  hp_pmm :: pmm

definition size_of_slob_block :: usize where
  "size_of_slob_block = 16"

definition align_of_slob_block :: usize where
  "align_of_slob_block = 16"

abbreviation set_size :: "slob_mem \<Rightarrow> u64 \<Rightarrow> usize \<Rightarrow> slob_mem" where
  "set_size mem p n \<equiv> mem(p := (mem p)\<lparr>blk_size := n\<rparr>)"

abbreviation set_next :: "slob_mem \<Rightarrow> u64 \<Rightarrow> u64 option \<Rightarrow> slob_mem" where
  "set_next mem p q \<equiv> mem(p := (mem p)\<lparr>blk_next := q\<rparr>)"

subsection \<open>Blocks\<close>

definition nonnull :: "u64 \<Rightarrow> u64 res" where
  "nonnull p = (if p = 0 then Inl Unwrap_None else Inr p)"

definition offset_addr :: "bool \<Rightarrow> u64 \<Rightarrow> usize \<Rightarrow> u64 res" where
  "offset_addr dbg block sz =
     bind_res (add_w dbg sz size_of_slob_block) (\<lambda>n. nonnull (block + n))"

definition block_split_at :: "bool \<Rightarrow> slob_mem \<Rightarrow> u64 \<Rightarrow> usize \<Rightarrow> (slob_mem \<times> u64 \<times> u64) res" where
  "block_split_at dbg mem block alloc_len =
     bind_res (add_w dbg alloc_len size_of_slob_block) (\<lambda>total_len.
     bind_res (debug_assert dbg (total_len \<le> blk_size (mem block))) (\<lambda>_.
     bind_res (sub_w dbg (blk_size (mem block)) total_len) (\<lambda>remaining.
     bind_res (offset_addr dbg block alloc_len) (\<lambda>nxt.
     let mem1 = set_size mem nxt remaining;
         mem2 = set_next mem1 nxt (blk_next (mem1 block));
         mem3 = set_size mem2 block alloc_len;
         mem4 = set_next mem3 block (Some nxt) in
     Inr (mem4, block, nxt)))))"

definition try_merge :: "bool \<Rightarrow> slob_mem \<Rightarrow> u64 \<Rightarrow> u64 \<Rightarrow> (bool \<times> slob_mem) res" where
  "try_merge dbg mem left right =
     bind_res (debug_assert dbg (left < right)) (\<lambda>_.
     let msk = NOT (PAGE_SIZE - 1) in
     if left AND msk \<noteq> right AND msk then Inr (False, mem)
     else
       bind_res (offset_addr dbg left (blk_size (mem left))) (\<lambda>e.
       if e = right then
         bind_res (add_w dbg (blk_size (mem right)) size_of_slob_block) (\<lambda>n.
         bind_res (add_w dbg (blk_size (mem left)) n) (\<lambda>sz.
         let mem1 = set_size mem left sz;
             mem2 = set_next mem1 left (blk_next (mem1 right)) in
         Inr (True, mem2)))
       else Inr (False, mem)))"

definition allocation :: "u64 \<Rightarrow> u64" where
  "allocation block = block + size_of_slob_block"

definition from_allocation :: "u64 \<Rightarrow> u64 res" where
  "from_allocation ptr = nonnull (ptr - size_of_slob_block)"

subsection \<open>Release\<close>

text \<open>The body of \<^verbatim>\<open>dealloc_inner\<close> once the place in the list is found: between \<open>prev\<close> and \<open>cur\<close>, or at the end.\<close>

definition insert_between ::
  "bool \<Rightarrow> u64 option \<Rightarrow> slob_mem \<Rightarrow> u64 \<Rightarrow> u64 option \<Rightarrow> u64 \<Rightarrow> (u64 option \<times> slob_mem) res" where
  "insert_between dbg head mem block prev cur =
     (let mem1 = set_next mem block (Some cur) in
      bind_res
        (case prev of
           Some p \<Rightarrow>
             (let mem2 = set_next mem1 p (Some block) in
              bind_res (try_merge dbg mem2 p block) (\<lambda>(merged, mem3).
              Inr (head, mem3, if merged then p else block)))
         | None \<Rightarrow> Inr (Some block, mem1, block)) (\<lambda>(head', mem', block').
      bind_res (try_merge dbg mem' block' cur) (\<lambda>(_, mem'').
      Inr (head', mem''))))"

definition insert_last ::
  "bool \<Rightarrow> u64 option \<Rightarrow> slob_mem \<Rightarrow> u64 \<Rightarrow> u64 option \<Rightarrow> (u64 option \<times> slob_mem) res" where
  "insert_last dbg head mem block prev =
     (case prev of
        Some p \<Rightarrow>
          (let mem1 = set_next mem p (Some block);
               mem2 = set_next mem1 block None in
           bind_res (try_merge dbg mem2 p block) (\<lambda>(_, mem3). Inr (head, mem3)))
      | None \<Rightarrow> Inr (Some block, mem))"

partial_function (option) dealloc_scan ::
  "bool \<Rightarrow> u64 option \<Rightarrow> slob_mem \<Rightarrow> u64 \<Rightarrow> u64 option \<Rightarrow> u64 option \<Rightarrow> (u64 option \<times> slob_mem) run" where
  [code]: "dealloc_scan dbg head mem block prev cur_opt =
     (case cur_opt of
        None \<Rightarrow> Some (insert_last dbg head mem block prev)
      | Some cur \<Rightarrow>
          if cur = block then Some (Inl Assert_Failed)
          else if block < cur then Some (insert_between dbg head mem block prev cur)
          else dealloc_scan dbg head mem block cur_opt (blk_next (mem cur)))"

definition dealloc_inner :: "bool \<Rightarrow> u64 option \<Rightarrow> slob_mem \<Rightarrow> u64 \<Rightarrow> (u64 option \<times> slob_mem) run" where
  "dealloc_inner dbg head mem ptr =
     bind_run (Some (from_allocation ptr)) (\<lambda>block. dealloc_scan dbg head mem block None head)"

subsection \<open>Allocation\<close>

definition pages_order :: "bool \<Rightarrow> u64 \<Rightarrow> u8 res" where
  "pages_order dbg n =
     bind_res (next_power_of_two dbg n) (\<lambda>p. Inr (of_nat (trailing_zeros p)))"

definition morecore :: "x86_64 \<Rightarrow> bool \<Rightarrow> u64 \<Rightarrow> heap \<Rightarrow> (heap \<times> mem_event list) run" where
  "morecore X dbg n_pages h =
     bind_run (Some (pages_order dbg n_pages)) (\<lambda>order.
     bind_run (Some (pmm_alloc X dbg order (hp_pmm h))) (\<lambda>(rng, pmm', ev).
     bind_run (Some (phys_to_kernel_virt X dbg (range_start rng))) (\<lambda>p_block.
     bind_run (Some (mul_w dbg n_pages PAGE_SIZE)) (\<lambda>bytes.
     bind_run (Some (sub_w dbg bytes size_of_slob_block)) (\<lambda>sz.
     let mem1 = set_size (hp_mem h) p_block sz;
         mem2 = set_next mem1 p_block None in
     bind_run (Some (nonnull p_block)) (\<lambda>block.
     bind_run (Some (expect_some Unwrap_None (from_size_align sz 1))) (\<lambda>_.
     bind_run (dealloc_inner dbg (hp_head h) mem2 (allocation block)) (\<lambda>(head', mem').
     Some (Inr (h\<lparr>hp_head := head', hp_mem := mem', hp_pmm := pmm'\<rparr>, ev))))))))))"

definition set_link :: "u64 option \<Rightarrow> slob_mem \<Rightarrow> u64 option \<Rightarrow> u64 option \<Rightarrow> u64 option \<times> slob_mem" where
  "set_link head mem prev q =
     (case prev of Some p \<Rightarrow> (head, set_next mem p q) | None \<Rightarrow> (q, mem))"

partial_function (option) alloc_scan ::
  "bool \<Rightarrow> usize \<Rightarrow> usize \<Rightarrow> u64 option \<Rightarrow> slob_mem \<Rightarrow> u64 option \<Rightarrow> u64 option \<Rightarrow>
    (u64 \<times> u64 option \<times> slob_mem) option run" where
  [code]: "alloc_scan dbg alloc_len tot head mem prev cur_opt =
     (case cur_opt of
        None \<Rightarrow> Some (Inr None)
      | Some cur \<Rightarrow>
          if blk_size (mem cur) = alloc_len then
            Some (Inr (Some (allocation cur, set_link head mem prev (blk_next (mem cur)))))
          else if tot < blk_size (mem cur) then
            Some (bind_res (block_split_at dbg mem cur alloc_len) (\<lambda>(mem', left, right).
              Inr (Some (allocation left, set_link head mem' prev (Some right)))))
          else alloc_scan dbg alloc_len tot head mem cur_opt (blk_next (mem cur)))"

text \<open>The passes that \<^verbatim>\<open>for _ in 0..2\<close> has left.\<close>

primrec alloc_passes ::
  "nat \<Rightarrow> x86_64 \<Rightarrow> bool \<Rightarrow> usize \<Rightarrow> usize \<Rightarrow> heap \<Rightarrow> (u64 \<times> heap \<times> mem_event list) run" where
  "alloc_passes 0 X dbg alloc_len tot h = Some (Inl Unreachable)"
| "alloc_passes (Suc n) X dbg alloc_len tot h =
     bind_run (alloc_scan dbg alloc_len tot (hp_head h) (hp_mem h) None (hp_head h)) (\<lambda>found.
     case found of
       Some (ptr, head', mem') \<Rightarrow> Some (Inr (ptr, h\<lparr>hp_head := head', hp_mem := mem'\<rparr>, []))
     | None \<Rightarrow>
         bind_run (Some (add_w dbg tot PAGE_SIZE)) (\<lambda>bytes.
         bind_run (morecore X dbg (bytes div PAGE_SIZE) h) (\<lambda>(h', ev).
         bind_run (alloc_passes n X dbg alloc_len tot h') (\<lambda>(ptr, h'', ev').
         Some (Inr (ptr, h'', ev @ ev'))))))"

definition block_layout :: "Layout \<Rightarrow> (Layout \<times> usize) res" where
  "block_layout layout =
     expect_some Expect_Failed
       (map_option (\<lambda>(l, off). (pad_to_align l, off))
         (Option.bind (from_size_align size_of_slob_block align_of_slob_block)
           (\<lambda>l. layout_extend (pad_to_align l) layout)))"

definition alloc_inner ::
  "x86_64 \<Rightarrow> bool \<Rightarrow> Layout \<Rightarrow> heap \<Rightarrow> (u64 \<times> heap \<times> mem_event list) run" where
  "alloc_inner X dbg layout h =
     bind_run (Some (block_layout layout)) (\<lambda>(l, off).
     bind_run (Some (sub_w dbg (lay_size l) off)) (\<lambda>alloc_len.
     bind_run (Some (debug_assert dbg (off = size_of_slob_block))) (\<lambda>_.
     alloc_passes 2 X dbg alloc_len (lay_size l) h)))"

subsection \<open>The global allocator\<close>

definition heap_new :: "slob_mem \<Rightarrow> pmm \<Rightarrow> heap" where
  "heap_new mem pmm = \<lparr>hp_head = None, hp_mem = mem, hp_pmm = pmm\<rparr>"

definition heap_alloc ::
  "x86_64 \<Rightarrow> bool \<Rightarrow> Layout \<Rightarrow> heap \<Rightarrow> (u64 \<times> heap \<times> mem_event list) run" where
  "heap_alloc X dbg layout h = alloc_inner X dbg layout h"

definition heap_dealloc :: "bool \<Rightarrow> u64 \<Rightarrow> Layout \<Rightarrow> heap \<Rightarrow> heap run" where
  "heap_dealloc dbg ptr layout h =
     bind_run (dealloc_inner dbg (hp_head h) (hp_mem h) ptr) (\<lambda>(head', mem').
     Some (Inr (h\<lparr>hp_head := head', hp_mem := mem'\<rparr>)))"

text \<open>\<^verbatim>\<open>SlobAllocator::debug\<close>: the lines it logs.\<close>

partial_function (option) heap_debug :: "bool \<Rightarrow> slob_mem \<Rightarrow> u64 option \<Rightarrow> (u64 \<times> usize \<times> u64 option) list run" where
  [code]: "heap_debug dbg mem cur_opt =
     (case cur_opt of
        None \<Rightarrow> Some (Inr [])
      | Some cur \<Rightarrow>
          (case debug_assert dbg (blk_next (mem cur) \<noteq> Some cur) of
             Inl e \<Rightarrow> Some (Inl e)
           | Inr _ \<Rightarrow>
               Option.bind (heap_debug dbg mem (blk_next (mem cur))) (\<lambda>rest.
               Some (bind_res rest (\<lambda>ls.
                 Inr ((allocation cur, blk_size (mem cur), blk_next (mem cur)) # ls))))))"

end
