(* ===== verification/Slob_Spec.thy ===== *)
theory Slob_Spec
  imports Slob
begin

text \<open>
  The abstract specification of the heap. A free list is a list of chunks, each the address of a header
  and the number of bytes behind it; allocation takes the first chunk that fits, release puts a chunk in
  its place and joins it with its neighbours on the same page. The lemmas show what these operations do
  to the bytes that are free; \<^verbatim>\<open>Slob_Refine\<close> shows that the pointer code implements them.
\<close>

type_synonym chunk = "nat \<times> nat"

abbreviation cend :: "chunk \<Rightarrow> nat" where
  "cend c \<equiv> fst c + 16 + snd c"

definition chunk_bytes :: "chunk \<Rightarrow> nat set" where
  "chunk_bytes c = {fst c ..< cend c}"

definition chunks_bytes :: "chunk list \<Rightarrow> nat set" where
  "chunks_bytes cs = (\<Union>c \<in> set cs. chunk_bytes c)"

definition chunk_ok :: "chunk \<Rightarrow> bool" where
  "chunk_ok c \<longleftrightarrow> 16 dvd fst c \<and> 16 dvd snd c \<and> 0 < fst c \<and> cend c < 2 ^ 64"

definition free_ok :: "chunk list \<Rightarrow> bool" where
  "free_ok cs \<longleftrightarrow> list_all chunk_ok cs \<and> sorted_wrt (\<lambda>c d. cend c \<le> fst d) cs"

definition mergeable :: "chunk \<Rightarrow> chunk \<Rightarrow> bool" where
  "mergeable c d \<longleftrightarrow> fst c div 4096 = fst d div 4096 \<and> cend c = fst d"

definition merge :: "chunk \<Rightarrow> chunk \<Rightarrow> chunk" where
  "merge c d = (fst c, snd c + 16 + snd d)"

definition join :: "chunk \<Rightarrow> chunk list \<Rightarrow> chunk list" where
  "join c cs =
     (case cs of [] \<Rightarrow> [c] | d # ds \<Rightarrow> if mergeable c d then merge c d # ds else c # d # ds)"

fun free_chunk :: "chunk \<Rightarrow> chunk list \<Rightarrow> chunk list" where
  "free_chunk c [] = [c]"
| "free_chunk c (d # ds) =
     (if fst c < fst d then join c (d # ds)
      else if ds = [] \<or> fst c < fst (hd ds) then join d (join c ds)
      else d # free_chunk c ds)"

definition fits :: "nat \<Rightarrow> chunk \<Rightarrow> bool" where
  "fits n c \<longleftrightarrow> snd c = n \<or> n + 16 < snd c"

fun take_chunk :: "nat \<Rightarrow> chunk list \<Rightarrow> (chunk \<times> chunk list) option" where
  "take_chunk n [] = None"
| "take_chunk n (c # cs) =
     (if snd c = n then Some (c, cs)
      else if n + 16 < snd c then Some ((fst c, n), (fst c + 16 + n, snd c - (n + 16)) # cs)
      else map_option (\<lambda>(d, ds). (d, c # ds)) (take_chunk n cs))"

subsection \<open>Joining\<close>

lemma free_ok_simps [simp]:
  "free_ok []" "free_ok (c # cs) \<longleftrightarrow> chunk_ok c \<and> (\<forall>d \<in> set cs. cend c \<le> fst d) \<and> free_ok cs"
  by (auto simp: free_ok_def)

lemma free_ok_append:
  "free_ok (cs @ ds) \<longleftrightarrow> free_ok cs \<and> free_ok ds \<and> (\<forall>c \<in> set cs. \<forall>d \<in> set ds. cend c \<le> fst d)"
  by (auto simp: free_ok_def sorted_wrt_append)

lemma chunks_bytes_simps [simp]:
  "chunks_bytes [] = {}" "chunks_bytes (c # cs) = chunk_bytes c \<union> chunks_bytes cs"
  "chunks_bytes (cs @ ds) = chunks_bytes cs \<union> chunks_bytes ds"
  by (auto simp: chunks_bytes_def)

lemma merge_props:
  assumes "mergeable c d"
  shows "fst (merge c d) = fst c" "cend (merge c d) = cend d" "chunk_bytes (merge c d) = chunk_bytes c \<union> chunk_bytes d"
    "chunk_ok c \<Longrightarrow> chunk_ok d \<Longrightarrow> chunk_ok (merge c d)"
  using assms by (auto simp: mergeable_def merge_def chunk_bytes_def chunk_ok_def)

lemma join_bytes [simp]: "chunks_bytes (join c cs) = chunk_bytes c \<union> chunks_bytes cs"
  by (auto simp: join_def merge_props split: list.split)

lemma join_starts: "d \<in> set (join c cs) \<Longrightarrow> fst d = fst c \<or> d \<in> set cs"
  by (auto simp: join_def merge_props split: list.splits if_splits)

lemma join_ok: "free_ok (c # cs) \<Longrightarrow> free_ok (join c cs)"
  unfolding join_def by (cases cs) (auto simp: merge_props(1,4), fastforce simp: merge_def mergeable_def)

lemma free_ok_join_append: "free_ok (as @ c # cs) \<Longrightarrow> free_ok (as @ join c cs)"
  using join_ok [of c cs] by (auto simp: free_ok_append dest!: join_starts)

text \<open>Joining three chunks from the left, as the code does, or from the right gives the same list.\<close>

lemma join_join:
  assumes "free_ok (p # c # cs)"
  shows "join p (join c cs) = (if mergeable p c then join (merge p c) cs else p # join c cs)"
proof (cases cs)
  case (Cons d ds)
  then have "fst p \<le> fst c" "fst c \<le> fst d" using assms by auto
  then show ?thesis
    unfolding Cons by (auto simp: join_def mergeable_def merge_def)
qed (auto simp: join_def)

subsection \<open>Release\<close>

lemma free_chunk_append:
  assumes "\<forall>d \<in> set as. fst d < fst c" "\<forall>d \<in> set bs. fst c < fst d"
  shows "free_chunk c (as @ bs) = (if as = [] then join c bs else butlast as @ join (last as) (join c bs))"
  using assms(1)
proof (induction as)
  case Nil
  then show ?case using assms(2) by (cases bs) (auto simp: join_def)
next
  case (Cons a as)
  then have "\<not> fst c < fst a" by simp
  with Cons assms(2) show ?case by (cases as; cases bs) auto
qed

text \<open>A chunk that is disjoint from the free bytes has a place in the list.\<close>

lemma place_in_list:
  assumes "free_ok cs" "chunk_ok c" "chunk_bytes c \<inter> chunks_bytes cs = {}"
  obtains as bs where "cs = as @ bs" "\<forall>d \<in> set as. fst d < fst c" "\<forall>d \<in> set bs. fst c < fst d" "free_ok (as @ c # bs)"
proof -
  let ?as = "takeWhile (\<lambda>d. fst d < fst c) cs" and ?bs = "dropWhile (\<lambda>d. fst d < fst c) cs"
  have apart: "cend d \<le> fst c \<or> cend c \<le> fst d" if "d \<in> set cs" for d
  proof -
    have "chunk_bytes c \<inter> chunk_bytes d = {}" using assms(3) that by (auto simp: chunks_bytes_def)
    then show ?thesis unfolding chunk_bytes_def by (rule contrapos_pp) (auto simp: disjoint_iff not_le intro!: exI [of _ "max (fst c) (fst d)"])
  qed
  have ok: "free_ok (?as @ ?bs)" using assms(1) by simp
  have as: "\<forall>d \<in> set ?as. fst d < fst c" by (auto dest: set_takeWhileD)
  have bs: "\<forall>d \<in> set ?bs. fst c < fst d"
  proof (cases ?bs)
    case (Cons e es)
    then have "\<not> fst e < fst c" by (metis hd_dropWhile list.discI list.sel(1))
    moreover have "e \<in> set cs" using Cons by (metis list.set_intros(1) set_dropWhileD)
    ultimately have "cend c \<le> fst e" using apart [of e] by auto
    with ok Cons show ?thesis by (auto simp: free_ok_append)
  next
    case Nil
    show ?thesis unfolding Nil by simp
  qed
  have "\<forall>d \<in> set ?as. cend d \<le> fst c" using as apart set_takeWhileD [of _ _ cs] by fastforce
  moreover have "\<forall>d \<in> set ?bs. cend c \<le> fst d" using bs apart set_dropWhileD [of _ _ cs] by fastforce
  ultimately have "free_ok (?as @ c # ?bs)"
    using ok [unfolded free_ok_append] assms(2) by (simp add: free_ok_append)
  with as bs that [of ?as ?bs] show ?thesis by simp
qed

lemma free_chunk_ok:
  assumes "free_ok cs" "chunk_ok c" "chunk_bytes c \<inter> chunks_bytes cs = {}"
  shows "free_ok (free_chunk c cs)" "chunks_bytes (free_chunk c cs) = chunk_bytes c \<union> chunks_bytes cs"
proof -
  from assms obtain as bs where cs: "cs = as @ bs" "\<forall>d \<in> set as. fst d < fst c" "\<forall>d \<in> set bs. fst c < fst d"
    and ok: "free_ok (as @ c # bs)" by (rule place_in_list)
  note eq = free_chunk_append [OF cs(2,3), folded cs(1)]
  have "free_ok (free_chunk c cs) \<and> chunks_bytes (free_chunk c cs) = chunk_bytes c \<union> chunks_bytes cs"
  proof (cases as rule: rev_cases)
    case Nil
    then show ?thesis using ok eq cs(1) join_ok by simp
  next
    case (snoc as' p)
    then have "free_ok (as' @ p # join c bs)"
      using free_ok_join_append [of "as' @ [p]" c bs] ok by simp
    then show ?thesis using free_ok_join_append snoc eq cs(1) by auto
  qed
  then show "free_ok (free_chunk c cs)" "chunks_bytes (free_chunk c cs) = chunk_bytes c \<union> chunks_bytes cs" by auto
qed

subsection \<open>Allocation\<close>

lemma take_chunk_None: "take_chunk n cs = None \<longleftrightarrow> (\<forall>c \<in> set cs. \<not> fits n c)"
  by (induction cs) (auto simp: fits_def)

lemma take_chunk_Some:
  assumes "take_chunk n cs = Some (d, ds)"
  obtains as c bs where "cs = as @ c # bs" "\<forall>x \<in> set as. \<not> fits n x" "fits n c" "fst d = fst c" "snd d = n"
    "ds = as @ (if snd c = n then bs else (fst c + 16 + n, snd c - (n + 16)) # bs)"
  using assms
proof (induction cs arbitrary: ds thesis)
  case (Cons c cs)
  show ?case
  proof (cases "fits n c")
    case True
    with Cons.prems(2) show ?thesis by (intro Cons.prems(1) [of "[]" c cs]) (auto simp: fits_def split: if_splits)
  next
    case False
    then obtain ds' where ds': "take_chunk n cs = Some (d, ds')" "ds = c # ds'"
      using Cons.prems(2) by (auto simp: fits_def)
    show ?thesis
    proof (rule Cons.IH [OF _ ds'(1)])
      fix as c' bs
      assume "cs = as @ c' # bs" "\<forall>x \<in> set as. \<not> fits n x" "fits n c'" "fst d = fst c'" "snd d = n"
        "ds' = as @ (if snd c' = n then bs else (fst c' + 16 + n, snd c' - (n + 16)) # bs)"
      with False ds'(2) show ?thesis by (intro Cons.prems(1) [of "c # as" c' bs]) auto
    qed
  qed
qed simp

lemma take_chunk_ok:
  assumes "take_chunk n cs = Some (d, ds)" "free_ok cs" "16 dvd n"
  shows "snd d = n" "chunk_ok d" "free_ok ds" "chunks_bytes cs = chunk_bytes d \<union> chunks_bytes ds"
    "chunk_bytes d \<inter> chunks_bytes ds = {}"
proof -
  obtain as c bs where cs: "cs = as @ c # bs" and c: "fits n c" "fst d = fst c" "snd d = n"
    and ds: "ds = as @ (if snd c = n then bs else (fst c + 16 + n, snd c - (n + 16)) # bs)"
    using assms(1) by (rule take_chunk_Some)
  have d: "d = (fst c, n)" using c(2,3) by (simp add: prod_eq_iff)
  have ok: "chunk_ok c" "free_ok as" "free_ok bs" "\<forall>x \<in> set as. cend x \<le> fst c" "\<forall>x \<in> set bs. cend c \<le> fst x"
    "\<forall>x \<in> set as. \<forall>y \<in> set bs. cend x \<le> fst y"
    using assms(2) unfolding cs by (auto simp: free_ok_append)
  have rest: "chunk_ok (fst c + 16 + n, snd c - (n + 16))" if "snd c \<noteq> n"
    using that ok(1) c(1) assms(3) by (auto simp: chunk_ok_def fits_def dvd_diff_nat)
  show "snd d = n" by (fact c(3))
  show "chunk_ok d" using ok(1) c(1) assms(3) by (auto simp: d chunk_ok_def fits_def)
  show "free_ok ds" unfolding ds using ok rest c(1) by (fastforce simp: free_ok_append fits_def)
  have split: "chunk_bytes c = chunk_bytes d \<union> (if snd c = n then {} else chunk_bytes (fst c + 16 + n, snd c - (n + 16)))"
    using c(1) by (auto simp: d chunk_bytes_def fits_def)
  then show "chunks_bytes cs = chunk_bytes d \<union> chunks_bytes ds" unfolding cs ds by auto
  have "chunk_bytes d \<inter> chunks_bytes as = {}" "chunk_bytes d \<inter> chunks_bytes bs = {}"
    using ok(4,5) c(1) by (fastforce simp: d chunks_bytes_def chunk_bytes_def fits_def)+
  moreover have "chunk_bytes d \<inter> chunk_bytes (fst c + 16 + n, snd c - (n + 16)) = {}"
    by (auto simp: d chunk_bytes_def)
  ultimately show "chunk_bytes d \<inter> chunks_bytes ds = {}" unfolding ds by auto
qed

end
