(* ===== verification/Slob_Refine.thy ===== *)
theory Slob_Refine
  imports Slob_Spec
begin

text \<open>
  The pointer code of the heap implements the specification of \<^verbatim>\<open>Slob_Spec\<close>. \<open>rep mem p cs q\<close> relates a segment
  of the linked list in memory, from the pointer \<open>p\<close> to the pointer \<open>q\<close>, with the chunks it holds.
\<close>

abbreviation ptr_of :: "chunk \<Rightarrow> u64" where
  "ptr_of c \<equiv> of_nat (fst c)"

definition header :: "slob_mem \<Rightarrow> chunk \<Rightarrow> bool" where
  "header mem c \<longleftrightarrow> blk_size (mem (ptr_of c)) = of_nat (snd c)"

primrec rep :: "slob_mem \<Rightarrow> u64 option \<Rightarrow> chunk list \<Rightarrow> u64 option \<Rightarrow> bool" where
  "rep mem p [] q \<longleftrightarrow> p = q"
| "rep mem p (c # cs) q \<longleftrightarrow> p = Some (ptr_of c) \<and> header mem c \<and> rep mem (blk_next (mem (ptr_of c))) cs q"

lemma rep_append: "rep mem p (cs @ ds) q \<longleftrightarrow> (\<exists>r. rep mem p cs r \<and> rep mem r ds q)"
  by (induction cs arbitrary: p) auto

lemma rep_frame:
  "\<forall>c \<in> set cs. mem' (ptr_of c) = mem (ptr_of c) \<Longrightarrow> rep mem' p cs q \<longleftrightarrow> rep mem p cs q"
  by (induction cs arbitrary: p) (auto simp: header_def)

lemma chunk_ok_unat:
  assumes "chunk_ok c"
  shows "unat (ptr_of c) = fst c" "unat (of_nat (snd c) :: u64) = snd c" "ptr_of c \<noteq> 0"
proof -
  show u: "unat (ptr_of c) = fst c" "unat (of_nat (snd c) :: u64) = snd c"
    using assms by (auto simp: chunk_ok_def intro!: unat_of_nat_small)
  show "ptr_of c \<noteq> 0" using u(1) assms by (auto simp: chunk_ok_def)
qed

lemma ptr_of_less: "chunk_ok c \<Longrightarrow> chunk_ok d \<Longrightarrow> ptr_of c < ptr_of d \<longleftrightarrow> fst c < fst d"
  by (simp add: word_less_nat_alt chunk_ok_unat)

lemma ptr_of_eq: "chunk_ok c \<Longrightarrow> chunk_ok d \<Longrightarrow> ptr_of c = ptr_of d \<longleftrightarrow> fst c = fst d"
  using chunk_ok_unat(1) by metis

lemma free_ok_distinct:
  assumes "free_ok (as @ c # bs)" "d \<in> set as \<union> set bs"
  shows "ptr_of d \<noteq> ptr_of c"
proof -
  have "chunk_ok c" "chunk_ok d" using assms by (auto simp: free_ok_append free_ok_def list_all_iff)
  moreover have "fst d \<noteq> fst c" using assms by (fastforce simp: free_ok_append)
  ultimately show ?thesis by (simp add: ptr_of_eq)
qed

lemma add_w_of_nat: "m + n < 2 ^ 64 \<Longrightarrow> add_w dbg (of_nat m) (of_nat n) = Inr (of_nat (m + n) :: u64)"
  by (subst add_w_Inr) (simp_all add: unat_of_nat_small)

subsection \<open>Blocks\<close>

lemma offset_addr_eq:
  assumes "chunk_ok c" "n \<le> snd c"
  shows "offset_addr dbg (ptr_of c) (of_nat n) = Inr (of_nat (fst c + 16 + n))"
proof -
  have b: "fst c + 16 + n < 2 ^ 64" "0 < fst c" using assms by (auto simp: chunk_ok_def)
  then have "unat (of_nat (fst c + 16 + n) :: u64) = fst c + 16 + n" by (intro unat_of_nat_small) simp
  then have "(of_nat (fst c + 16 + n) :: u64) \<noteq> 0" using b(2) by (metis add_is_0 neq0_conv unat_0)
  moreover have "ptr_of c + (of_nat n + 16) = of_nat (fst c + 16 + n)" by simp
  moreover have "unat (of_nat n :: u64) = n" using b by (intro unat_of_nat_small) simp
  then have "add_w dbg (of_nat n) 16 = Inr (of_nat n + 16 :: u64)" using b by (intro add_w_Inr) simp
  ultimately show ?thesis by (simp only: offset_addr_def size_of_slob_block_def nonnull_def bind_res_Inr if_False)
qed

lemma same_page_iff:
  assumes "chunk_ok c" "chunk_ok d"
  shows "ptr_of c AND NOT (PAGE_SIZE - 1) = ptr_of d AND NOT (PAGE_SIZE - 1) \<longleftrightarrow> fst c div 4096 = fst d div 4096"
proof -
  have page: "unat (ptr_of c AND NOT (PAGE_SIZE - 1)) = fst c div 4096 * 4096" if "chunk_ok c" for c
  proof -
    have "PAGE_SIZE - 1 = (mask 12 :: u64)" by (simp add: PAGE_SIZE_def mask_eq_exp_minus_1)
    then have "ptr_of c AND NOT (PAGE_SIZE - 1) = ptr_of c - of_nat (fst c mod 4096)"
      by (simp add: word_and_not_eq_minus word_of_nat_and_mask)
    also have "\<dots> = of_nat (fst c - fst c mod 4096)" by (simp add: of_nat_diff)
    also have "unat \<dots> = fst c div 4096 * 4096"
      using that by (subst unat_of_nat_small) (auto simp: chunk_ok_def minus_mod_eq_div_mult)
    finally show ?thesis .
  qed
  then show ?thesis using page [OF assms(1)] page [OF assms(2)] by (auto simp: word_unat_eq_iff)
qed

lemma try_merge_eq:
  assumes "chunk_ok c" "chunk_ok d" "cend c \<le> fst d" "header mem c" "header mem d"
  shows "try_merge dbg mem (ptr_of c) (ptr_of d) = Inr (mergeable c d,
    if mergeable c d
    then mem(ptr_of c := (mem (ptr_of c))\<lparr>blk_size := of_nat (snd (merge c d)), blk_next := blk_next (mem (ptr_of d))\<rparr>)
    else mem)"
proof -
  have lt: "ptr_of c < ptr_of d" "ptr_of c \<noteq> ptr_of d" using assms by (auto simp: ptr_of_less ptr_of_eq)
  have e: "offset_addr dbg (ptr_of c) (blk_size (mem (ptr_of c))) = Inr (of_nat (cend c))"
    using offset_addr_eq [OF assms(1), of "snd c" dbg] assms(4) by (simp add: header_def)
  have "unat (of_nat (cend c) :: u64) = cend c" using assms(1) by (intro unat_of_nat_small) (simp add: chunk_ok_def)
  then have adj: "of_nat (cend c) = ptr_of d \<longleftrightarrow> cend c = fst d" using chunk_ok_unat(1) [OF assms(2)] by metis
  have n: "add_w dbg (of_nat (snd d)) 16 = Inr (of_nat (snd d + 16) :: u64)"
    using add_w_of_nat [of "snd d" 16 dbg] assms(2) by (simp add: chunk_ok_def)
  have sum: "add_w dbg (of_nat (snd c)) (of_nat (snd d + 16)) = Inr (of_nat (snd (merge c d)) :: u64)" if "mergeable c d"
  proof -
    have "snd c + (snd d + 16) < 2 ^ 64" using merge_props(4) [OF that assms(1,2)] by (simp add: chunk_ok_def merge_def)
    from add_w_of_nat [OF this, of dbg] show ?thesis by (simp add: merge_def add_ac del: of_nat_add)
  qed
  show ?thesis
  proof (cases "mergeable c d")
    case True
    then have "fst c div 4096 = fst d div 4096" "cend c = fst d" by (simp_all add: mergeable_def)
    with lt e adj assms(4,5) sum [OF True] n True show ?thesis
      by (simp add: try_merge_def Let_def same_page_iff [OF assms(1,2)] header_def size_of_slob_block_def
          del: of_nat_add)
  next
    case False
    with lt e adj show ?thesis
      by (auto simp: try_merge_def Let_def same_page_iff [OF assms(1,2)] mergeable_def simp del: of_nat_add)
  qed
qed

text \<open>Joining a chunk of the list with its successor changes at most the header of the chunk.\<close>

lemma try_merge_join:
  assumes "rep mem head (as @ c # d # ds) None" "free_ok (as @ c # d # ds)"
  obtains mem' where "try_merge dbg mem (ptr_of c) (ptr_of d) = Inr (mergeable c d, mem')"
    "rep mem' head (as @ join c (d # ds)) None" "\<And>x. x \<noteq> ptr_of c \<Longrightarrow> mem' x = mem x"
proof -
  obtain r where r: "rep mem head as r" "r = Some (ptr_of c)" "header mem c" "blk_next (mem (ptr_of c)) = Some (ptr_of d)"
    "header mem d" "rep mem (blk_next (mem (ptr_of d))) ds None"
    using assms(1) by (auto simp: rep_append)
  have ok: "chunk_ok c" "chunk_ok d" "cend c \<le> fst d" using assms(2) by (auto simp: free_ok_append)
  note eq = try_merge_eq [OF ok r(3,5), of dbg]
  show ?thesis
  proof (cases "mergeable c d")
    case False
    then show ?thesis using that [OF eq] assms(1) by (simp add: join_def)
  next
    case True
    let ?mem = "mem(ptr_of c := (mem (ptr_of c))\<lparr>blk_size := of_nat (snd (merge c d)), blk_next := blk_next (mem (ptr_of d))\<rparr>)"
    have "\<forall>x \<in> set as \<union> set ds. ?mem (ptr_of x) = mem (ptr_of x)"
      using free_ok_distinct [OF assms(2)] by auto
    then have "rep ?mem head (as @ join c (d # ds)) None"
      using r True rep_frame [of as ?mem mem] rep_frame [of ds ?mem mem]
      by (auto simp: rep_append join_def header_def merge_props(1))
    with that [OF eq] True show ?thesis by simp
  qed
qed

subsection \<open>Release\<close>

definition prev_of :: "chunk list \<Rightarrow> u64 option" where
  "prev_of as = (if as = [] then None else Some (ptr_of (last as)))"

lemma prev_of_simps [simp]: "prev_of [] = None" "prev_of (as @ [a]) = Some (ptr_of a)"
  by (simp_all add: prev_of_def)

text \<open>The scan passes over the chunks below the one that is released.\<close>

lemma dealloc_scan_skip:
  assumes "rep mem cur as r" "\<forall>d \<in> set as. fst d < fst c" "list_all chunk_ok as" "chunk_ok c"
  shows "dealloc_scan dbg head mem (ptr_of c) (prev_of zs) cur = dealloc_scan dbg head mem (ptr_of c) (prev_of (zs @ as)) r"
  using assms(1-3)
proof (induction as arbitrary: cur zs)
  case (Cons a as)
  then have "ptr_of a \<noteq> ptr_of c" "\<not> ptr_of c < ptr_of a" and cur: "cur = Some (ptr_of a)"
    and rest: "rep mem (blk_next (mem (ptr_of a))) as r"
    using assms(4) by (auto simp: ptr_of_less ptr_of_eq)
  then have "dealloc_scan dbg head mem (ptr_of c) (prev_of zs) cur
      = dealloc_scan dbg head mem (ptr_of c) (prev_of (zs @ [a])) (blk_next (mem (ptr_of a)))"
    by (subst dealloc_scan.simps) simp
  with Cons.IH [OF rest, of "zs @ [a]"] Cons.prems show ?case by simp
qed simp

lemma insert_last_refines:
  assumes "rep mem head (as @ [p]) None" "free_ok (as @ [p, c])" "header mem c"
  obtains mem' where "insert_last dbg head mem (ptr_of c) (Some (ptr_of p)) = Inr (head, mem')"
    "rep mem' head (as @ join p [c]) None" "\<And>x. x \<notin> {ptr_of c, ptr_of p} \<Longrightarrow> mem' x = mem x"
proof -
  let ?mem = "set_next (set_next mem (ptr_of p) (Some (ptr_of c))) (ptr_of c) None"
  have diff: "ptr_of p \<noteq> ptr_of c" "\<forall>x \<in> set as. ptr_of x \<noteq> ptr_of c \<and> ptr_of x \<noteq> ptr_of p"
    using free_ok_distinct [of "as @ [p]" c "[]"] free_ok_distinct [of as p "[c]"] assms(2) by auto
  then have "rep ?mem head (as @ p # c # []) None"
    using assms(1,3) rep_frame [of as ?mem mem] by (auto simp: rep_append header_def)
  moreover have "free_ok (as @ p # c # [])" using assms(2) by simp
  ultimately obtain mem' where "try_merge dbg ?mem (ptr_of p) (ptr_of c) = Inr (mergeable p c, mem')"
    "rep mem' head (as @ join p [c]) None" "\<And>x. x \<noteq> ptr_of p \<Longrightarrow> mem' x = ?mem x"
    by (rule try_merge_join) blast
  with that [of mem'] show ?thesis by (simp add: insert_last_def)
qed

lemma insert_first_refines:
  assumes "rep mem head (b # bs) None" "free_ok (c # b # bs)" "header mem c"
  obtains mem' where "insert_between dbg head mem (ptr_of c) None (ptr_of b) = Inr (Some (ptr_of c), mem')"
    "rep mem' (Some (ptr_of c)) (join c (b # bs)) None" "\<And>x. x \<noteq> ptr_of c \<Longrightarrow> mem' x = mem x"
proof -
  let ?mem = "set_next mem (ptr_of c) (Some (ptr_of b))"
  have "\<forall>x \<in> set (b # bs). ?mem (ptr_of x) = mem (ptr_of x)"
    using free_ok_distinct [of "[]" c "b # bs"] assms(2) by auto
  then have "rep ?mem (Some (ptr_of c)) ([] @ c # b # bs) None"
    using assms(1,3) rep_frame [of "b # bs" ?mem mem] by (auto simp: header_def)
  then obtain mem' where "try_merge dbg ?mem (ptr_of c) (ptr_of b) = Inr (mergeable c b, mem')"
    "rep mem' (Some (ptr_of c)) ([] @ join c (b # bs)) None" "\<And>x. x \<noteq> ptr_of c \<Longrightarrow> mem' x = ?mem x"
    by (rule try_merge_join) (use assms(2) in auto)
  with that [of mem'] show ?thesis by (simp add: insert_between_def)
qed

lemma insert_between_refines:
  assumes "rep mem head (as @ p # b # bs) None" "free_ok (as @ p # c # b # bs)" "header mem c"
  obtains mem' where "insert_between dbg head mem (ptr_of c) (Some (ptr_of p)) (ptr_of b) = Inr (head, mem')"
    "rep mem' head (as @ join p (join c (b # bs))) None" "\<And>x. x \<notin> {ptr_of c, ptr_of p} \<Longrightarrow> mem' x = mem x"
proof -
  let ?mem = "set_next (set_next mem (ptr_of c) (Some (ptr_of b))) (ptr_of p) (Some (ptr_of c))"
  have diff: "ptr_of p \<noteq> ptr_of c" "\<forall>x \<in> set as \<union> set (b # bs). ptr_of x \<noteq> ptr_of c \<and> ptr_of x \<noteq> ptr_of p"
    using free_ok_distinct [of "as @ [p]" c "b # bs"] free_ok_distinct [of as p "c # b # bs"] assms(2) by auto
  then have "rep ?mem head (as @ p # c # b # bs) None"
    using assms(1,3) rep_frame [of as ?mem mem] rep_frame [of "b # bs" ?mem mem] by (auto simp: rep_append header_def)
  then obtain mem1 where m1: "try_merge dbg ?mem (ptr_of p) (ptr_of c) = Inr (mergeable p c, mem1)"
    "rep mem1 head (as @ join p (c # b # bs)) None" "\<And>x. x \<noteq> ptr_of p \<Longrightarrow> mem1 x = ?mem x"
    by (rule try_merge_join [OF _ assms(2)]) blast
  have jj: "join p (join c (b # bs)) = (if mergeable p c then join (merge p c) (b # bs) else p # join c (b # bs))"
    using assms(2) by (intro join_join) (simp add: free_ok_append)
  have ok1: "free_ok (as @ join p (c # b # bs))" using assms(2) by (rule free_ok_join_append)
  show ?thesis
  proof (cases "mergeable p c")
    case True
    then obtain mem2 where "try_merge dbg mem1 (ptr_of p) (ptr_of b) = Inr (mergeable (merge p c) b, mem2)"
      "rep mem2 head (as @ join (merge p c) (b # bs)) None" "\<And>x. x \<noteq> ptr_of p \<Longrightarrow> mem2 x = mem1 x"
      using try_merge_join [of mem1 head as "merge p c" b bs dbg] m1(2) ok1 by (auto simp: join_def merge_props(1))
    with that [of mem2] m1 jj True show ?thesis by (simp add: insert_between_def)
  next
    case False
    then obtain mem2 where "try_merge dbg mem1 (ptr_of c) (ptr_of b) = Inr (mergeable c b, mem2)"
      "rep mem2 head ((as @ [p]) @ join c (b # bs)) None" "\<And>x. x \<noteq> ptr_of c \<Longrightarrow> mem2 x = mem1 x"
      using try_merge_join [of mem1 head "as @ [p]" c b bs dbg] m1(2) ok1 by (auto simp: join_def)
    with that [of mem2] m1 jj False show ?thesis by (simp add: insert_between_def)
  qed
qed

lemma from_allocation_eq: "chunk_ok c \<Longrightarrow> from_allocation (allocation (ptr_of c)) = Inr (ptr_of c)"
  using chunk_ok_unat(3) [of c] by (simp add: from_allocation_def allocation_def nonnull_def)

lemma dealloc_refines:
  assumes "rep mem head cs None" "free_ok cs" "chunk_ok c" "header mem c" "chunk_bytes c \<inter> chunks_bytes cs = {}"
    and "cs \<noteq> [] \<or> blk_next (mem (ptr_of c)) = None"
  obtains head' mem' where "dealloc_inner dbg head mem (allocation (ptr_of c)) = Some (Inr (head', mem'))"
    "rep mem' head' (free_chunk c cs) None" "\<And>x. x \<notin> ptr_of ` set (c # cs) \<Longrightarrow> mem' x = mem x"
proof -
  from assms(2,3,5) obtain as bs where cs: "cs = as @ bs" "\<forall>d \<in> set as. fst d < fst c" "\<forall>d \<in> set bs. fst c < fst d"
    and ok: "free_ok (as @ c # bs)" by (rule place_in_list)
  obtain r where r: "rep mem head as r" "rep mem r bs None" using assms(1) by (auto simp: cs(1) rep_append)
  have "list_all chunk_ok as" using assms(2) by (simp add: cs(1) free_ok_def)
  from dealloc_scan_skip [OF r(1) cs(2) this assms(3), of dbg head "[]"]
  have run: "dealloc_inner dbg head mem (allocation (ptr_of c)) = dealloc_scan dbg head mem (ptr_of c) (prev_of as) r"
    by (simp add: dealloc_inner_def from_allocation_eq [OF assms(3)])
  note eq = free_chunk_append [OF cs(2,3), folded cs(1)]
  show ?thesis
  proof (cases bs)
    case Nil
    then have last: "dealloc_scan dbg head mem (ptr_of c) (prev_of as) r = Some (insert_last dbg head mem (ptr_of c) (prev_of as))"
      using r(2) by (subst dealloc_scan.simps) simp
    show ?thesis
    proof (cases as rule: rev_cases)
      case as: Nil
      then show ?thesis
        using that [of "Some (ptr_of c)" mem] run last assms(4,6) Nil cs(1) by (simp add: insert_last_def)
    next
      case (snoc as' p)
      then obtain mem' where "insert_last dbg head mem (ptr_of c) (Some (ptr_of p)) = Inr (head, mem')"
        "rep mem' head (as' @ join p [c]) None" "\<And>x. x \<notin> {ptr_of c, ptr_of p} \<Longrightarrow> mem' x = mem x"
        using insert_last_refines [of mem head as' p c dbg] assms(1,4) ok Nil cs(1) by auto
      with that [of head mem'] run last eq snoc Nil cs(1) show ?thesis by (simp add: join_def)
    qed
  next
    case (Cons b bs')
    then have "chunk_ok b" "fst c < fst b" "r = Some (ptr_of b)" using assms(2) cs r(2) by (auto simp: free_ok_append)
    then have betw: "dealloc_scan dbg head mem (ptr_of c) (prev_of as) r
        = Some (insert_between dbg head mem (ptr_of c) (prev_of as) (ptr_of b))"
      using assms(3) by (subst dealloc_scan.simps) (simp add: ptr_of_less ptr_of_eq)
    show ?thesis
    proof (cases as rule: rev_cases)
      case Nil
      then obtain mem' where "insert_between dbg head mem (ptr_of c) None (ptr_of b) = Inr (Some (ptr_of c), mem')"
        "rep mem' (Some (ptr_of c)) (join c (b # bs')) None" "\<And>x. x \<noteq> ptr_of c \<Longrightarrow> mem' x = mem x"
        using insert_first_refines [of mem head b bs' c dbg] assms(1,4) ok Cons cs(1) by auto
      with that [of "Some (ptr_of c)" mem'] run betw eq Nil Cons show ?thesis by simp
    next
      case (snoc as' p)
      then obtain mem' where "insert_between dbg head mem (ptr_of c) (Some (ptr_of p)) (ptr_of b) = Inr (head, mem')"
        "rep mem' head (as' @ join p (join c (b # bs'))) None" "\<And>x. x \<notin> {ptr_of c, ptr_of p} \<Longrightarrow> mem' x = mem x"
        using insert_between_refines [of mem head as' p b bs' c dbg] assms(1,4) ok Cons cs(1) by auto
      with that [of head mem'] run betw eq snoc Cons cs(1) show ?thesis by simp
    qed
  qed
qed

subsection \<open>Allocation\<close>

lemma alloc_scan_skip:
  assumes "rep mem cur as r" "\<forall>d \<in> set as. \<not> fits n d" "list_all chunk_ok as" "n + 16 < 2 ^ 64"
  shows "alloc_scan dbg (of_nat n) (of_nat (n + 16)) head mem (prev_of zs) cur
    = alloc_scan dbg (of_nat n) (of_nat (n + 16)) head mem (prev_of (zs @ as)) r"
  using assms(1-3)
proof (induction as arbitrary: cur zs)
  case (Cons a as)
  have "unat (of_nat n :: u64) = n" "unat (of_nat (n + 16) :: u64) = n + 16" "unat (of_nat (snd a) :: u64) = snd a"
    using assms(4) Cons.prems(3) unat_of_nat_small [of n, where 'a = 64] unat_of_nat_small [of "n + 16", where 'a = 64]
    by (simp_all add: chunk_ok_unat)
  then have "of_nat (snd a) \<noteq> (of_nat n :: u64)" "\<not> (of_nat (n + 16) :: u64) < of_nat (snd a)"
    using Cons.prems(2) by (auto simp: fits_def word_less_nat_alt simp del: of_nat_add)
  then have "alloc_scan dbg (of_nat n) (of_nat (n + 16)) head mem (prev_of zs) cur
      = alloc_scan dbg (of_nat n) (of_nat (n + 16)) head mem (prev_of (zs @ [a])) (blk_next (mem (ptr_of a)))"
    using Cons.prems(1) by (subst alloc_scan.simps) (simp add: header_def del: of_nat_add)
  with Cons.IH [of "blk_next (mem (ptr_of a))" "zs @ [a]"] Cons.prems show ?case by (simp del: of_nat_add)
qed simp

lemma set_link_refines:
  assumes "rep mem head as (Some q)" "rep mem r bs None" "\<forall>b \<in> set bs. \<forall>a \<in> set as. ptr_of b \<noteq> ptr_of a"
    and "distinct (map ptr_of as)" "set_link head mem (prev_of as) r = (head', mem')"
  shows "rep mem' head' (as @ bs) None" "\<And>x. x \<notin> ptr_of ` set as \<Longrightarrow> mem' x = mem x"
proof -
  have "rep mem' head' (as @ bs) None \<and> (\<forall>x. x \<notin> ptr_of ` set as \<longrightarrow> mem' x = mem x)"
  proof (cases as rule: rev_cases)
    case Nil
    then show ?thesis using assms(2,5) by (simp add: set_link_def)
  next
    case (snoc as' p)
    then have mem': "mem' = set_next mem (ptr_of p) r" "head' = head" using assms(5) by (auto simp: set_link_def)
    have "\<forall>x \<in> set as' \<union> set bs. mem' (ptr_of x) = mem (ptr_of x)"
      using assms(3,4) by (auto simp: snoc mem' image_iff)
    then show ?thesis
      using assms(1,2) rep_frame [of as' mem' mem] rep_frame [of bs mem' mem] snoc
      by (auto simp: rep_append header_def mem')
  qed
  then show "rep mem' head' (as @ bs) None" "\<And>x. x \<notin> ptr_of ` set as \<Longrightarrow> mem' x = mem x" by auto
qed

lemma block_split_at_eq:
  assumes "chunk_ok c" "n + 16 < snd c" "header mem c"
  defines "q \<equiv> of_nat (fst c + 16 + n) :: u64"
  shows "block_split_at dbg mem (ptr_of c) (of_nat n) = Inr
    (mem(q := (mem q)\<lparr>blk_size := of_nat (snd c - (n + 16)), blk_next := blk_next (mem (ptr_of c))\<rparr>,
         ptr_of c := (mem (ptr_of c))\<lparr>blk_size := of_nat n, blk_next := Some q\<rparr>), ptr_of c, q)"
    and "q \<noteq> ptr_of c" and "unat q = fst c + 16 + n"
proof -
  have b: "fst c + 16 + n < 2 ^ 64" using assms(1,2) by (simp add: chunk_ok_def)
  then show u: "unat q = fst c + 16 + n" unfolding q_def by (intro unat_of_nat_small) simp
  then show q: "q \<noteq> ptr_of c" using chunk_ok_unat(1) [OF assms(1)] by auto
  have add: "add_w dbg (of_nat n) 16 = Inr (of_nat (n + 16) :: u64)" using add_w_of_nat [of n 16 dbg] b by simp
  have sz: "blk_size (mem (ptr_of c)) = of_nat (snd c)" using assms(3) by (simp add: header_def)
  have "unat (of_nat (n + 16) :: u64) = n + 16" using b by (intro unat_of_nat_small) simp
  then have "(of_nat (n + 16) :: u64) \<le> of_nat (snd c)"
    "sub_w dbg (of_nat (snd c)) (of_nat (n + 16)) = Inr (of_nat (snd c - (n + 16)) :: u64)"
    using assms(2) chunk_ok_unat(2) [OF assms(1)] by (simp_all add: word_le_nat_alt sub_w_Inr of_nat_diff)
  with offset_addr_eq [OF assms(1), of n dbg] assms(2) add sz q
  show "block_split_at dbg mem (ptr_of c) (of_nat n) = Inr
      (mem(q := (mem q)\<lparr>blk_size := of_nat (snd c - (n + 16)), blk_next := blk_next (mem (ptr_of c))\<rparr>,
         ptr_of c := (mem (ptr_of c))\<lparr>blk_size := of_nat n, blk_next := Some q\<rparr>), ptr_of c, q)"
    unfolding block_split_at_def size_of_slob_block_def q_def [symmetric]
    by (simp add: Let_def del: of_nat_add)
qed

lemma ptr_of_free_distinct:
  assumes "free_ok cs"
  shows "distinct (map ptr_of cs)"
  using assms
proof (induction cs)
  case (Cons c cs)
  have "ptr_of c \<notin> ptr_of ` set cs"
  proof
    assume "ptr_of c \<in> ptr_of ` set cs"
    then obtain d where d: "ptr_of c = ptr_of d" "d \<in> set cs" by (rule imageE)
    have "ptr_of d \<noteq> ptr_of c" by (rule free_ok_distinct [of "[]" _ cs]) (use d(2) Cons.prems in simp_all)
    with d(1) show False by simp
  qed
  with Cons show ?case by simp
qed simp

lemma in_chunks_bytes: "c \<in> set cs \<Longrightarrow> fst c \<le> x \<Longrightarrow> x < cend c \<Longrightarrow> x \<in> chunks_bytes cs"
  by (auto simp: chunks_bytes_def chunk_bytes_def)

lemma chunks_bytes_header: "free_ok cs \<Longrightarrow> c \<in> set cs \<Longrightarrow> unat (ptr_of c) \<in> chunks_bytes cs"
  by (rule in_chunks_bytes [of c]) (auto simp: free_ok_def list_all_iff chunk_ok_unat)

lemma list_parts:
  assumes "rep mem head (as @ c # bs) None" "free_ok (as @ c # bs)"
  shows "rep mem head as (Some (ptr_of c))" "header mem c" "rep mem (blk_next (mem (ptr_of c))) bs None"
    "chunk_ok c" "list_all chunk_ok as" "distinct (map ptr_of as)" "ptr_of c \<notin> ptr_of ` set as"
    "ptr_of c \<notin> ptr_of ` set bs" "\<forall>b \<in> set bs. \<forall>a \<in> set as. ptr_of b \<noteq> ptr_of a"
proof -
  show "rep mem head as (Some (ptr_of c))" "header mem c" "rep mem (blk_next (mem (ptr_of c))) bs None"
    using assms(1) by (auto simp: rep_append)
  show "chunk_ok c" "list_all chunk_ok as" using assms(2) by (auto simp: free_ok_append free_ok_def)
  have "distinct (map ptr_of as @ ptr_of c # map ptr_of bs)" using ptr_of_free_distinct [OF assms(2)] by simp
  then have dist: "distinct (map ptr_of as)" "ptr_of c \<notin> set (map ptr_of as)" "ptr_of c \<notin> set (map ptr_of bs)"
    "set (map ptr_of as) \<inter> set (map ptr_of bs) = {}"
    by (simp_all only: distinct_append distinct.simps list.set) blast+
  then show "distinct (map ptr_of as)" "ptr_of c \<notin> ptr_of ` set as" "ptr_of c \<notin> ptr_of ` set bs"
    by (simp_all only: set_map not_False_eq_True)
  show "\<forall>b \<in> set bs. \<forall>a \<in> set as. ptr_of b \<noteq> ptr_of a" using dist(4) unfolding set_map by blast
qed

lemma alloc_exact_refines:
  assumes "rep mem head (as @ c # bs) None" "free_ok (as @ c # bs)"
  obtains head' mem' where
    "alloc_scan dbg (of_nat (snd c)) tot head mem (prev_of as) (Some (ptr_of c))
      = Some (Inr (Some (allocation (ptr_of c), head', mem')))"
    "rep mem' head' (as @ bs) None" "header mem' c" "\<And>x. x \<notin> ptr_of ` set as \<Longrightarrow> mem' x = mem x"
proof -
  note parts = list_parts [OF assms]
  obtain head' mem' where link: "set_link head mem (prev_of as) (blk_next (mem (ptr_of c))) = (head', mem')" by force
  note res = set_link_refines [OF parts(1,3,9,6) link]
  have "header mem' c" using parts(2) res(2) [OF parts(7)] by (simp add: header_def)
  moreover have "alloc_scan dbg (of_nat (snd c)) tot head mem (prev_of as) (Some (ptr_of c))
      = Some (Inr (Some (allocation (ptr_of c), head', mem')))"
    using parts(2) link by (subst alloc_scan.simps) (simp add: header_def)
  ultimately show ?thesis using that res by blast
qed

lemma alloc_split_refines:
  assumes "rep mem head (as @ c # bs) None" "free_ok (as @ c # bs)" "n + 16 < snd c" "16 dvd n"
  defines "q \<equiv> (fst c + 16 + n, snd c - (n + 16))"
  obtains head' mem' where
    "alloc_scan dbg (of_nat n) (of_nat (n + 16)) head mem (prev_of as) (Some (ptr_of c))
      = Some (Inr (Some (allocation (ptr_of c), head', mem')))"
    "rep mem' head' (as @ q # bs) None" "header mem' (fst c, n)"
    "\<And>x. x \<notin> ptr_of ` set as \<union> {ptr_of c, ptr_of q} \<Longrightarrow> mem' x = mem x"
proof -
  note parts = list_parts [OF assms(1,2)]
  define m where "m = mem(ptr_of q := (mem (ptr_of q))\<lparr>blk_size := of_nat (snd q), blk_next := blk_next (mem (ptr_of c))\<rparr>,
      ptr_of c := (mem (ptr_of c))\<lparr>blk_size := of_nat n, blk_next := Some (ptr_of q)\<rparr>)"
  have fq: "fst q = fst c + 16 + n" "snd q = snd c - (n + 16)" by (simp_all add: q_def)
  note split = block_split_at_eq [OF parts(4) assms(3) parts(2), folded fq, folded m_def]
  have "take_chunk n [c] = Some ((fst c, n), [q])" using assms(3) by (simp add: q_def)
  from take_chunk_ok(3) [OF this _ assms(4)] parts(4) have "chunk_ok q" by simp
  then have "free_ok (as @ q # bs)" using assms(2,3) by (fastforce simp: free_ok_append q_def)
  then have qs: "\<forall>x \<in> set as \<union> set bs. ptr_of x \<noteq> ptr_of q" using free_ok_distinct by blast
  have same: "\<forall>x \<in> set as \<union> set bs. m (ptr_of x) = mem (ptr_of x)"
    using qs parts(7,8) by (auto simp: m_def image_iff)
  have mq: "header m q" "blk_next (m (ptr_of q)) = blk_next (mem (ptr_of c))" "header m (fst c, n)"
    using split(2) by (simp_all add: m_def header_def)
  have reps: "rep m head as (Some (ptr_of c))" "rep m (Some (ptr_of q)) (q # bs) None"
    using parts(1,3) same mq rep_frame [of as m mem] rep_frame [of bs m mem] by auto
  obtain head' mem' where link: "set_link head m (prev_of as) (Some (ptr_of q)) = (head', mem')" by force
  have "\<forall>b \<in> set (q # bs). \<forall>a \<in> set as. ptr_of b \<noteq> ptr_of a" using parts(9) qs by (metis UnI1 set_ConsD)
  note res = set_link_refines [OF reps this parts(6) link]
  have "header mem' (fst c, n)" using mq(3) res(2) [OF parts(7)] by (simp add: header_def)
  moreover have "(of_nat (snd c) :: u64) \<noteq> of_nat n" "(of_nat (n + 16) :: u64) < of_nat (snd c)"
    using assms(3) chunk_ok_unat(2) [OF parts(4)] unat_of_nat_small [of n, where 'a = 64]
      unat_of_nat_small [of "n + 16", where 'a = 64] parts(4)
    by (auto simp: word_less_nat_alt chunk_ok_def simp del: of_nat_add)
  then have "alloc_scan dbg (of_nat n) (of_nat (n + 16)) head mem (prev_of as) (Some (ptr_of c))
      = Some (Inr (Some (allocation (ptr_of c), head', mem')))"
    using parts(2) link split(1) by (subst alloc_scan.simps) (simp add: header_def del: of_nat_add)
  moreover have "mem' x = mem x" if "x \<notin> ptr_of ` set as \<union> {ptr_of c, ptr_of q}" for x
    using res(2) [of x] that by (simp add: m_def)
  ultimately show ?thesis using that res(1) by blast
qed

lemma alloc_scan_found:
  assumes "rep mem head cs None" "free_ok cs" "16 dvd n" "n + 16 < 2 ^ 64" "take_chunk n cs = Some (d, ds)"
  obtains head' mem' where
    "alloc_scan dbg (of_nat n) (of_nat (n + 16)) head mem None head = Some (Inr (Some (allocation (ptr_of d), head', mem')))"
    "rep mem' head' ds None" "header mem' d" "\<And>x. unat x \<notin> chunks_bytes cs \<Longrightarrow> mem' x = mem x"
proof -
  obtain as c bs where cs: "cs = as @ c # bs" "\<forall>x \<in> set as. \<not> fits n x" and c: "fits n c" "fst d = fst c" "snd d = n"
    and ds: "ds = as @ (if snd c = n then bs else (fst c + 16 + n, snd c - (n + 16)) # bs)"
    using assms(5) by (rule take_chunk_Some)
  note list = assms(1,2) [unfolded cs(1)] and parts = list_parts [OF assms(1,2) [unfolded cs(1)]]
  from alloc_scan_skip [OF parts(1) cs(2) parts(5) assms(4), of dbg head "[]"]
  have run: "alloc_scan dbg (of_nat n) (of_nat (n + 16)) head mem None head
      = alloc_scan dbg (of_nat n) (of_nat (n + 16)) head mem (prev_of as) (Some (ptr_of c))" by (simp del: of_nat_add)
  have inside: "x \<notin> ptr_of ` set cs" if "unat x \<notin> chunks_bytes cs" for x
    using that chunks_bytes_header [OF assms(2)] by auto
  show ?thesis
  proof (cases "snd c = n")
    case True
    then have d: "d = c" using c by (simp add: prod_eq_iff)
    obtain head' mem' where res: "alloc_scan dbg (of_nat (snd c)) (of_nat (n + 16)) head mem (prev_of as) (Some (ptr_of c))
        = Some (Inr (Some (allocation (ptr_of c), head', mem')))"
      "rep mem' head' (as @ bs) None" "header mem' c" "\<And>x. x \<notin> ptr_of ` set as \<Longrightarrow> mem' x = mem x"
      by (rule alloc_exact_refines [OF list]) blast
    have frame: "mem' x = mem x" if "unat x \<notin> chunks_bytes cs" for x using res(4) inside [OF that] by (auto simp: cs(1))
    show ?thesis
      by (rule that [of head' mem']) (use run res(1-3) ds True frame in \<open>simp_all only: d if_True refl\<close>)
  next
    case False
    then have big: "n + 16 < snd c" using c(1) by (simp add: fits_def)
    have d: "d = (fst c, n)" using c by (simp add: prod_eq_iff)
    obtain head' mem' where res: "alloc_scan dbg (of_nat n) (of_nat (n + 16)) head mem (prev_of as) (Some (ptr_of c))
        = Some (Inr (Some (allocation (ptr_of c), head', mem')))"
      "rep mem' head' (as @ (fst c + 16 + n, snd c - (n + 16)) # bs) None" "header mem' (fst c, n)"
      "\<And>x. x \<notin> ptr_of ` set as \<union> {ptr_of c, ptr_of (fst c + 16 + n, snd c - (n + 16))} \<Longrightarrow> mem' x = mem x"
      by (rule alloc_split_refines [OF list big assms(3)]) blast
    have "fst c + 16 + n \<in> chunks_bytes cs" using big by (intro in_chunks_bytes [of c]) (auto simp: cs(1))
    then have "x \<noteq> ptr_of (fst c + 16 + n, snd c - (n + 16))" if "unat x \<notin> chunks_bytes cs" for x
      using that block_split_at_eq(3) [OF parts(4) big parts(2)] by (metis fst_conv)
    then have frame: "mem' x = mem x" if "unat x \<notin> chunks_bytes cs" for x
      using res(4) [of x] inside [OF that] that by (simp add: cs(1) image_Un del: of_nat_add)
    show ?thesis
      by (rule that [of head' mem']) (use run res(1-3) ds False frame in \<open>simp_all only: d if_False fst_conv\<close>)
  qed
qed

lemma alloc_scan_none:
  assumes "rep mem head cs None" "free_ok cs" "n + 16 < 2 ^ 64" "take_chunk n cs = None"
  shows "alloc_scan dbg (of_nat n) (of_nat (n + 16)) head mem None head = Some (Inr None)"
proof -
  have "list_all chunk_ok cs" "\<forall>c \<in> set cs. \<not> fits n c" using assms(2,4) by (simp_all add: free_ok_def take_chunk_None)
  from alloc_scan_skip [OF assms(1) this(2,1) assms(3), of dbg head "[]"]
  have "alloc_scan dbg (of_nat n) (of_nat (n + 16)) head mem None head
      = alloc_scan dbg (of_nat n) (of_nat (n + 16)) head mem (prev_of cs) None" by (simp only: prev_of_simps append.simps)
  also have "\<dots> = Some (Inr None)" by (subst alloc_scan.simps) simp
  finally show ?thesis .
qed

end
