(* ===== verification/Pmm_Ranges.thy ===== *)
theory Pmm_Ranges
  imports Pmm
begin

text \<open>
  The contract of \<^verbatim>\<open>PhysAllocator::alloc\<close> for requests of every order, which the kernel heap relies on. A zone can
  hand out a block that reaches beyond its end, up to the end of the memory its block tree spans, so the
  contract holds for zones whose spans are disjoint.
\<close>

definition zone_span :: "Zone \<Rightarrow> nat set" where
  "zone_span z = {unat (range_start (pages z)) ..< unat (range_start (pages z)) + 4096 * (2048 * zone_blocks z)}"

definition zones_apart :: "Zone list \<Rightarrow> bool" where
  "zones_apart zones \<longleftrightarrow> list_all (\<lambda>z. zone_ok (zone_blocks z) z) zones
     \<and> sorted_wrt (\<lambda>z w. zone_span z \<inter> zone_span w = {}) zones"

abbreviation zone_free_bytes :: "Zone \<Rightarrow> nat set" where
  "zone_free_bytes z \<equiv> zone_bytes z (zone_free_frames (zone_blocks z) (order_list z))"

definition pmm_bytes :: "pmm \<Rightarrow> nat set" where
  "pmm_bytes pmm = (case pmm of None \<Rightarrow> {} | Some zones \<Rightarrow> (\<Union>z \<in> set zones. zone_free_bytes z))"

definition pmm_apart :: "pmm \<Rightarrow> bool" where
  "pmm_apart pmm \<longleftrightarrow> (case pmm of None \<Rightarrow> False | Some zones \<Rightarrow> zones_apart zones)"

text \<open>The shape of the ranges that serve a request of order \<open>k\<close>: aligned to pages, and \<open>2 ^ k\<close> pages long.\<close>

definition order_range :: "nat \<Rightarrow> phys_frame_range \<Rightarrow> bool" where
  "order_range k rng \<longleftrightarrow> k \<le> 11 \<and> 4096 dvd unat (range_start rng)
     \<and> unat (range_end rng) = unat (range_start rng) + 4096 * 2 ^ k \<and> unat (range_end rng) < 2 ^ 47"

lemma zone_free_bytes_span: "zone_free_bytes z \<subseteq> zone_span z"
proof
  fix x
  let ?b = "unat (range_start (pages z))"
  assume "x \<in> zone_free_bytes z"
  then obtain i where i: "i < zone_blocks z" "(x - ?b) div 4096 \<in> blk 11 i" and b: "?b \<le> x"
    using fr_sub by (fastforce simp: zone_bytes_def zone_free_frames_def)
  from i(2) have "(x - ?b) div 4096 < (i + 1) * 2048" by (simp add: blk_def)
  also have "\<dots> \<le> zone_blocks z * 2048" using i(1) by (intro mult_right_mono) auto
  finally show "x \<in> zone_span z" using b by (auto simp: zone_span_def div_less_iff_less_mult)
qed

lemma zone_alloc_range:
  assumes X: "x86_64_laws X" and ok: "zone_ok (zone_blocks z) z" and alloc: "zone_alloc X dbg order z = Inr (Some rng, z', ev)"
  shows "zone_ok (zone_blocks z') z' \<and> zone_span z' = zone_span z \<and> order_range (unat order) rng
    \<and> range_bytes rng \<subseteq> zone_free_bytes z \<and> zone_free_bytes z' \<subseteq> zone_free_bytes z - range_bytes rng"
proof (rule zone_alloc_cases [OF X ok, of dbg order])
  fix c ol' ev'
  let ?b = "range_start (pages z)" and ?k = "unat order" and ?M = "zone_blocks z"
  assume k: "?k \<le> 11" "c < ?M * 2 ^ (11 - ?k)"
    and eq: "zone_alloc X dbg order z = Inr (Some (block_range ?b ?k c), z\<lparr>order_list := ol'\<rparr>, ev')"
    and ok': "zone_ok ?M (z\<lparr>order_list := ol'\<rparr>)"
  have z': "z' = z\<lparr>order_list := ol'\<rparr>" "rng = block_range ?b ?k c" using eq alloc by auto
  have base: "unat ?b + 4096 * (2048 * ?M) < 2 ^ 47" "4096 dvd unat ?b" using ok by (simp_all only: zone_ok_def)
  have "order_range ?k rng"
    using unat_block_offset(3,4) [OF k(1) _ base(1), of c] unat_block_offset(3,4) [OF k(1) _ base(1), of "c + 1"] k base(2)
    by (simp add: z'(2) order_range_def block_range_def algebra_simps del: of_nat_Suc)
  moreover have "range_bytes rng \<subseteq> zone_free_bytes z" "zone_free_bytes z' \<subseteq> zone_free_bytes z - range_bytes rng"
    using zone.alloc_range [OF conjI [OF X ok] alloc] by (simp_all add: z'(1))
  ultimately show ?thesis using ok' by (simp add: z'(1) zone_span_def)
qed (use alloc in simp)

lemma zones_apart_Cons:
  "zones_apart (z # zones) \<longleftrightarrow> zone_ok (zone_blocks z) z \<and> (\<forall>w \<in> set zones. zone_span z \<inter> zone_span w = {}) \<and> zones_apart zones"
  by (auto simp: zones_apart_def)

lemma pmm_bytes_Cons: "pmm_bytes (Some (z # zones)) = zone_free_bytes z \<union> pmm_bytes (Some zones)"
  by (simp add: pmm_bytes_def)

lemma alloc_zones_range:
  assumes X: "x86_64_laws X" and "zones_apart zones" "alloc_zones X dbg order zones = Inr (rng, zones', ev)"
  shows "zones_apart zones' \<and> map zone_span zones' = map zone_span zones \<and> order_range (unat order) rng
    \<and> range_bytes rng \<subseteq> pmm_bytes (Some zones) \<and> pmm_bytes (Some zones') \<subseteq> pmm_bytes (Some zones) - range_bytes rng"
  using assms(2,3)
proof (induction zones arbitrary: zones' ev)
  case (Cons z zones)
  have z: "zone_ok (zone_blocks z) z" and zs: "zones_apart zones" and dj: "\<forall>w \<in> set zones. zone_span z \<inter> zone_span w = {}"
    using Cons.prems(1) by (simp_all add: zones_apart_Cons)
  have "pmm_bytes (Some zones) \<subseteq> (\<Union>w \<in> set zones. zone_span w)"
    unfolding pmm_bytes_def option.case using zone_free_bytes_span by blast
  then have apart: "zone_free_bytes z \<inter> pmm_bytes (Some zones) = {}" using dj zone_free_bytes_span [of z] by blast
  obtain r z' e1 where za: "zone_alloc X dbg order z = Inr (r, z', e1)" using Cons.prems(2) by (auto simp: bind_res_eq_Inr)
  show ?case
  proof (cases r)
    case (Some rng')
    then have eq: "rng' = rng" "zones' = z' # zones" using Cons.prems(2) za by auto
    from zone_alloc_range [OF X z za [unfolded Some]]
    have s: "zone_ok (zone_blocks z') z'" "zone_span z' = zone_span z" "order_range (unat order) rng'"
      "range_bytes rng' \<subseteq> zone_free_bytes z" "zone_free_bytes z' \<subseteq> zone_free_bytes z - range_bytes rng'" by simp_all
    have "range_bytes rng' \<inter> pmm_bytes (Some zones) = {}" using s(4) apart by blast
    with s zs dj show ?thesis unfolding eq zones_apart_Cons pmm_bytes_Cons by auto
  next
    case None
    then obtain zones1 e2 where rest: "alloc_zones X dbg order zones = Inr (rng, zones1, e2)" and eq: "zones' = z' # zones1"
      using Cons.prems(2) za by (auto simp: bind_res_eq_Inr)
    have "z' = z" by (rule zone_alloc_cases [OF X z, of dbg order]) (use za None in auto)
    from Cons.IH [OF zs rest] have IH: "zones_apart zones1" "map zone_span zones1 = map zone_span zones"
      "order_range (unat order) rng" "range_bytes rng \<subseteq> pmm_bytes (Some zones)"
      "pmm_bytes (Some zones1) \<subseteq> pmm_bytes (Some zones) - range_bytes rng" by simp_all
    have "zone_span ` set zones1 = zone_span ` set zones" using arg_cong [OF IH(2), of set] by simp
    then have "\<forall>w \<in> set zones1. zone_span z \<inter> zone_span w = {}" using dj by (metis imageE imageI)
    moreover have "range_bytes rng \<inter> zone_free_bytes z = {}" using IH(4) apart by blast
    ultimately show ?thesis
      using z IH(1-3) IH(4,5) unfolding eq \<open>z' = z\<close> zones_apart_Cons pmm_bytes_Cons by auto
  qed
qed simp

lemma pmm_alloc_range:
  assumes "x86_64_laws X" "pmm_apart pmm" "pmm_alloc X dbg order pmm = Inr (rng, pmm', ev)"
  shows "pmm_apart pmm' \<and> order_range (unat order) rng
    \<and> range_bytes rng \<subseteq> pmm_bytes pmm \<and> pmm_bytes pmm' \<subseteq> pmm_bytes pmm - range_bytes rng"
proof -
  obtain zones zones' where "pmm = Some zones" "pmm' = Some zones'" "alloc_zones X dbg order zones = Inr (rng, zones', ev)"
    using assms(3) by (auto simp: pmm_alloc_def res_elim)
  with alloc_zones_range [OF assms(1), of zones dbg order rng zones' ev] assms(2) show ?thesis
    by (simp add: pmm_apart_def)
qed

text \<open>As a source of ranges that panics where a zone returns \<open>None\<close>.\<close>

definition pmm_source :: "x86_64 \<Rightarrow> bool \<Rightarrow> (u8, pmm) range_source" where
  "pmm_source X dbg order pmm =
     bind_res (pmm_alloc X dbg order pmm) (\<lambda>(rng, pmm', ev). Inr (Some rng, pmm', ev))"

interpretation pmm_ranges: range_allocator "pmm_source X dbg" "\<lambda>pmm. x86_64_laws X \<and> pmm_apart pmm" pmm_bytes
proof (unfold_locales, goal_cases)
  case (1 pmm order r pmm' ev)
  then show ?case using pmm_alloc_range [of X pmm dbg order] by (fastforce simp: pmm_source_def res_elim)
next
  case (2 pmm order pmm' ev)
  then show ?case by (auto simp: pmm_source_def res_elim)
next
  case (3 pmm order rng pmm' ev)
  then show ?case using pmm_alloc_range [of X pmm dbg order rng pmm' ev] by (simp add: pmm_source_def res_elim)
qed

text \<open>
  Claim C9 (\<^verbatim>\<open>PhysAllocator::alloc\<close> never hands out memory twice). When the memory spanned by the block trees of the
  zones does not overlap, the ranges that successive calls return, of whatever orders, are pairwise
  disjoint and were free before.
\<close>

theorem pmm_ranges_disjoint:
  assumes "x86_64_laws X" "pmm_apart pmm" "alloc_ranges (pmm_source X dbg) orders pmm = Inr (rs, pmm')"
  shows "sorted_wrt (\<lambda>r q. range_bytes r \<inter> range_bytes q = {}) rs \<and> (\<Union>r \<in> set rs. range_bytes r) \<subseteq> pmm_bytes pmm
    \<and> pmm_apart pmm' \<and> pmm_bytes pmm' \<subseteq> pmm_bytes pmm - (\<Union>r \<in> set rs. range_bytes r)"
  using pmm_ranges.ranges_disjoint [OF conjI [OF assms(1,2)] assms(3)] by simp

lemma sample_zone_addrs: "zone_addrs (new_zone 0x1000 3) = {0x1000, 0x2000, 0x3000}"
proof -
  have lists: "order_list (new_zone 0x1000 3) = new_lists 3" by (simp only: new_zone_def Zone.select_convs)
  have "new_extent 3 = 4" by (simp add: new_extent_def ceil_order_samples)
  with new_lists_frames [of 3] have "zone_free_frames (zone_blocks (new_zone 0x1000 3)) (order_list (new_zone 0x1000 3)) = {..<4}"
    unfolding lists new_zone_ok(2) [OF sample_zone_ok(2)] by simp
  moreover have "unat (zone_pages (new_zone 0x1000 3)) = 3" "unat (range_start (pages (new_zone 0x1000 3))) = 0x1000"
    using new_zone_ok(2) [OF sample_zone_ok(2)] by (simp_all add: new_zone_def)
  moreover have "{..<4 :: nat} \<inter> {..<3} = {0, 1, 2}" by auto
  ultimately show ?thesis by (simp add: zone_addrs_def)
qed

lemma sample_two_pages:
  obtains r pmm1 e1 q pmm2 e2 where "pmm_alloc x86_64_ref True 0 (Some [new_zone 0x1000 3]) = Inr (r, pmm1, e1)"
    "pmm_alloc x86_64_ref True 0 pmm1 = Inr (q, pmm2, e2)"
proof -
  have ok: "zones_ok [new_zone 0x1000 3]" using sample_zones by (simp add: zones_ok_def)
  have addrs: "pmm_addrs [new_zone 0x1000 3] = {0x1000, 0x2000, 0x3000}" by (simp add: pmm_addrs_def sample_zone_addrs)
  then obtain r zs1 e1 where one: "alloc_zones x86_64_ref True 0 [new_zone 0x1000 3] = Inr (r, zs1, e1)"
    using alloc_zones_serves [OF x86_64_laws_ref ok, of True] by blast
  have "zones_ok zs1" "pmm_addrs zs1 = {0x1000, 0x2000, 0x3000} - {unat (range_start r)}"
    using alloc_zones_0 [OF x86_64_laws_ref ok one] addrs by auto
  moreover from this(2) have "pmm_addrs zs1 \<noteq> {}" by auto
  ultimately obtain q zs2 e2 where "alloc_zones x86_64_ref True 0 zs1 = Inr (q, zs2, e2)"
    using alloc_zones_serves [OF x86_64_laws_ref, of zs1 True] by blast
  with one that [of r "Some zs1" e1 q "Some zs2" e2] show ?thesis by (simp add: pmm_alloc_def del: alloc_zones.simps)
qed

theorem pmm_ranges_disjoint_witness:
  "\<exists>r q pmm'. alloc_ranges (pmm_source x86_64_ref True) [0, 0] (Some [new_zone 0x1000 3]) = Inr ([r, q], pmm')
    \<and> range_bytes r \<inter> range_bytes q = {}"
proof -
  have apart: "pmm_apart (Some [new_zone 0x1000 3])" using sample_zones by (simp add: pmm_apart_def zones_apart_def)
  obtain r pmm1 e1 q pmm2 e2 where "pmm_alloc x86_64_ref True 0 (Some [new_zone 0x1000 3]) = Inr (r, pmm1, e1)"
    "pmm_alloc x86_64_ref True 0 pmm1 = Inr (q, pmm2, e2)" by (rule sample_two_pages)
  then have run: "alloc_ranges (pmm_source x86_64_ref True) [0, 0] (Some [new_zone 0x1000 3]) = Inr ([r, q], pmm2)"
    by (simp add: pmm_source_def)
  from pmm_ranges_disjoint [OF x86_64_laws_ref apart run] run show ?thesis by auto
qed

end
