(* ===== verification/Slob_Heap.thy ===== *)
theory Slob_Heap
  imports Slob_Refine Pmm_Ranges
begin

text \<open>
  The kernel heap as a whole: the free list, the blocks that are in use, and the physical allocator behind
  \<^verbatim>\<open>morecore\<close>. \<open>heap_ok h cs L\<close> says that the free list of \<open>h\<close> holds the chunks \<open>cs\<close>, that the chunks in \<open>L\<close> are the
  blocks in use, and that these two and the memory of the physical allocator do not overlap.
\<close>

definition live_bytes :: "chunk set \<Rightarrow> nat set" where
  "live_bytes L = (\<Union>l \<in> L. chunk_bytes l)"

definition live_ok :: "slob_mem \<Rightarrow> chunk set \<Rightarrow> bool" where
  "live_ok mem L \<longleftrightarrow> (\<forall>l \<in> L. chunk_ok l \<and> header mem l)
     \<and> pairwise (\<lambda>l l'. chunk_bytes l \<inter> chunk_bytes l' = {}) L"

text \<open>Where the kernel sees physical memory.\<close>

definition window :: "nat set \<Rightarrow> nat set" where
  "window B = (\<lambda>p. p + (2 ^ 64 - 2 ^ 47)) ` B"

definition heap_ok :: "heap \<Rightarrow> chunk list \<Rightarrow> chunk set \<Rightarrow> bool" where
  "heap_ok h cs L \<longleftrightarrow> rep (hp_mem h) (hp_head h) cs None \<and> free_ok cs \<and> live_ok (hp_mem h) L
     \<and> live_bytes L \<inter> chunks_bytes cs = {} \<and> pmm_apart (hp_pmm h)
     \<and> (live_bytes L \<union> chunks_bytes cs) \<inter> window (pmm_bytes (hp_pmm h)) = {}"

lemma live_bytes_insert [simp]: "live_bytes (insert l L) = chunk_bytes l \<union> live_bytes L" "live_bytes {} = {}"
  by (auto simp: live_bytes_def)

lemma live_bytes_minus: "live_bytes (L - {l}) \<subseteq> live_bytes L"
  by (auto simp: live_bytes_def)

lemma window_mono: "A \<subseteq> B \<Longrightarrow> window A \<subseteq> window B"
  by (auto simp: window_def)

lemma window_diff: "window (A - B) = window A - window B"
  by (auto simp: window_def)

lemma header_in_chunk: "chunk_ok c \<Longrightarrow> unat (ptr_of c) \<in> chunk_bytes c"
  by (simp add: chunk_ok_unat chunk_bytes_def)

lemma live_frame:
  assumes "live_ok mem L" "\<And>x. unat x \<notin> B \<Longrightarrow> mem' x = mem x" "live_bytes L \<inter> B = {}"
  shows "live_ok mem' L"
proof -
  have "mem' (ptr_of l) = mem (ptr_of l)" if "l \<in> L" for l
  proof -
    have "unat (ptr_of l) \<in> chunk_bytes l" using assms(1) that by (intro header_in_chunk) (simp add: live_ok_def)
    then have "unat (ptr_of l) \<in> live_bytes L" using that unfolding live_bytes_def by blast
    then show ?thesis using assms(2,3) by blast
  qed
  then show ?thesis using assms(1) by (simp add: live_ok_def header_def)
qed

lemma live_insert:
  assumes "live_ok mem L" "chunk_ok d" "header mem d" "chunk_bytes d \<inter> live_bytes L = {}"
  shows "live_ok mem (insert d L)"
  using assms unfolding live_ok_def pairwise_insert live_bytes_def by blast

subsection \<open>Layouts\<close>

definition layout_ok :: "Layout \<Rightarrow> bool" where
  "layout_ok l \<longleftrightarrow> is_pow2 (lay_align l) \<and> unat (lay_align l) \<le> 16 \<and> unat (lay_size l) < 2 ^ 63"

definition payload :: "Layout \<Rightarrow> nat" where
  "payload l = round_up (unat (lay_size l)) 16"

lemma payload_props: "unat (lay_size l) \<le> payload l" "payload l < unat (lay_size l) + 16" "16 dvd payload l"
  using round_up_ge [of 16 "unat (lay_size l)"] round_up_less [of 16 "unat (lay_size l)"] dvd_round_up [of 16]
  by (simp_all add: payload_def)

lemma small_align:
  assumes "is_pow2 w" "unat w \<le> 16"
  shows "unat w dvd 16" "0 < unat w"
proof -
  obtain k where k: "k < 64" "w = 2 ^ k" using assms(1) by (auto simp: is_pow2_iff)
  have u: "unat w = 2 ^ k" using unat_pow2_u64 [OF k(1)] k(2) by simp
  have "k \<le> 4"
  proof (rule ccontr)
    assume "\<not> k \<le> 4"
    then have "(2 :: nat) ^ 5 \<le> 2 ^ k" by (intro power_increasing) auto
    then show False using assms(2) u by simp
  qed
  then show "unat w dvd 16" using le_imp_power_dvd [of k 4 "2 :: nat"] u by simp
  show "0 < unat w" using u by simp
qed

lemma from_size_align_16: "from_size_align 16 16 = Some \<lparr>lay_size = 16, lay_align = 16\<rparr>"
proof -
  have "is_pow2 16" unfolding is_pow2_iff by (rule exI [of _ 4]) simp
  then show ?thesis by (simp add: from_size_align_def round_up_def)
qed

lemma block_layout_eq:
  assumes "layout_ok l"
  shows "block_layout l = Inr (\<lparr>lay_size = of_nat (payload l + 16), lay_align = 16\<rparr>, 16)"
proof -
  let ?s = "unat (lay_size l)"
  have al: "unat (lay_align l) dvd 16" "0 < unat (lay_align l)" "?s < 2 ^ 63"
    using assms small_align by (auto simp: layout_ok_def)
  have mx: "max 16 (lay_align l) = 16" using assms by (intro max_absorb1) (simp add: layout_ok_def word_le_nat_alt)
  have off: "round_up 16 (unat (lay_align l)) = 16" using round_up_id [OF al(2,1)] .
  have u: "unat (of_nat (16 + ?s) :: u64) = 16 + ?s" using al(3) by (intro unat_of_nat_small) simp
  have r: "round_up (16 + ?s) 16 = payload l + 16" using round_up_add [of 16 16 ?s] by (simp add: payload_def add.commute)
  have p: "payload l + 16 < 2 ^ 64" using payload_props(2) [of l] al(3) by simp
  have "is_pow2 16" unfolding is_pow2_iff by (rule exI [of _ 4]) simp
  then have "from_size_align (of_nat (16 + ?s)) 16 = Some \<lparr>lay_size = of_nat (16 + ?s), lay_align = 16\<rparr>"
    using p unfolding from_size_align_def u by (simp add: r del: of_nat_add)
  then have "layout_extend \<lparr>lay_size = 16, lay_align = 16\<rparr> l = Some (\<lparr>lay_size = of_nat (16 + ?s), lay_align = 16\<rparr>, 16)"
    using al(3) unfolding layout_extend_def by (simp add: Let_def mx off del: of_nat_add)
  moreover have "pad_to_align \<lparr>lay_size = 16, lay_align = 16\<rparr> = \<lparr>lay_size = 16, lay_align = 16\<rparr>"
    by (simp add: pad_to_align_def round_up_def)
  moreover have "pad_to_align \<lparr>lay_size = of_nat (16 + ?s), lay_align = 16\<rparr> = \<lparr>lay_size = of_nat (payload l + 16), lay_align = 16\<rparr>"
    unfolding pad_to_align_def by (simp add: u r del: of_nat_add)
  ultimately show ?thesis
    by (simp add: block_layout_def size_of_slob_block_def align_of_slob_block_def from_size_align_16)
qed

lemma heap_alloc_passes:
  assumes "layout_ok l"
  shows "heap_alloc X dbg l h = alloc_passes 2 X dbg (of_nat (payload l)) (of_nat (payload l + 16)) h"
proof -
  have "payload l + 16 < 2 ^ 64" using payload_props(2) [of l] assms by (simp add: layout_ok_def)
  then have "unat (of_nat (payload l + 16) :: u64) = payload l + 16" by (intro unat_of_nat_small) simp
  then have "sub_w dbg (of_nat (payload l + 16)) 16 = Inr (of_nat (payload l) :: u64)"
    by (subst sub_w_Inr) simp_all
  then show ?thesis
    by (simp add: heap_alloc_def alloc_inner_def block_layout_eq [OF assms] size_of_slob_block_def del: of_nat_add)
qed

subsection \<open>Allocation from the free list\<close>

lemma alloc_passes_found:
  assumes "heap_ok h cs L" "16 dvd n" "n + 16 < 2 ^ 64" "take_chunk n cs = Some (d, ds)"
  obtains h' where "alloc_passes (Suc k) X dbg (of_nat n) (of_nat (n + 16)) h = Some (Inr (allocation (ptr_of d), h', []))"
    "heap_ok h' ds (insert d L)" "hp_pmm h' = hp_pmm h"
proof -
  have ok: "rep (hp_mem h) (hp_head h) cs None" "free_ok cs" "live_ok (hp_mem h) L" "live_bytes L \<inter> chunks_bytes cs = {}"
    "pmm_apart (hp_pmm h)" "(live_bytes L \<union> chunks_bytes cs) \<inter> window (pmm_bytes (hp_pmm h)) = {}"
    using assms(1) by (simp_all add: heap_ok_def)
  note d = take_chunk_ok [OF assms(4) ok(2) assms(2)]
  obtain head' mem' where scan: "alloc_scan dbg (of_nat n) (of_nat (n + 16)) (hp_head h) (hp_mem h) None (hp_head h)
      = Some (Inr (Some (allocation (ptr_of d), head', mem')))"
    and post: "rep mem' head' ds None" "header mem' d" "\<And>x. unat x \<notin> chunks_bytes cs \<Longrightarrow> mem' x = hp_mem h x"
    by (rule alloc_scan_found [OF ok(1,2) assms(2-4)]) blast
  have "live_ok mem' L" by (rule live_frame [OF ok(3) post(3) ok(4)])
  moreover have "chunk_bytes d \<inter> live_bytes L = {}" using d(4) ok(4) by blast
  ultimately have "live_ok mem' (insert d L)" using d(2) post(2) by (intro live_insert)
  moreover have "(chunk_bytes d \<union> live_bytes L) \<inter> chunks_bytes ds = {}" using d(4,5) ok(4) by blast
  ultimately have "heap_ok (h\<lparr>hp_head := head', hp_mem := mem'\<rparr>) ds (insert d L)"
    using post(1) d(3,4) ok(5,6) by (simp add: heap_ok_def Un_ac)
  moreover have "alloc_passes (Suc k) X dbg (of_nat n) (of_nat (n + 16)) h
      = Some (Inr (allocation (ptr_of d), h\<lparr>hp_head := head', hp_mem := mem'\<rparr>, []))"
    unfolding alloc_passes.simps scan by simp
  ultimately show ?thesis using that [of "h\<lparr>hp_head := head', hp_mem := mem'\<rparr>"] by simp
qed

subsection \<open>Release\<close>

lemma dealloc_ok:
  assumes "heap_ok h cs L" "chunk_ok c" "header (hp_mem h) c" "chunk_bytes c \<inter> chunks_bytes cs = {}"
    and "live_bytes L \<inter> chunk_bytes c = {}" "chunk_bytes c \<inter> window (pmm_bytes (hp_pmm h)) = {}"
    and "cs \<noteq> [] \<or> blk_next (hp_mem h (ptr_of c)) = None"
  obtains head' mem' where
    "dealloc_inner dbg (hp_head h) (hp_mem h) (allocation (ptr_of c)) = Some (Inr (head', mem'))"
    "heap_ok (h\<lparr>hp_head := head', hp_mem := mem'\<rparr>) (free_chunk c cs) L"
proof -
  have ok: "rep (hp_mem h) (hp_head h) cs None" "free_ok cs" "live_ok (hp_mem h) L" "live_bytes L \<inter> chunks_bytes cs = {}"
    "pmm_apart (hp_pmm h)" "(live_bytes L \<union> chunks_bytes cs) \<inter> window (pmm_bytes (hp_pmm h)) = {}"
    using assms(1) by (simp_all add: heap_ok_def)
  obtain head' mem' where run: "dealloc_inner dbg (hp_head h) (hp_mem h) (allocation (ptr_of c)) = Some (Inr (head', mem'))"
    and post: "rep mem' head' (free_chunk c cs) None" "\<And>x. x \<notin> ptr_of ` set (c # cs) \<Longrightarrow> mem' x = hp_mem h x"
    by (rule dealloc_refines [OF ok(1,2) assms(2-4,7)]) blast
  have frame: "mem' x = hp_mem h x" if "unat x \<notin> chunk_bytes c \<union> chunks_bytes cs" for x
  proof (rule post(2))
    show "x \<notin> ptr_of ` set (c # cs)"
      using that header_in_chunk [OF assms(2)] chunks_bytes_header [OF ok(2)] by auto
  qed
  have apart: "live_bytes L \<inter> (chunk_bytes c \<union> chunks_bytes cs) = {}"
    "(live_bytes L \<union> (chunk_bytes c \<union> chunks_bytes cs)) \<inter> window (pmm_bytes (hp_pmm h)) = {}"
    using ok(4,6) assms(5,6) by blast+
  moreover have "live_ok mem' L" by (rule live_frame [OF ok(3) frame apart(1)])
  ultimately have "heap_ok (h\<lparr>hp_head := head', hp_mem := mem'\<rparr>) (free_chunk c cs) L"
    using post(1) ok(5) free_chunk_ok [OF ok(2) assms(2,4)] by (simp add: heap_ok_def)
  with that run show ?thesis by blast
qed

lemma heap_dealloc_ok:
  assumes "heap_ok h cs L" "l \<in> L" "cs \<noteq> []"
  obtains h' where "heap_dealloc dbg (allocation (ptr_of l)) layout h = Some (Inr h')"
    "heap_ok h' (free_chunk l cs) (L - {l})" "hp_pmm h' = hp_pmm h"
proof -
  have ok: "live_ok (hp_mem h) L" "live_bytes L \<inter> chunks_bytes cs = {}"
    "(live_bytes L \<union> chunks_bytes cs) \<inter> window (pmm_bytes (hp_pmm h)) = {}"
    using assms(1) by (simp_all add: heap_ok_def)
  have l: "chunk_ok l" "header (hp_mem h) l" "chunk_bytes l \<subseteq> live_bytes L"
    using ok(1) assms(2) by (auto simp: live_ok_def live_bytes_def)
  have "live_ok (hp_mem h) (L - {l})" using ok(1) by (auto simp: live_ok_def intro: pairwise_subset)
  then have h: "heap_ok h cs (L - {l})" using assms(1) live_bytes_minus [of L l] unfolding heap_ok_def by blast
  have "live_bytes (L - {l}) \<inter> chunk_bytes l = {}"
    using ok(1) assms(2) by (fastforce simp: live_ok_def live_bytes_def pairwise_def)
  from dealloc_ok [OF h l(1,2) _ this, of dbg] l(3) ok(2,3) assms(3)
  obtain head' mem' where "dealloc_inner dbg (hp_head h) (hp_mem h) (allocation (ptr_of l)) = Some (Inr (head', mem'))"
    "heap_ok (h\<lparr>hp_head := head', hp_mem := mem'\<rparr>) (free_chunk l cs) (L - {l})" by blast
  with that [of "h\<lparr>hp_head := head', hp_mem := mem'\<rparr>"] show ?thesis by (simp add: heap_dealloc_def)
qed

subsection \<open>Growing the heap\<close>

lemma pages_order_Inr:
  assumes "m < 2 ^ 52"
  obtains order where "pages_order dbg (of_nat m) = Inr order" "m \<le> 2 ^ unat order"
proof -
  have u: "unat (of_nat m :: u64) = m" using assms by (intro unat_of_nat_small) simp
  have "List.find (\<lambda>k. m \<le> 2 ^ k) [0..<64] \<noteq> None"
    unfolding find_None_iff not_not using assms by (intro exI [of _ 52]) simp
  then obtain k where find: "List.find (\<lambda>k. m \<le> 2 ^ k) [0..<64] = Some k" by blast
  then have k: "k < 64" "m \<le> 2 ^ k" by (auto simp: find_Some_iff)
  have "pages_order dbg (of_nat m) = Inr (of_nat k)"
    by (simp add: pages_order_def next_power_of_two_def u find trailing_zeros_pow2 [OF k(1)])
  moreover have "unat (of_nat k :: u8) = k" using k(1) by (intro unat_of_nat_small) simp
  ultimately show ?thesis using that [of "of_nat k"] k(2) by simp
qed

text \<open>The chunk that \<^verbatim>\<open>morecore\<close> makes of a range of frames.\<close>

definition core_chunk :: "phys_frame_range \<Rightarrow> nat \<Rightarrow> chunk" where
  "core_chunk rng m = (unat (range_start rng) + (2 ^ 64 - 2 ^ 47), 4096 * m - 16)"

lemma core_chunk_props:
  assumes "order_range k rng" "0 < m" "m \<le> 2 ^ k"
  shows "chunk_ok (core_chunk rng m)" "chunk_bytes (core_chunk rng m) \<subseteq> window (range_bytes rng)"
    "4096 dvd fst (core_chunk rng m)" "ptr_of (core_chunk rng m) = range_start rng + PHYS_OFFSET"
proof -
  let ?s = "unat (range_start rng)"
  have s: "4096 dvd ?s" "unat (range_end rng) = ?s + 4096 * 2 ^ k" "?s + 4096 * 2 ^ k < 2 ^ 47"
    using assms(1) by (auto simp: order_range_def)
  have m: "?s + 4096 * m \<le> ?s + 4096 * 2 ^ k" "16 \<le> 4096 * m" using assms(2,3) by simp_all
  obtain q where q: "?s = 4096 * q" using s(1) by (rule dvdE)
  have a: "4096 dvd ?s + (2 ^ 64 - 2 ^ 47)" unfolding q by (intro dvd_add) simp_all
  then show "4096 dvd fst (core_chunk rng m)" by (simp add: core_chunk_def)
  have "16 dvd ?s + (2 ^ 64 - 2 ^ 47)" by (rule dvd_trans [OF _ a]) simp
  moreover have "16 dvd 4096 * m - 16" by (intro dvd_diff_nat) simp_all
  ultimately show "chunk_ok (core_chunk rng m)" using s(3) m by (simp add: chunk_ok_def core_chunk_def)
  show "chunk_bytes (core_chunk rng m) \<subseteq> window (range_bytes rng)"
  proof
    fix x
    assume "x \<in> chunk_bytes (core_chunk rng m)"
    then have "?s + (2 ^ 64 - 2 ^ 47) \<le> x" "x < ?s + (2 ^ 64 - 2 ^ 47) + 4096 * m"
      using m(2) by (auto simp: chunk_bytes_def core_chunk_def)
    then have "x - (2 ^ 64 - 2 ^ 47) \<in> range_bytes rng" "x = x - (2 ^ 64 - 2 ^ 47) + (2 ^ 64 - 2 ^ 47)"
      using s(2) m(1) by (auto simp: range_bytes_def)
    then show "x \<in> window (range_bytes rng)" unfolding window_def by blast
  qed
  show "ptr_of (core_chunk rng m) = range_start rng + PHYS_OFFSET"
  proof -
    have "unat (range_start rng + PHYS_OFFSET) = fst (core_chunk rng m)"
      using s(3) by (subst unat_add_no_wrap) (simp_all add: core_chunk_def)
    then show ?thesis using chunk_ok_unat(1) [OF \<open>chunk_ok (core_chunk rng m)\<close>] by (metis word_unat_eq_iff)
  qed
qed

lemma morecore_panics:
  assumes "pages_order dbg m = Inr order" "pmm_alloc X dbg order (hp_pmm h) = Inl e"
  shows "morecore X dbg m h = Some (Inl e)"
  by (simp add: morecore_def assms)

lemma core_chunk_apart:
  assumes "heap_ok h cs L" "chunk_bytes c \<subseteq> window (range_bytes rng)" "range_bytes rng \<subseteq> pmm_bytes (hp_pmm h)"
    and "pmm_apart pmm'" "pmm_bytes pmm' \<subseteq> pmm_bytes (hp_pmm h) - range_bytes rng"
    and "chunk_ok c" "mem' = (hp_mem h)(ptr_of c := b)"
  shows "heap_ok (h\<lparr>hp_mem := mem', hp_pmm := pmm'\<rparr>) cs L" "chunk_bytes c \<inter> chunks_bytes cs = {}"
    "live_bytes L \<inter> chunk_bytes c = {}" "chunk_bytes c \<inter> window (pmm_bytes pmm') = {}"
proof -
  have ok: "rep (hp_mem h) (hp_head h) cs None" "free_ok cs" "live_ok (hp_mem h) L" "live_bytes L \<inter> chunks_bytes cs = {}"
    "(live_bytes L \<union> chunks_bytes cs) \<inter> window (pmm_bytes (hp_pmm h)) = {}"
    using assms(1) by (simp_all add: heap_ok_def)
  have win: "window (pmm_bytes pmm') \<subseteq> window (pmm_bytes (hp_pmm h)) - window (range_bytes rng)"
    "window (range_bytes rng) \<subseteq> window (pmm_bytes (hp_pmm h))"
    using window_mono [OF assms(5)] window_mono [OF assms(3)] by (simp_all add: window_diff)
  show c: "chunk_bytes c \<inter> chunks_bytes cs = {}" "live_bytes L \<inter> chunk_bytes c = {}"
    "chunk_bytes c \<inter> window (pmm_bytes pmm') = {}"
    using assms(2) win ok(5) by blast+
  have frame: "mem' x = hp_mem h x" if "unat x \<notin> chunk_bytes c" for x
    using that header_in_chunk [OF assms(6)] by (auto simp: assms(7))
  have "live_ok mem' L" by (rule live_frame [OF ok(3) frame c(2)])
  moreover have "\<forall>d \<in> set cs. mem' (ptr_of d) = hp_mem h (ptr_of d)"
    using frame c(1) chunks_bytes_header [OF ok(2)] by blast
  then have "rep mem' (hp_head h) cs None" using ok(1) rep_frame [of cs mem' "hp_mem h"] by simp
  moreover have "(live_bytes L \<union> chunks_bytes cs) \<inter> window (pmm_bytes pmm') = {}" using ok(5) win(1) by blast
  ultimately show "heap_ok (h\<lparr>hp_mem := mem', hp_pmm := pmm'\<rparr>) cs L"
    using ok(2,4) assms(4) by (simp add: heap_ok_def)
qed

lemma morecore_ok:
  assumes X: "x86_64_laws X" and h: "heap_ok h cs L" and m: "0 < m" "m < 2 ^ 52"
    and order: "pages_order dbg (of_nat m) = Inr order" "m \<le> 2 ^ unat order"
    and alloc: "pmm_alloc X dbg order (hp_pmm h) = Inr (rng, pmm', ev)"
  obtains h' where "morecore X dbg (of_nat m) h = Some (Inr (h', ev))"
    "heap_ok h' (free_chunk (core_chunk rng m) cs) L" "hp_pmm h' = pmm'"
proof -
  let ?c = "core_chunk rng m"
  have pmm: "pmm_apart pmm'" "order_range (unat order) rng" "range_bytes rng \<subseteq> pmm_bytes (hp_pmm h)"
    "pmm_bytes pmm' \<subseteq> pmm_bytes (hp_pmm h) - range_bytes rng"
    using pmm_alloc_range [OF X _ alloc] h by (simp_all add: heap_ok_def)
  note c = core_chunk_props [OF pmm(2) m(1) order(2)]
  define mem2 where "mem2 = set_next (set_size (hp_mem h) (ptr_of ?c) (of_nat (4096 * m - 16))) (ptr_of ?c) None"
  have "\<exists>b. mem2 = (hp_mem h)(ptr_of ?c := b)" unfolding mem2_def fun_upd_upd by (rule exI, rule refl)
  then obtain b where b: "mem2 = (hp_mem h)(ptr_of ?c := b)" ..
  note core = core_chunk_apart [OF h c(2) pmm(3,1,4) c(1) b]
  have hd: "header mem2 ?c" "blk_next (mem2 (ptr_of ?c)) = None" by (simp_all add: mem2_def header_def core_chunk_def)
  obtain head' mem' where run: "dealloc_inner dbg (hp_head h) mem2 (allocation (ptr_of ?c)) = Some (Inr (head', mem'))"
    and ok': "heap_ok (h\<lparr>hp_mem := mem', hp_pmm := pmm', hp_head := head'\<rparr>) (free_chunk ?c cs) L"
    using dealloc_ok [OF core(1) c(1) _ _ _ _, of dbg] core hd by (auto simp: heap_ok_def)
  have small: "unat (range_start rng) < 2 ^ 47" using pmm(2) by (simp add: order_range_def)
  have sz: "mul_w dbg (of_nat m) PAGE_SIZE = Inr (of_nat (4096 * m))"
    "sub_w dbg (of_nat (4096 * m)) size_of_slob_block = Inr (of_nat (4096 * m - 16))"
  proof -
    have u: "unat (of_nat m :: u64) = m" "unat (of_nat (4096 * m) :: u64) = 4096 * m"
      using m(2) by (intro unat_of_nat_small; simp)+
    show "mul_w dbg (of_nat m) PAGE_SIZE = Inr (of_nat (4096 * m))"
      using m(2) u(1) by (subst mul_w_Inr) (simp_all add: PAGE_SIZE_def)
    show "sub_w dbg (of_nat (4096 * m)) size_of_slob_block = Inr (of_nat (4096 * m - 16))"
      using m(1) u(2) by (subst sub_w_Inr) (simp_all add: size_of_slob_block_def of_nat_diff)
  qed
  have lay: "from_size_align (of_nat (4096 * m - 16)) 1 \<noteq> None" using from_size_align_1 by simp
  have "morecore X dbg (of_nat m) h = Some (Inr (h\<lparr>hp_mem := mem', hp_pmm := pmm', hp_head := head'\<rparr>, ev))"
    using order(1) alloc phys_to_kernel_virt_eq(1) [OF X small] sz run chunk_ok_unat(3) [OF c(1)]
    unfolding morecore_def c(4) mem2_def by (simp add: Let_def nonnull_def from_size_align_1)
  then show ?thesis using that ok' by simp
qed

end
