(* ===== verification/Slob_Props.thy ===== *)
theory Slob_Props
  imports Slob_Heap
begin

text \<open>
  The properties of the kernel heap, \<^verbatim>\<open>src/src/mm/slob.rs\<close>: what an allocation and a release do in terms of the
  chunks of the free list, that they end, that blocks in use never overlap whatever the order of calls and whatever
  the kernel writes into its blocks, and where the code departs from this.
\<close>

subsection \<open>A sample heap\<close>

text \<open>
  A heap with one free page, for the witnesses. Its page lies above the memory of the physical allocator,
  a zone of three pages.
\<close>

definition sample_heap :: heap where
  "sample_heap =
     \<lparr>hp_head = Some 0xFFFF800001000000,
      hp_mem = (\<lambda>x. \<lparr>blk_size = 0, blk_next = None\<rparr>)(0xFFFF800001000000 := \<lparr>blk_size = 4080, blk_next = None\<rparr>),
      hp_pmm = Some [new_zone 0x1000 3]\<rparr>"

abbreviation sample_chunk :: chunk where
  "sample_chunk \<equiv> (0xFFFF800001000000, 4080)"

lemma sample_pmm_window: "window (pmm_bytes (Some [new_zone 0x1000 3])) \<subseteq> {..<0xFFFF800000900000}"
proof -
  have "zone_blocks (new_zone 0x1000 3) = 1"
    using new_zone_ok(2) [OF sample_zone_ok(2)] by (simp add: max_order_blocks_def)
  then have "zone_span (new_zone 0x1000 3) = {0x1000 ..< 0x801000}" by (simp add: zone_span_def) (simp add: new_zone_def)
  then have "pmm_bytes (Some [new_zone 0x1000 3]) \<subseteq> {0x1000 ..< 0x801000}"
    using zone_free_bytes_span [of "new_zone 0x1000 3"] by (simp add: pmm_bytes_def)
  then show ?thesis by (auto simp: window_def)
qed

lemma sample_heap_ok: "heap_ok sample_heap [sample_chunk] {}"
proof -
  have "pmm_apart (Some [new_zone 0x1000 3])" using sample_zones by (simp add: pmm_apart_def zones_apart_def)
  moreover have "chunk_bytes sample_chunk \<inter> window (pmm_bytes (Some [new_zone 0x1000 3])) = {}"
    using sample_pmm_window by (fastforce simp: chunk_bytes_def)
  ultimately show ?thesis
    by (simp add: heap_ok_def sample_heap_def header_def live_ok_def live_bytes_def pairwise_def chunk_ok_def)
qed

definition sample_layout :: Layout where
  "sample_layout = \<lparr>lay_size = 20, lay_align = 8\<rparr>"

lemma sample_layout_ok: "layout_ok sample_layout" "payload sample_layout = 32"
proof -
  have "is_pow2 8" unfolding is_pow2_iff by (rule exI [of _ 3]) simp
  then show "layout_ok sample_layout" by (simp add: layout_ok_def sample_layout_def)
qed (simp add: payload_def sample_layout_def round_up_def)

subsection \<open>Allocation\<close>

definition core_pages :: "nat \<Rightarrow> nat" where
  "core_pages n = (n + 16) div 4096 + 1"

lemma core_pages_word:
  assumes "n + 16 + 4096 < 2 ^ 64"
  shows "add_w dbg (of_nat (n + 16)) PAGE_SIZE = Inr (of_nat (n + 16) + PAGE_SIZE)"
    and "(of_nat (n + 16) + PAGE_SIZE) div PAGE_SIZE = (of_nat (core_pages n) :: u64)"
proof -
  have u: "unat (of_nat (n + 16) :: u64) = n + 16" using assms by (intro unat_of_nat_small) simp
  then show "add_w dbg (of_nat (n + 16)) PAGE_SIZE = Inr (of_nat (n + 16) + PAGE_SIZE)"
    using assms by (intro add_w_Inr) simp
  have "unat (of_nat (n + 16) + PAGE_SIZE) = n + 16 + 4096"
    using assms u by (subst unat_add_no_wrap) simp_all
  then have "unat ((of_nat (n + 16) + PAGE_SIZE) div PAGE_SIZE) = core_pages n"
    by (simp add: unat_div_distrib core_pages_def del: of_nat_add)
  moreover have "unat (of_nat (core_pages n) :: u64) = core_pages n"
    using assms by (intro unat_of_nat_small) (simp add: core_pages_def div_less_iff_less_mult)
  ultimately show "(of_nat (n + 16) + PAGE_SIZE) div PAGE_SIZE = (of_nat (core_pages n) :: u64)"
    by (simp add: word_unat_eq_iff)
qed

lemma alloc_passes_none:
  assumes "heap_ok h cs L" "n + 16 + 4096 < 2 ^ 64" "take_chunk n cs = None"
  shows "alloc_passes (Suc k) X dbg (of_nat n) (of_nat (n + 16)) h =
    bind_run (morecore X dbg (of_nat (core_pages n)) h) (\<lambda>(h', ev).
    bind_run (alloc_passes k X dbg (of_nat n) (of_nat (n + 16)) h') (\<lambda>(ptr, h'', ev').
    Some (Inr (ptr, h'', ev @ ev'))))"
proof -
  have "alloc_scan dbg (of_nat n) (of_nat (n + 16)) (hp_head h) (hp_mem h) None (hp_head h) = Some (Inr None)"
    using assms by (intro alloc_scan_none [of _ _ cs]) (simp_all add: heap_ok_def)
  then show ?thesis
    unfolding alloc_passes.simps by (simp add: core_pages_word [OF assms(2)] del: of_nat_add)
qed

text \<open>A pass that finds no chunk goes on with one more chunk in the list, or panics with the physical allocator.\<close>

lemma alloc_passes_grow:
  assumes "x86_64_laws X" "heap_ok h cs L" "n < 2 ^ 63 + 16" "take_chunk n cs = None"
    and "pages_order dbg (of_nat (core_pages n)) = Inr order" "core_pages n \<le> 2 ^ unat order"
    and "pmm_alloc X dbg order (hp_pmm h) = Inr (rng, pmm', ev)"
  obtains h' where "heap_ok h' (free_chunk (core_chunk rng (core_pages n)) cs) L" "hp_pmm h' = pmm'"
    "alloc_passes (Suc k) X dbg (of_nat n) (of_nat (n + 16)) h =
      bind_run (alloc_passes k X dbg (of_nat n) (of_nat (n + 16)) h') (\<lambda>(ptr, h'', ev').
      Some (Inr (ptr, h'', ev @ ev')))"
proof -
  have m: "0 < core_pages n" "core_pages n < 2 ^ 52" using assms(3) by (auto simp: core_pages_def div_less_iff_less_mult)
  from morecore_ok [OF assms(1,2) m assms(5-7)] obtain h' where
    "morecore X dbg (of_nat (core_pages n)) h = Some (Inr (h', ev))"
    "heap_ok h' (free_chunk (core_chunk rng (core_pages n)) cs) L" "hp_pmm h' = pmm'" .
  with that [of h'] alloc_passes_none [OF assms(2) _ assms(4), of k X dbg] assms(3) show ?thesis by simp
qed

lemma core_pages_order:
  assumes "n < 2 ^ 63 + 16"
  obtains order where "pages_order dbg (of_nat (core_pages n)) = Inr order" "core_pages n \<le> 2 ^ unat order"
  using pages_order_Inr [of "core_pages n" dbg] assms by (auto simp: core_pages_def div_less_iff_less_mult)

lemma join_keeps: "\<exists>e \<in> set (join c ds). snd c \<le> snd e" "d \<in> set ds \<Longrightarrow> \<exists>e \<in> set (join c ds). snd d \<le> snd e"
  by (cases ds; force simp: join_def merge_def)+

lemma free_chunk_keeps: "\<exists>e \<in> set (free_chunk c cs). snd c \<le> snd e"
proof (induction c cs rule: free_chunk.induct)
  case (2 c d ds)
  have "\<exists>e \<in> set (join d (join c ds)). snd c \<le> snd e"
    using join_keeps(1) [of c ds] join_keeps(2) [of _ "join c ds" d] le_trans by blast
  with 2 join_keeps(1) [of c "d # ds"] show ?case by auto
qed simp

lemma core_chunk_fits:
  assumes "(n + 16) mod 4096 \<noteq> 4080" "16 dvd n"
  shows "take_chunk n (free_chunk (core_chunk rng (core_pages n)) cs) \<noteq> None"
proof -
  define q r where "q = (n + 16) div 4096" and "r = (n + 16) mod 4096"
  have "16 dvd r" unfolding r_def using assms(2) by (intro dvd_mod) simp_all
  then obtain k where "r = 16 * k" by (rule dvdE)
  moreover have "r < 4096" "r \<noteq> 4080" using assms(1) by (simp_all add: r_def)
  ultimately have "r \<le> 4064" by arith
  moreover have "n + 16 = 4096 * q + r" by (simp add: q_def r_def)
  ultimately have "n + 16 < 4096 * (q + 1) - 16" by simp
  then have "n + 16 < snd (core_chunk rng (core_pages n))" by (simp add: core_chunk_def core_pages_def q_def)
  moreover obtain e where "e \<in> set (free_chunk (core_chunk rng (core_pages n)) cs)" "snd (core_chunk rng (core_pages n)) \<le> snd e"
    using free_chunk_keeps by blast
  ultimately have "fits n e" "e \<in> set (free_chunk (core_chunk rng (core_pages n)) cs)" by (auto simp: fits_def)
  then show ?thesis unfolding take_chunk_None by blast
qed

lemma heap_alloc_spec:
  assumes "x86_64_laws X" "heap_ok h cs L" "layout_ok l" "n = payload l"
  shows "case take_chunk n cs of
      Some (d, ds) \<Rightarrow> \<exists>h'. heap_alloc X dbg l h = Some (Inr (allocation (ptr_of d), h', [])) \<and> heap_ok h' ds (insert d L)
    | None \<Rightarrow> \<exists>order. pages_order dbg (of_nat (core_pages n)) = Inr order \<and> core_pages n \<le> 2 ^ unat order
        \<and> (case pmm_alloc X dbg order (hp_pmm h) of
             Inl e \<Rightarrow> heap_alloc X dbg l h = Some (Inl e)
           | Inr (rng, pmm', ev) \<Rightarrow> (n + 16) mod 4096 \<noteq> 4080 \<longrightarrow>
               (\<exists>d ds h'. take_chunk n (free_chunk (core_chunk rng (core_pages n)) cs) = Some (d, ds)
                  \<and> heap_alloc X dbg l h = Some (Inr (allocation (ptr_of d), h', ev)) \<and> heap_ok h' ds (insert d L)))"
proof -
  have n: "n < 2 ^ 63 + 16" "16 dvd n" "n + 16 < 2 ^ 64"
    using payload_props [of l] assms(3,4) by (auto simp: layout_ok_def)
  have run: "heap_alloc X dbg l h = alloc_passes (Suc (Suc 0)) X dbg (of_nat n) (of_nat (n + 16)) h"
    using heap_alloc_passes [OF assms(3), of X dbg h] by (simp only: assms(4) numeral_2_eq_2)
  show ?thesis
  proof (cases "take_chunk n cs")
    case (Some r)
    then obtain d ds where take: "take_chunk n cs = Some (d, ds)" by (cases r) simp
    obtain h' where "heap_alloc X dbg l h = Some (Inr (allocation (ptr_of d), h', []))" "heap_ok h' ds (insert d L)"
      unfolding run by (rule alloc_passes_found [OF assms(2) n(2,3) take]) blast
    with take show ?thesis by simp
  next
    case None
    obtain order where order: "pages_order dbg (of_nat (core_pages n)) = Inr order" "core_pages n \<le> 2 ^ unat order"
      by (rule core_pages_order [OF n(1)])
    show ?thesis
    proof (cases "pmm_alloc X dbg order (hp_pmm h)")
      case (Inl e)
      then have "heap_alloc X dbg l h = Some (Inl e)"
        unfolding run using alloc_passes_none [OF assms(2) _ None] morecore_panics [OF order(1) Inl] n(1) by simp
      then show ?thesis unfolding None option.case by (intro exI [of _ order]) (simp add: order Inl)
    next
      case (Inr r)
      then obtain rng pmm' ev where alloc: "pmm_alloc X dbg order (hp_pmm h) = Inr (rng, pmm', ev)" by (cases r) auto
      obtain h1 where h1: "heap_ok h1 (free_chunk (core_chunk rng (core_pages n)) cs) L"
        "heap_alloc X dbg l h = bind_run (alloc_passes (Suc 0) X dbg (of_nat n) (of_nat (n + 16)) h1) (\<lambda>(ptr, h'', ev').
          Some (Inr (ptr, h'', ev @ ev')))"
        unfolding run by (rule alloc_passes_grow [OF assms(1,2) n(1) None order alloc]) blast
      have "\<exists>d ds h'. take_chunk n (free_chunk (core_chunk rng (core_pages n)) cs) = Some (d, ds)
          \<and> heap_alloc X dbg l h = Some (Inr (allocation (ptr_of d), h', ev)) \<and> heap_ok h' ds (insert d L)"
        if room: "(n + 16) mod 4096 \<noteq> 4080"
      proof -
        obtain d ds where take: "take_chunk n (free_chunk (core_chunk rng (core_pages n)) cs) = Some (d, ds)"
          using core_chunk_fits [OF room n(2), of rng cs] by (cases "take_chunk n (free_chunk (core_chunk rng (core_pages n)) cs)") auto
        obtain h' where "alloc_passes (Suc 0) X dbg (of_nat n) (of_nat (n + 16)) h1
            = Some (Inr (allocation (ptr_of d), h', []))" "heap_ok h' ds (insert d L)"
          by (rule alloc_passes_found [OF h1(1) n(2,3) take]) blast
        with take h1(2) show ?thesis by simp
      qed
      then show ?thesis unfolding None option.case by (intro exI [of _ order]) (simp add: order alloc)
    qed
  qed
qed



subsection \<open>Termination and safety\<close>

text \<open>However many passes are left, a well-formed heap gives a block that was free or a panic.\<close>

lemma alloc_passes_safe:
  assumes "x86_64_laws X" "heap_ok h cs L" "n < 2 ^ 63 + 16" "16 dvd n"
  shows "\<exists>r. alloc_passes k X dbg (of_nat n) (of_nat (n + 16)) h = Some r
    \<and> (\<forall>ptr h' ev. r = Inr (ptr, h', ev) \<longrightarrow>
        (\<exists>d ds. ptr = allocation (ptr_of d) \<and> snd d = n \<and> heap_ok h' ds (insert d L) \<and> chunk_bytes d \<inter> live_bytes L = {}))"
  using assms(2)
proof (induction k arbitrary: h cs)
  case (Suc k)
  have n: "n + 16 < 2 ^ 64" "n + 16 + 4096 < 2 ^ 64" using assms(3) by simp_all
  show ?case
  proof (cases "take_chunk n cs")
    case (Some r)
    then obtain d ds where take: "take_chunk n cs = Some (d, ds)" by (cases r) simp
    have ok: "free_ok cs" "live_bytes L \<inter> chunks_bytes cs = {}" using Suc.prems by (simp_all add: heap_ok_def)
    have "snd d = n" "chunk_bytes d \<inter> live_bytes L = {}" using take_chunk_ok(1,4) [OF take ok(1) assms(4)] ok(2) by auto
    moreover obtain h' where "alloc_passes (Suc k) X dbg (of_nat n) (of_nat (n + 16)) h = Some (Inr (allocation (ptr_of d), h', []))"
      "heap_ok h' ds (insert d L)"
      by (rule alloc_passes_found [OF Suc.prems assms(4) n(1) take]) blast
    ultimately show ?thesis by blast
  next
    case None
    obtain order where order: "pages_order dbg (of_nat (core_pages n)) = Inr order" "core_pages n \<le> 2 ^ unat order"
      by (rule core_pages_order [OF assms(3)])
    show ?thesis
    proof (cases "pmm_alloc X dbg order (hp_pmm h)")
      case (Inl e)
      then show ?thesis
        using alloc_passes_none [OF Suc.prems n(2) None, of k X dbg] morecore_panics [OF order(1) Inl]
        by (simp del: alloc_passes.simps of_nat_add)
    next
      case (Inr r)
      then obtain rng pmm' ev where alloc: "pmm_alloc X dbg order (hp_pmm h) = Inr (rng, pmm', ev)" by (cases r) auto
      obtain h1 where h1: "heap_ok h1 (free_chunk (core_chunk rng (core_pages n)) cs) L"
        "alloc_passes (Suc k) X dbg (of_nat n) (of_nat (n + 16)) h =
          bind_run (alloc_passes k X dbg (of_nat n) (of_nat (n + 16)) h1) (\<lambda>(ptr, h'', ev').
          Some (Inr (ptr, h'', ev @ ev')))"
        by (rule alloc_passes_grow [OF assms(1) Suc.prems assms(3) None order alloc]) blast
      from Suc.IH [OF h1(1)] obtain r1 where r1: "alloc_passes k X dbg (of_nat n) (of_nat (n + 16)) h1 = Some r1"
        "\<forall>ptr h' ev. r1 = Inr (ptr, h', ev) \<longrightarrow>
          (\<exists>d ds. ptr = allocation (ptr_of d) \<and> snd d = n \<and> heap_ok h' ds (insert d L) \<and> chunk_bytes d \<inter> live_bytes L = {})"
        by blast
      show ?thesis
      proof (cases r1)
        case (Inl e)
        then show ?thesis unfolding h1(2) r1(1) by simp
      next
        case (Inr q)
        then obtain ptr h' ev' where "r1 = Inr (ptr, h', ev')" by (cases q) auto
        with r1(2) show ?thesis unfolding h1(2) r1(1) by auto
      qed
    qed
  qed
qed simp



text \<open>
  Claim C7 (\<^verbatim>\<open>dealloc\<close> refines insertion with coalescing). Releasing a block in use, when the free list is not
  empty, ends without a panic. The block takes its place in the list sorted by address, joined with the
  chunk before it and the chunk after it where these are adjacent and start on the same page; it is
  no longer in use, and the heap is well-formed.
\<close>

theorem slob_dealloc_refines:
  assumes "heap_ok h cs L" "l \<in> L" "cs \<noteq> []"
  shows "\<exists>h'. heap_dealloc dbg (allocation (ptr_of l)) layout h = Some (Inr h') \<and> heap_ok h' (free_chunk l cs) (L - {l})
    \<and> chunks_bytes (free_chunk l cs) = chunk_bytes l \<union> chunks_bytes cs \<and> hp_pmm h' = hp_pmm h"
proof -
  obtain h' where "heap_dealloc dbg (allocation (ptr_of l)) layout h = Some (Inr h')"
    "heap_ok h' (free_chunk l cs) (L - {l})" "hp_pmm h' = hp_pmm h"
    by (rule heap_dealloc_ok [OF assms]) blast
  moreover have "free_ok cs" "chunk_ok l" "chunk_bytes l \<inter> chunks_bytes cs = {}"
    using assms(1,2) by (auto simp: heap_ok_def live_ok_def live_bytes_def)
  ultimately show ?thesis using free_chunk_ok(2) by blast
qed

theorem slob_dealloc_refines_witness:
  "\<exists>h h'. heap_ok h [(0xFFFF800001000030, 4032)] {(0xFFFF800001000000, 32)}
    \<and> heap_dealloc True 0xFFFF800001000010 sample_layout h = Some (Inr h') \<and> heap_ok h' [sample_chunk] {}"
proof -
  obtain h where h: "heap_ok h [(0xFFFF800001000030, 4032)] {(0xFFFF800001000000, 32)}"
  proof (rule alloc_passes_found [OF sample_heap_ok, of 32])
    show "take_chunk 32 [sample_chunk] = Some ((0xFFFF800001000000, 32), [(0xFFFF800001000030, 4032)])" by simp
  qed simp_all
  have "free_chunk (0xFFFF800001000000, 32) [(0xFFFF800001000030, 4032)] = [sample_chunk]"
    by (simp add: join_def mergeable_def merge_def)
  moreover have "allocation (ptr_of (0xFFFF800001000000, 32)) = 0xFFFF800001000010"
    by (simp add: allocation_def size_of_slob_block_def)
  ultimately show ?thesis
    using slob_dealloc_refines [OF h, of "(0xFFFF800001000000, 32)" True sample_layout] h by auto
qed

subsection \<open>All sequences of calls\<close>

text \<open>
  The heap together with the blocks in use, under the calls of the rest of the kernel: allocations, releases
  of blocks in use while the free list is not empty, and arbitrary writes to the memory behind the headers of
  blocks in use.
\<close>

definition user_write :: "slob_mem \<Rightarrow> slob_mem \<Rightarrow> chunk set \<Rightarrow> bool" where
  "user_write mem mem' L \<longleftrightarrow> (\<forall>x. mem' x \<noteq> mem x \<longrightarrow> (\<exists>l \<in> L. fst l + 16 \<le> unat x \<and> unat x < cend l))"

inductive heap_step :: "x86_64 \<Rightarrow> bool \<Rightarrow> heap \<times> chunk set \<Rightarrow> heap \<times> chunk set \<Rightarrow> bool" for X dbg where
  step_alloc: "layout_ok l \<Longrightarrow> heap_alloc X dbg l h = Some (Inr (ptr, h', ev)) \<Longrightarrow>
    heap_step X dbg (h, L) (h', insert (unat ptr - 16, payload l) L)"
| step_dealloc: "l \<in> L \<Longrightarrow> hp_head h \<noteq> None \<Longrightarrow> heap_dealloc dbg (allocation (ptr_of l)) layout h = Some (Inr h') \<Longrightarrow>
    heap_step X dbg (h, L) (h', L - {l})"
| step_write: "user_write (hp_mem h) mem' L \<Longrightarrow> heap_step X dbg (h, L) (h\<lparr>hp_mem := mem'\<rparr>, L)"

inductive_cases heap_stepE: "heap_step X dbg (h, L) s"

definition heap_start :: "heap \<times> chunk set \<Rightarrow> bool" where
  "heap_start s \<longleftrightarrow> (\<exists>mem pmm. s = (heap_new mem pmm, {}) \<and> pmm_apart pmm)"

definition heap_inv :: "heap \<times> chunk set \<Rightarrow> bool" where
  "heap_inv s \<longleftrightarrow> (\<exists>cs. heap_ok (fst s) cs (snd s))"

lemma user_write_ok:
  assumes "heap_ok h cs L" "user_write (hp_mem h) mem' L"
  shows "heap_ok (h\<lparr>hp_mem := mem'\<rparr>) cs L"
proof -
  have ok: "rep (hp_mem h) (hp_head h) cs None" "free_ok cs" "live_ok (hp_mem h) L" "live_bytes L \<inter> chunks_bytes cs = {}"
    using assms(1) by (simp_all add: heap_ok_def)
  have free: "mem' (ptr_of c) = hp_mem h (ptr_of c)" if "c \<in> set cs" for c
  proof (rule ccontr)
    assume "mem' (ptr_of c) \<noteq> hp_mem h (ptr_of c)"
    then obtain l where "l \<in> L" "fst l + 16 \<le> unat (ptr_of c)" "unat (ptr_of c) < cend l"
      using assms(2) by (auto simp: user_write_def)
    then have "unat (ptr_of c) \<in> live_bytes L" unfolding live_bytes_def chunk_bytes_def by force
    then show False using ok(4) chunks_bytes_header [OF ok(2) that] by blast
  qed
  have live: "mem' (ptr_of d) = hp_mem h (ptr_of d)" if "d \<in> L" for d
  proof (rule ccontr)
    assume "mem' (ptr_of d) \<noteq> hp_mem h (ptr_of d)"
    then obtain l where l: "l \<in> L" "fst l + 16 \<le> unat (ptr_of d)" "unat (ptr_of d) < cend l"
      using assms(2) by (auto simp: user_write_def)
    have d: "chunk_ok d" "unat (ptr_of d) = fst d" using ok(3) that chunk_ok_unat(1) by (auto simp: live_ok_def)
    then have "l \<noteq> d" using l(2) by auto
    then have "chunk_bytes l \<inter> chunk_bytes d = {}" using ok(3) l(1) that by (simp add: live_ok_def pairwise_def)
    then show False using l(2,3) header_in_chunk [OF d(1)] by (auto simp: chunk_bytes_def)
  qed
  have "rep mem' (hp_head h) cs None" using ok(1) free rep_frame [of cs mem' "hp_mem h"] by simp
  moreover have "live_ok mem' L" using ok(3) live by (simp add: live_ok_def header_def)
  ultimately show ?thesis using assms(1) by (simp add: heap_ok_def)
qed

lemma alloc_step_ok:
  assumes "x86_64_laws X" "heap_ok h cs L" "layout_ok l" "heap_alloc X dbg l h = Some (Inr (ptr, h', ev))"
  shows "\<exists>ds. heap_ok h' ds (insert (unat ptr - 16, payload l) L)"
proof -
  have n: "payload l < 2 ^ 63 + 16" "16 dvd payload l" using payload_props [of l] assms(3) by (auto simp: layout_ok_def)
  from alloc_passes_safe [OF assms(1,2) n, of 2 dbg] assms(4)
  obtain d ds where d: "ptr = allocation (ptr_of d)" "snd d = payload l" "heap_ok h' ds (insert d L)"
    unfolding heap_alloc_passes [OF assms(3), symmetric] by auto
  then have "chunk_ok d" by (simp add: heap_ok_def live_ok_def)
  then have "unat ptr - 16 = fst d"
    unfolding d(1) allocation_def size_of_slob_block_def
    by (subst unat_add_no_wrap) (simp_all add: chunk_ok_unat, simp add: chunk_ok_def)
  then have "d = (unat ptr - 16, payload l)" using d(2) by (simp add: prod_eq_iff)
  with d(3) show ?thesis by blast
qed

lemma heap_step_ok:
  assumes "x86_64_laws X" "heap_ok h cs L" "heap_step X dbg (h, L) (h', L')"
  shows "\<exists>ds. heap_ok h' ds L'"
  using assms(3)
proof (cases rule: heap_step.cases)
  case (step_alloc l ptr ev)
  then show ?thesis using alloc_step_ok [OF assms(1,2)] by blast
next
  case (step_dealloc l layout)
  have "cs \<noteq> []" using assms(2) step_dealloc(3) by (auto simp: heap_ok_def)
  then show ?thesis
    using heap_dealloc_ok [OF assms(2) step_dealloc(2), of dbg layout] step_dealloc by (metis option.inject sum.inject(2))
next
  case (step_write mem')
  then show ?thesis using user_write_ok [OF assms(2)] by blast
qed

interpretation heap_machine: machine heap_start "heap_step X dbg" "\<lambda>s. x86_64_laws X \<longrightarrow> heap_inv s"
proof
  fix s
  assume "heap_start s"
  then show "x86_64_laws X \<longrightarrow> heap_inv s"
    by (auto simp: heap_start_def heap_inv_def heap_new_def heap_ok_def live_ok_def intro!: exI [of _ "[]"])
next
  fix s t
  assume "x86_64_laws X \<longrightarrow> heap_inv s" "heap_step X dbg s t"
  then show "x86_64_laws X \<longrightarrow> heap_inv t"
    using heap_step_ok [of X "fst s" _ "snd s" dbg "fst t" "snd t"] unfolding heap_inv_def by auto
qed

text \<open>
  Claim C2 (blocks in use never overlap). After any sequence of allocations, releases on a non-empty free list and
  writes into blocks, starting from the empty heap, any two blocks in use are disjoint, headers included, none
  of them overlaps the free list or memory that the physical allocator can still hand out, and every
  header is intact.
\<close>

theorem slob_live_disjoint:
  assumes "x86_64_laws X" "reach heap_start (heap_step X dbg) (h, L)"
  shows "pairwise (\<lambda>l l'. chunk_bytes l \<inter> chunk_bytes l' = {}) L
    \<and> live_bytes L \<inter> window (pmm_bytes (hp_pmm h)) = {}
    \<and> (\<exists>cs. rep (hp_mem h) (hp_head h) cs None \<and> free_ok cs \<and> live_bytes L \<inter> chunks_bytes cs = {})
    \<and> L \<subseteq> {l. chunk_ok l \<and> header (hp_mem h) l}"
proof -
  obtain cs where "heap_ok h cs L" using heap_machine.inv_reach [OF assms(2)] assms(1) by (auto simp: heap_inv_def)
  then show ?thesis unfolding heap_ok_def live_ok_def by blast
qed

lemma pages_order_1: "pages_order dbg 1 = Inr 0"
  using next_power_of_two_Inr [of 1 0 dbg] trailing_zeros_pow2 [of 0] by (simp add: pages_order_def)

lemma sample_grow:
  "\<exists>ptr h' ev. heap_alloc x86_64_ref True sample_layout (heap_new mem (Some [new_zone 0x1000 3])) = Some (Inr (ptr, h', ev))"
proof -
  let ?pmm = "Some [new_zone 0x1000 3]"
  have "pmm_apart ?pmm" and zok: "zones_ok [new_zone 0x1000 3]"
    using sample_zones by (simp_all add: pmm_apart_def zones_apart_def zones_ok_def)
  then have h: "heap_ok (heap_new mem ?pmm) [] {}" by (simp add: heap_ok_def heap_new_def live_ok_def)
  have "pmm_addrs [new_zone 0x1000 3] \<noteq> {}" by (simp add: pmm_addrs_def sample_zone_addrs)
  then obtain rng zones' ev where "alloc_zones x86_64_ref True 0 [new_zone 0x1000 3] = Inr (rng, zones', ev)"
    by (rule alloc_zones_serves [OF x86_64_laws_ref zok])
  then have alloc: "pmm_alloc x86_64_ref True 0 ?pmm = Inr (rng, Some zones', ev)"
    by (simp add: pmm_alloc_def del: alloc_zones.simps)
  have pages: "core_pages 32 = 1" by (simp add: core_pages_def)
  from heap_alloc_spec [OF x86_64_laws_ref h sample_layout_ok(1) sample_layout_ok(2) [symmetric], of True]
  show ?thesis by (auto simp: pages pages_order_1 heap_new_def alloc)
qed

theorem slob_live_disjoint_witness:
  "\<exists>h (ptr :: u64). reach heap_start (heap_step x86_64_ref True) (h, {(unat ptr - 16, 32)})
    \<and> live_bytes {(unat ptr - 16, 32)} \<inter> window (pmm_bytes (hp_pmm h)) = {}"
proof -
  define h0 where "h0 = heap_new (\<lambda>x. \<lparr>blk_size = 0, blk_next = None\<rparr>) (Some [new_zone 0x1000 3])"
  have "pmm_apart (Some [new_zone 0x1000 3])" using sample_zones by (simp add: pmm_apart_def zones_apart_def)
  then have "heap_start (h0, {})" unfolding heap_start_def h0_def by blast
  moreover obtain ptr h ev where "heap_alloc x86_64_ref True sample_layout h0 = Some (Inr (ptr, h, ev))"
    unfolding h0_def using sample_grow by blast
  from step_alloc [OF sample_layout_ok(1) this, of "{}"]
  have "heap_step x86_64_ref True (h0, {}) (h, {(unat ptr - 16, 32)})" by (simp add: sample_layout_ok(2))
  ultimately have reach: "reach heap_start (heap_step x86_64_ref True) (h, {(unat ptr - 16, 32)})"
    by (rule reach_step [OF reach_start])
  from slob_live_disjoint [OF x86_64_laws_ref reach] reach show ?thesis by (intro exI [of _ h] exI [of _ ptr]) simp
qed

subsection \<open>Where the heap goes wrong\<close>

text \<open>
  Claim C33 (a block is handed out twice). \<^verbatim>\<open>dealloc_inner\<close> does not reset \<^verbatim>\<open>next\<close> when the free list is empty. On a heap
  with one free page: allocate 16 bytes, allocate the remaining 4048 bytes, release the first block,
  and allocate 4048 bytes. The stale \<^verbatim>\<open>next\<close> of the first block brings the second, which is still in use,
  back into the free list, and the last call returns the pointer of the second block again.
\<close>

theorem slob_double_allocation:
  "\<exists>p q h1 h2 h3 h4.
     heap_alloc X dbg \<lparr>lay_size = 16, lay_align = 8\<rparr> sample_heap = Some (Inr (p, h1, []))
   \<and> heap_alloc X dbg \<lparr>lay_size = 4048, lay_align = 8\<rparr> h1 = Some (Inr (q, h2, []))
   \<and> heap_dealloc dbg p \<lparr>lay_size = 16, lay_align = 8\<rparr> h2 = Some (Inr h3)
   \<and> heap_alloc X dbg \<lparr>lay_size = 4048, lay_align = 8\<rparr> h3 = Some (Inr (q, h4, []))"
proof -
  have p8: "is_pow2 8" unfolding is_pow2_iff by (rule exI [of _ 3]) simp
  have l: "layout_ok \<lparr>lay_size = 16, lay_align = 8\<rparr>" "payload \<lparr>lay_size = 16, lay_align = 8\<rparr> = 16"
    "layout_ok \<lparr>lay_size = 4048, lay_align = 8\<rparr>" "payload \<lparr>lay_size = 4048, lay_align = 8\<rparr> = 4048"
    by (simp_all add: layout_ok_def payload_def round_up_def p8)
  let ?a = "0xFFFF800001000000 :: u64" and ?b = "0xFFFF800001000020 :: u64"
  let ?m0 = "\<lambda>x :: u64. \<lparr>blk_size = 0, blk_next = None\<rparr>"
  let ?m = "?m0(?a := \<lparr>blk_size = 16, blk_next = Some ?b\<rparr>, ?b := \<lparr>blk_size = 4048, blk_next = None\<rparr>)"
  let ?h = "\<lambda>p. \<lparr>hp_head = p, hp_mem = ?m, hp_pmm = Some [new_zone 0x1000 3]\<rparr>"
  have eval: "alloc_passes 2 X dbg n t h = alloc_passes (Suc 1) X dbg n t h" for n t h by (simp add: numeral_2_eq_2)
  note unfold = heap_alloc_passes [OF l(1)] heap_alloc_passes [OF l(3)] l(2,4) eval alloc_passes.simps sample_heap_def
  note ops = alloc_scan.simps [of _ _ _ _ _ _ "Some _"] block_split_at_def add_w_def sub_w_def offset_addr_def
    nonnull_def size_of_slob_block_def set_link_def allocation_def Let_def
  have "heap_alloc X dbg \<lparr>lay_size = 16, lay_align = 8\<rparr> sample_heap = Some (Inr (?a + 16, ?h (Some ?b), []))"
    unfolding unfold by (simp add: ops fun_upd_twist)
  moreover have "heap_alloc X dbg \<lparr>lay_size = 4048, lay_align = 8\<rparr> (?h (Some ?b)) = Some (Inr (?b + 16, ?h None, []))"
    unfolding unfold by (simp add: ops)
  moreover have "heap_dealloc dbg (?a + 16) \<lparr>lay_size = 16, lay_align = 8\<rparr> (?h None) = Some (Inr (?h (Some ?a)))"
    by (simp add: heap_dealloc_def dealloc_inner_def from_allocation_def nonnull_def size_of_slob_block_def
        dealloc_scan.simps [of _ _ _ _ _ None] insert_last_def)
  moreover have "\<exists>h4. heap_alloc X dbg \<lparr>lay_size = 4048, lay_align = 8\<rparr> (?h (Some ?a)) = Some (Inr (?b + 16, h4, []))"
    unfolding unfold by (simp add: ops)
  ultimately show ?thesis by blast
qed

subsection \<open>Sizes and alignments that panic\<close>

lemma free_chunk_apart:
  "\<forall>d \<in> set cs. \<not> mergeable d c \<and> \<not> mergeable c d \<Longrightarrow> set (free_chunk c cs) = insert c (set cs)"
proof (induction c cs rule: free_chunk.induct)
  case (2 c d ds)
  then have "join c (d # ds) = c # d # ds" "join c ds = c # ds" "join d (c # ds) = d # c # ds"
    by (auto simp: join_def split: list.split)
  with 2 show ?case by auto
qed simp

lemma core_chunk_not_mergeable:
  assumes "order_range k rng" "0 < m" "m \<le> 2 ^ k"
  shows "\<not> mergeable d (core_chunk rng m)" "\<not> mergeable (core_chunk rng m) d"
proof -
  obtain q where q: "fst (core_chunk rng m) = 4096 * q" using core_chunk_props(3) [OF assms] by (rule dvdE)
  show "\<not> mergeable d (core_chunk rng m)"
  proof
    assume "mergeable d (core_chunk rng m)"
    then have "fst d < 4096 * q" "fst d div 4096 = q" by (auto simp: mergeable_def q)
    then show False by (auto simp: div_less_iff_less_mult mult.commute)
  qed
  show "\<not> mergeable (core_chunk rng m) d"
  proof
    assume "mergeable (core_chunk rng m) d"
    then have "fst d = 4096 * (q + m)" "fst d div 4096 = q"
      using assms(2) by (auto simp: mergeable_def q core_chunk_def)
    then show False using assms(2) by simp
  qed
qed

lemma core_chunk_short:
  assumes "(n + 16) mod 4096 = 4080"
  shows "\<not> fits n (core_chunk rng (core_pages n))"
proof -
  define q where "q = (n + 16) div 4096"
  have "n + 16 = 4096 * q + 4080" using div_mult_mod_eq [of "n + 16" 4096] assms by (simp add: q_def)
  then show ?thesis by (simp add: fits_def core_chunk_def core_pages_def q_def [symmetric])
qed

text \<open>
  Claim C38 (sizes that cannot be allocated). When the size of a request with its header is 16 bytes short of a
  multiple of the page size (4064 bytes, for example), a chunk that \<^verbatim>\<open>morecore\<close> makes for it is never taken:
  it is larger than the request, but by less than a header. If nothing on the free list fits, the call
  takes two ranges from the physical allocator and then reaches \<^verbatim>\<open>unreachable!\<close>.
\<close>

theorem slob_alloc_unreachable:
  assumes "x86_64_laws X" "heap_ok h cs L" "layout_ok l" "n = payload l" "(n + 16) mod 4096 = 4080" "take_chunk n cs = None"
    and "pages_order dbg (of_nat (core_pages n)) = Inr order"
    and "pmm_alloc X dbg order (hp_pmm h) = Inr (rng1, pmm1, ev1)" "pmm_alloc X dbg order pmm1 = Inr (rng2, pmm2, ev2)"
  shows "heap_alloc X dbg l h = Some (Inl Unreachable)"
proof -
  let ?c = "\<lambda>rng. core_chunk rng (core_pages n)"
  have n: "n < 2 ^ 63 + 16" "0 < core_pages n" using payload_props [of l] assms(3,4) by (auto simp: layout_ok_def core_pages_def)
  have order: "core_pages n \<le> 2 ^ unat order" by (rule core_pages_order [OF n(1), of dbg]) (use assms(7) in simp)
  obtain h1 where h1: "heap_ok h1 (free_chunk (?c rng1) cs) L" "hp_pmm h1 = pmm1"
    "alloc_passes (Suc 1) X dbg (of_nat n) (of_nat (n + 16)) h =
      bind_run (alloc_passes 1 X dbg (of_nat n) (of_nat (n + 16)) h1) (\<lambda>(ptr, h'', ev'). Some (Inr (ptr, h'', ev1 @ ev')))"
    by (rule alloc_passes_grow [OF assms(1,2) n(1) assms(6,7) order assms(8)]) blast
  have "order_range (unat order) rng1" using pmm_alloc_range [OF assms(1) _ assms(8)] assms(2) by (simp add: heap_ok_def)
  from core_chunk_not_mergeable [OF this n(2) order] have "set (free_chunk (?c rng1) cs) = insert (?c rng1) (set cs)"
    by (intro free_chunk_apart) simp
  then have none: "take_chunk n (free_chunk (?c rng1) cs) = None"
    using assms(6) core_chunk_short [OF assms(5)] by (simp add: take_chunk_None)
  have alloc2: "pmm_alloc X dbg order (hp_pmm h1) = Inr (rng2, pmm2, ev2)" using h1(2) assms(9) by simp
  obtain h2 where "alloc_passes (Suc 0) X dbg (of_nat n) (of_nat (n + 16)) h1 =
      bind_run (alloc_passes 0 X dbg (of_nat n) (of_nat (n + 16)) h2) (\<lambda>(ptr, h'', ev'). Some (Inr (ptr, h'', ev2 @ ev')))"
    by (rule alloc_passes_grow [OF assms(1) h1(1) n(1) none assms(7) order alloc2]) blast
  then have "alloc_passes 1 X dbg (of_nat n) (of_nat (n + 16)) h1 = Some (Inl Unreachable)" by simp
  with h1(3) show ?thesis
    using heap_alloc_passes [OF assms(3), of X dbg h] by (simp add: assms(4) numeral_2_eq_2 del: alloc_passes.simps of_nat_add)
qed

theorem slob_alloc_unreachable_witness:
  "heap_alloc x86_64_ref True \<lparr>lay_size = 4064, lay_align = 16\<rparr> (heap_new (\<lambda>x. \<lparr>blk_size = 0, blk_next = None\<rparr>) (Some [new_zone 0x1000 3]))
    = Some (Inl Unreachable)"
proof -
  let ?h = "heap_new (\<lambda>x. \<lparr>blk_size = 0, blk_next = None\<rparr>) (Some [new_zone 0x1000 3])"
  have "pmm_apart (Some [new_zone 0x1000 3])" using sample_zones by (simp add: pmm_apart_def zones_apart_def)
  then have h: "heap_ok ?h [] {}" by (simp add: heap_ok_def heap_new_def live_ok_def)
  have "is_pow2 16" unfolding is_pow2_iff by (rule exI [of _ 4]) simp
  then have l: "layout_ok \<lparr>lay_size = 4064, lay_align = 16\<rparr>" "4064 = payload \<lparr>lay_size = 4064, lay_align = 16\<rparr>"
    by (simp_all add: layout_ok_def payload_def round_up_def)
  have o: "pages_order True (of_nat (core_pages 4064)) = Inr 0" by (simp add: core_pages_def pages_order_1)
  obtain r pmm1 e1 q pmm2 e2 where "pmm_alloc x86_64_ref True 0 (hp_pmm ?h) = Inr (r, pmm1, e1)"
    "pmm_alloc x86_64_ref True 0 pmm1 = Inr (q, pmm2, e2)" unfolding heap_new_def heap.select_convs by (rule sample_two_pages)
  from slob_alloc_unreachable [OF x86_64_laws_ref h l _ _ o this] show ?thesis by simp
qed

text \<open>
  Alignments above 16. A debug build panics on every request whose alignment exceeds that of a header: the
  payload then starts at the alignment and not right behind the header, and \<^verbatim>\<open>alloc_inner\<close> asserts that it
  does.
\<close>

lemma slob_align_panics:
  assumes "is_pow2 (lay_align l)" "16 < unat (lay_align l)" "unat (lay_align l) < 2 ^ 62" "unat (lay_size l) < 2 ^ 62"
  shows "heap_alloc X True l h = Some (Inl Debug_Assert_Failed)"
proof -
  let ?a = "unat (lay_align l)" and ?s = "unat (lay_size l)"
  have mx: "max 16 (lay_align l) = lay_align l" using assms(2) by (intro max_absorb2) (simp add: word_le_nat_alt)
  have off: "round_up 16 ?a = ?a"
  proof -
    have "(15 + ?a) div ?a = 15 div ?a + 1" using assms(2) by (intro div_add_self2) simp
    then have "(16 + ?a - 1) div ?a = 1" using assms(2) by simp
    then show ?thesis by (simp add: round_up_def)
  qed
  have u: "unat (of_nat (?a + ?s) :: u64) = ?a + ?s" using assms(3,4) by (intro unat_of_nat_small) simp
  have "round_up (?a + ?s) ?a < ?a + ?s + ?a" using assms(2) by (intro round_up_less) simp
  then have r: "round_up (?a + ?s) ?a < 2 ^ 64" "?a + ?s \<le> round_up (?a + ?s) ?a"
    using assms(2-4) round_up_ge [of ?a "?a + ?s"] by simp_all
  then have "from_size_align (of_nat (?a + ?s)) (lay_align l) = Some \<lparr>lay_size = of_nat (?a + ?s), lay_align = lay_align l\<rparr>"
    using assms(1) unfolding from_size_align_def u by (simp del: of_nat_add)
  then have "layout_extend \<lparr>lay_size = 16, lay_align = 16\<rparr> l = Some (\<lparr>lay_size = of_nat (?a + ?s), lay_align = lay_align l\<rparr>, lay_align l)"
    using assms(3,4) unfolding layout_extend_def by (simp add: Let_def mx off del: of_nat_add)
  moreover have "pad_to_align \<lparr>lay_size = 16, lay_align = 16\<rparr> = \<lparr>lay_size = 16, lay_align = 16\<rparr>"
    by (simp add: pad_to_align_def round_up_def)
  moreover have "sub_w True (of_nat (round_up (?a + ?s) ?a)) (lay_align l) = Inr (of_nat (round_up (?a + ?s) ?a) - lay_align l)"
    using r by (intro sub_w_Inr) (simp add: unat_of_nat_small)
  moreover have "lay_align l \<noteq> 16" using assms(2) by auto
  ultimately show ?thesis
    by (simp add: heap_alloc_def alloc_inner_def block_layout_def size_of_slob_block_def align_of_slob_block_def
        from_size_align_16 pad_to_align_def u debug_assert_def del: of_nat_add)
qed

lemma slob_align_panics_witness:
  "heap_alloc x86_64_ref True \<lparr>lay_size = 64, lay_align = 64\<rparr> sample_heap = Some (Inl Debug_Assert_Failed)"
proof (rule slob_align_panics)
  show "is_pow2 (lay_align \<lparr>lay_size = 64, lay_align = 64\<rparr>)" unfolding is_pow2_iff by (rule exI [of _ 6]) simp
qed simp_all

subsection \<open>Listing the free list\<close>

lemma heap_debug_rep:
  assumes "rep mem p cs None" "free_ok cs"
  shows "heap_debug dbg mem p = Some (Inr (map (\<lambda>c. (allocation (ptr_of c), of_nat (snd c), blk_next (mem (ptr_of c)))) cs))"
  using assms
proof (induction cs arbitrary: p)
  case Nil
  then show ?case by (subst heap_debug.simps) simp
next
  case (Cons c cs)
  have "blk_next (mem (ptr_of c)) \<noteq> Some (ptr_of c)"
  proof (cases cs)
    case (Cons d ds)
    have "ptr_of d \<noteq> ptr_of c"
      by (rule free_ok_distinct [of "[]" c cs]) (use \<open>free_ok (c # cs)\<close> Cons in simp_all)
    with Cons \<open>rep mem p (c # cs) None\<close> show ?thesis by simp
  qed (use Cons.prems(1) in simp)
  with Cons show ?case by (subst heap_debug.simps) (simp add: header_def)
qed

text \<open>
  \<^verbatim>\<open>SlobAllocator::debug\<close>. On a well-formed heap the walk over the free list ends, its check for a block
  that is its own successor does not fail, and it logs exactly the chunks of the free list in order of
  address, with their sizes and successors.
\<close>

lemma slob_debug_lists:
  assumes "heap_ok h cs L"
  shows "heap_debug dbg (hp_mem h) (hp_head h)
    = Some (Inr (map (\<lambda>c. (allocation (ptr_of c), of_nat (snd c), blk_next (hp_mem h (ptr_of c)))) cs))"
  using assms by (intro heap_debug_rep) (simp_all add: heap_ok_def)

lemma slob_debug_lists_witness:
  "heap_debug True (hp_mem sample_heap) (hp_head sample_heap) = Some (Inr [(0xFFFF800001000010, 4080, None)])"
  using slob_debug_lists [OF sample_heap_ok, of True] by (simp add: sample_heap_def allocation_def size_of_slob_block_def)

end
