(* ===== verification/Ransid.thy ===== *)
theory Ransid
  imports Rust_Core "HOL-Library.Sublist"
begin

text \<open>
  The escape sequence parser of the console (\<^verbatim>\<open>drivers/vga/ransid.rs\<close>). Every byte of the output goes through
  \<open>ransid_process\<close>, a state machine that strips the sequences \<^verbatim>\<open>ESC [ p ; ... ; p m\<close> and gives the remaining
  bytes the style they select.

  The lemmas show that the machine cannot panic, what its states mean (\<open>ransid_ok\<close>), and that it decodes
  what a writer of such sequences encodes: \<open>item\<close> is the abstract syntax of a styled text, \<open>item_bytes\<close> its
  encoding, \<open>shown\<close> its meaning over the named colours.
\<close>

subsection \<open>Data\<close>

abbreviation ascii :: "char \<Rightarrow> u8" where
  "ascii c \<equiv> of_char c"

definition str_bytes :: "string \<Rightarrow> u8 list" where
  "str_bytes s = map ascii s"

definition ESC :: u8 where
  "ESC = 0x1B"

datatype State = Esc | Bracket | Parse | BgColor | FgColor | Equals | EndVal

datatype Color =
    Black | Blue | Green | Cyan | Red | Magenta | Brown | LightGrey
  | DarkGrey | LightBlue | LightGreen | LightCyan | LightRed | LightMagenta | LightBrown | White

fun color_u8 :: "Color \<Rightarrow> u8" where
  "color_u8 Black = 0x00"
| "color_u8 Blue = 0x01"
| "color_u8 Green = 0x02"
| "color_u8 Cyan = 0x03"
| "color_u8 Red = 0x04"
| "color_u8 Magenta = 0x05"
| "color_u8 Brown = 0x06"
| "color_u8 LightGrey = 0x07"
| "color_u8 DarkGrey = 0x08"
| "color_u8 LightBlue = 0x09"
| "color_u8 LightGreen = 0x0A"
| "color_u8 LightCyan = 0x0B"
| "color_u8 LightRed = 0x0C"
| "color_u8 LightMagenta = 0x0D"
| "color_u8 LightBrown = 0x0E"
| "color_u8 White = 0x0F"

record RansidState =
  rs_state :: State
  rs_style :: u8
  rs_next_style :: u8

record ColorChar =
  cc_style :: u8
  cc_ascii :: u8

definition create_style :: "Color \<Rightarrow> Color \<Rightarrow> u8" where
  "create_style bg fg = push_bit 4 (color_u8 bg) OR color_u8 fg"

definition convert_color :: "u8 \<Rightarrow> u8 res" where
  "convert_color color = index_res [0, 4, 2, 6, 1, 5, 3, 7] (unat color)"

subsection \<open>The state machine\<close>

text \<open>
  \<open>ransid_step\<close> is the outer \<^verbatim>\<open>match\<close> of \<^verbatim>\<open>ransid_process\<close>: the new state and the byte in \<^verbatim>\<open>rv.ascii\<close>, which
  stays 0 where the arm does not assign it.
\<close>

definition ransid_step :: "bool \<Rightarrow> RansidState \<Rightarrow> u8 \<Rightarrow> (RansidState \<times> u8) res" where
  "ransid_step dbg s x =
    (case rs_state s of
      Esc \<Rightarrow>
        if x = ESC then Inr (s\<lparr>rs_state := Bracket\<rparr>, 0) else Inr (s, x)
    | Bracket \<Rightarrow>
        if x = ascii CHR ''['' then Inr (s\<lparr>rs_state := Parse\<rparr>, 0) else Inr (s\<lparr>rs_state := Esc\<rparr>, x)
    | Parse \<Rightarrow>
        if x = ascii CHR ''3'' then Inr (s\<lparr>rs_state := FgColor\<rparr>, 0)
        else if x = ascii CHR ''4'' then Inr (s\<lparr>rs_state := BgColor\<rparr>, 0)
        else if x = ascii CHR ''0'' then Inr (s\<lparr>rs_state := EndVal, rs_next_style := color_u8 White\<rparr>, 0)
        else if x = ascii CHR ''1'' then Inr (s\<lparr>rs_state := EndVal, rs_next_style := rs_next_style s OR push_bit 3 1\<rparr>, 0)
        else if x = ascii CHR ''='' then Inr (s\<lparr>rs_state := Equals\<rparr>, 0)
        else Inr (s\<lparr>rs_state := Esc, rs_next_style := rs_style s\<rparr>, x)
    | BgColor \<Rightarrow>
        if ascii CHR ''0'' \<le> x \<and> x \<le> ascii CHR ''7'' then
          bind_res (sub_w dbg x (ascii CHR ''0'')) (\<lambda>d.
          bind_res (convert_color d) (\<lambda>c.
            Inr (s\<lparr>rs_state := EndVal, rs_next_style := (rs_next_style s AND 0x1F) OR push_bit 4 c\<rparr>, 0)))
        else Inr (s\<lparr>rs_state := Esc, rs_next_style := rs_style s\<rparr>, x)
    | FgColor \<Rightarrow>
        if ascii CHR ''0'' \<le> x \<and> x \<le> ascii CHR ''7'' then
          bind_res (sub_w dbg x (ascii CHR ''0'')) (\<lambda>d.
          bind_res (convert_color d) (\<lambda>c.
            Inr (s\<lparr>rs_state := EndVal, rs_next_style := (rs_next_style s AND 0xF8) OR c\<rparr>, 0)))
        else Inr (s\<lparr>rs_state := Esc, rs_next_style := rs_style s\<rparr>, x)
    | Equals \<Rightarrow>
        if x = ascii CHR ''1'' then Inr (s\<lparr>rs_state := EndVal, rs_next_style := rs_next_style s AND NOT (push_bit 3 1)\<rparr>, 0)
        else Inr (s\<lparr>rs_state := Esc, rs_next_style := rs_style s\<rparr>, x)
    | EndVal \<Rightarrow>
        if x = ascii CHR '';'' then Inr (s\<lparr>rs_state := Parse\<rparr>, 0)
        else if x = ascii CHR ''m'' then Inr (s\<lparr>rs_state := Esc, rs_style := rs_next_style s\<rparr>, 0)
        else Inr (s\<lparr>rs_state := Esc, rs_next_style := rs_style s\<rparr>, 0))"

definition ransid_process :: "bool \<Rightarrow> RansidState \<Rightarrow> u8 \<Rightarrow> (RansidState \<times> ColorChar option) res" where
  "ransid_process dbg s x =
    bind_res (ransid_step dbg s x) (\<lambda>(s', ch).
      Inr (s', if ch = 0 then None else Some \<lparr>cc_style = rs_style s, cc_ascii = ch\<rparr>))"

text \<open>Feeding a byte string to the machine, as the loops of \<^verbatim>\<open>RansidState::new\<close> and \<^verbatim>\<open>Writer::write_str\<close> do.\<close>

fun emitted :: "'a option \<Rightarrow> 'a list" where
  "emitted None = []"
| "emitted (Some x) = [x]"

fun ransid_run :: "bool \<Rightarrow> RansidState \<Rightarrow> u8 list \<Rightarrow> (RansidState \<times> ColorChar list) res" where
  "ransid_run dbg s [] = Inr (s, [])"
| "ransid_run dbg s (x # xs) =
    bind_res (ransid_process dbg s x) (\<lambda>(s', out).
    bind_res (ransid_run dbg s' xs) (\<lambda>(s'', outs).
      Inr (s'', emitted out @ outs)))"

definition ransid_new :: "bool \<Rightarrow> RansidState res" where
  "ransid_new dbg =
    bind_res (ransid_run dbg \<lparr>rs_state = Esc, rs_style = 0, rs_next_style = 0\<rparr> (ESC # str_bytes ''[0m''))
      (\<lambda>(s, _). Inr s)"

subsection \<open>No panic, and the invariant\<close>

text \<open>
  Between sequences the pending style is the current one, and neither has the blink bit: bit 7 of a VGA
  attribute.
\<close>

definition ransid_ok :: "RansidState \<Rightarrow> bool" where
  "ransid_ok s \<longleftrightarrow>
    (rs_state s \<in> {Esc, Bracket} \<longrightarrow> rs_next_style s = rs_style s) \<and> \<not> bit (rs_style s) 7 \<and> \<not> bit (rs_next_style s) 7"

lemma digit_byte:
  assumes "(48 :: u8) \<le> x" "x \<le> 55"
  obtains n where "n < 8" "x = 48 + of_nat n" "sub_w dbg x 48 = Inr (of_nat n)"
proof (rule that [of "unat x - 48"])
  have x: "48 \<le> unat x" "unat x \<le> 55" using assms by (simp_all add: word_le_nat_alt)
  then show "unat x - 48 < 8" by simp
  have "of_nat (unat x - 48) = x - 48" using x by (simp add: of_nat_diff)
  then show "x = 48 + of_nat (unat x - 48)" "sub_w dbg x 48 = Inr (of_nat (unat x - 48))"
    using x by (simp_all add: sub_w_def)
qed

definition ansi_code :: "nat \<Rightarrow> u8" where
  "ansi_code n = [0, 4, 2, 6, 1, 5, 3, 7] ! n"

lemma convert_color_eq: "n < 8 \<Longrightarrow> convert_color (of_nat n) = Inr (ansi_code n)"
  by (simp add: convert_color_def ansi_code_def unat_of_nat_small)

lemma less_8_cases: "n < 8 \<Longrightarrow> n \<in> {0, 1, 2, 3, 4, 5, 6, 7 :: nat}"
  by auto

lemma ansi_code_bits: "n < 8 \<Longrightarrow> ansi_code n < 8"
  using less_8_cases [of n] by (auto simp: ansi_code_def)

lemma ransid_step_emits: "ransid_step dbg s x = Inr (s', ch) \<Longrightarrow> ch = 0 \<or> ch = x \<and> rs_state s' = Esc"
  by (auto simp: ransid_step_def res_elim split: State.splits if_splits)

lemma ransid_step_ok:
  assumes "ransid_ok s"
  shows "\<exists>s' ch. ransid_step dbg s x = Inr (s', ch) \<and> ransid_ok s'"
proof (cases "rs_state s \<in> {BgColor, FgColor} \<and> 48 \<le> x \<and> x \<le> 55")
  case True
  then obtain n where n: "n < 8" "sub_w dbg x 48 = Inr (of_nat n)" by (blast elim: digit_byte)
  have c: "\<not> bit (ansi_code n) 7" "\<not> bit (push_bit 4 (ansi_code n)) 7" "\<not> bit (0x1F :: u8) 7"
    using less_8_cases [OF n(1)] by (auto simp: ansi_code_def)
  from True consider "rs_state s = BgColor" | "rs_state s = FgColor" by blast
  then show ?thesis
    using True n c assms by cases (simp_all add: ransid_step_def ransid_ok_def convert_color_eq bit_or_iff bit_and_iff)
next
  case False
  with assms show ?thesis
    by (cases "rs_state s") (simp_all add: ransid_step_def ransid_ok_def bit_or_iff bit_and_iff, blast+)
qed

lemma ransid_process_ok:
  assumes "ransid_ok s"
  obtains s' out where "ransid_process dbg s x = Inr (s', out)" "ransid_ok s'"
    "\<And>cc. out = Some cc \<Longrightarrow> cc = \<lparr>cc_style = rs_style s, cc_ascii = x\<rparr> \<and> rs_state s' = Esc"
proof -
  obtain s' ch where "ransid_step dbg s x = Inr (s', ch)" "ransid_ok s'" using ransid_step_ok [OF assms] by blast
  with ransid_step_emits [OF this(1)] show ?thesis
    by (intro that [of s' "if ch = 0 then None else Some \<lparr>cc_style = rs_style s, cc_ascii = ch\<rparr>"])
      (auto simp: ransid_process_def split: if_splits)
qed

lemma ransid_run_ok:
  assumes "ransid_ok s"
  shows "\<exists>s' outs. ransid_run dbg s xs = Inr (s', outs) \<and> ransid_ok s'
    \<and> subseq (map cc_ascii outs) xs \<and> list_all (\<lambda>cc. \<not> bit (cc_style cc) 7) outs"
  using assms
proof (induction xs arbitrary: s)
  case Nil
  then show ?case by simp
next
  case (Cons x xs)
  obtain s' out where p: "ransid_process dbg s x = Inr (s', out)" "ransid_ok s'"
    "\<And>cc. out = Some cc \<Longrightarrow> cc = \<lparr>cc_style = rs_style s, cc_ascii = x\<rparr> \<and> rs_state s' = Esc"
    by (rule ransid_process_ok [OF Cons.prems]) blast
  from Cons.IH [OF p(2)] obtain s'' outs where r: "ransid_run dbg s' xs = Inr (s'', outs)" "ransid_ok s''"
    "subseq (map cc_ascii outs) xs" "list_all (\<lambda>cc. \<not> bit (cc_style cc) 7) outs"
    by blast
  from p(3) Cons.prems have "list_all (\<lambda>cc. \<not> bit (cc_style cc) 7 \<and> cc_ascii cc = x) (emitted out)"
    by (cases out) (simp_all add: ransid_ok_def)
  with p(1) r show ?case by (cases out) (simp_all add: list_emb_Cons)
qed

lemma ransid_run_append:
  "ransid_run dbg s (xs @ ys) =
    bind_res (ransid_run dbg s xs) (\<lambda>(s', outs).
    bind_res (ransid_run dbg s' ys) (\<lambda>(s'', outs'). Inr (s'', outs @ outs')))"
proof (induction xs arbitrary: s)
  case Nil
  then show ?case by (simp add: bind_res_def split: sum.splits)
next
  case (Cons x xs)
  then show ?case
    by (simp add: bind_res_assoc case_prod_beta')
qed

subsection \<open>Styled text and its encoding\<close>

text \<open>
  The commands of a sequence and their intended effect on the colours: \<open>Fg n\<close> and \<open>Bg n\<close> select one of the
  eight ANSI colours, \<open>Bold\<close> and \<open>Faint\<close> switch the foreground between its light and dark variants.
\<close>

datatype sgr = Reset | Bold | Faint | Fg nat | Bg nat

record attr =
  at_bg :: Color
  at_fg :: Color

definition ansi_color :: "nat \<Rightarrow> Color" where
  "ansi_color n = [Black, Red, Green, Brown, Blue, Magenta, Cyan, LightGrey] ! n"

fun bright :: "Color \<Rightarrow> Color" where
  "bright Black = DarkGrey"
| "bright Blue = LightBlue"
| "bright Green = LightGreen"
| "bright Cyan = LightCyan"
| "bright Red = LightRed"
| "bright Magenta = LightMagenta"
| "bright Brown = LightBrown"
| "bright LightGrey = White"
| "bright c = c"

fun dim :: "Color \<Rightarrow> Color" where
  "dim DarkGrey = Black"
| "dim LightBlue = Blue"
| "dim LightGreen = Green"
| "dim LightCyan = Cyan"
| "dim LightRed = Red"
| "dim LightMagenta = Magenta"
| "dim LightBrown = Brown"
| "dim White = LightGrey"
| "dim c = c"

fun sgr_attr :: "sgr \<Rightarrow> attr \<Rightarrow> attr" where
  "sgr_attr Reset a = \<lparr>at_bg = Black, at_fg = White\<rparr>"
| "sgr_attr Bold a = a\<lparr>at_fg := bright (at_fg a)\<rparr>"
| "sgr_attr Faint a = a\<lparr>at_fg := dim (at_fg a)\<rparr>"
| "sgr_attr (Fg n) a = a\<lparr>at_fg := (if bright (at_fg a) = at_fg a then bright (ansi_color n) else ansi_color n)\<rparr>"
| "sgr_attr (Bg n) a = a\<lparr>at_bg := ansi_color n\<rparr>"

fun sgr_bytes :: "sgr \<Rightarrow> u8 list" where
  "sgr_bytes Reset = [ascii CHR ''0'']"
| "sgr_bytes Bold = [ascii CHR ''1'']"
| "sgr_bytes Faint = [ascii CHR ''='', ascii CHR ''1'']"
| "sgr_bytes (Fg n) = [ascii CHR ''3'', ascii CHR ''0'' + of_nat n]"
| "sgr_bytes (Bg n) = [ascii CHR ''4'', ascii CHR ''0'' + of_nat n]"

fun sgrs_bytes :: "sgr list \<Rightarrow> u8 list" where
  "sgrs_bytes [] = []"
| "sgrs_bytes [c] = sgr_bytes c @ [ascii CHR ''m'']"
| "sgrs_bytes (c # cs) = sgr_bytes c @ ascii CHR '';'' # sgrs_bytes cs"

text \<open>
  A command is supported when its colour exists and, for a background, when the blue bit of the present
  background does not survive: \<^verbatim>\<open>ransid_process\<close> masks with \<^verbatim>\<open>0x1F\<close>, which keeps this bit.
\<close>

fun sgr_ok :: "attr \<Rightarrow> sgr \<Rightarrow> bool" where
  "sgr_ok a (Fg n) \<longleftrightarrow> n < 8"
| "sgr_ok a (Bg n) \<longleftrightarrow> n < 8 \<and> (bit (color_u8 (at_bg a)) 0 \<longrightarrow> bit (color_u8 (ansi_color n)) 0)"
| "sgr_ok a c \<longleftrightarrow> True"

fun sgrs_ok :: "attr \<Rightarrow> sgr list \<Rightarrow> bool" where
  "sgrs_ok a [] \<longleftrightarrow> True"
| "sgrs_ok a (c # cs) \<longleftrightarrow> sgr_ok a c \<and> sgrs_ok (sgr_attr c a) cs"

datatype item = Text "u8 list" | Sgr "sgr list"

fun item_bytes :: "item \<Rightarrow> u8 list" where
  "item_bytes (Text t) = t"
| "item_bytes (Sgr cs) = ESC # ascii CHR ''['' # sgrs_bytes cs"

fun item_attr :: "item \<Rightarrow> attr \<Rightarrow> attr" where
  "item_attr (Text t) a = a"
| "item_attr (Sgr cs) a = fold sgr_attr cs a"

fun items_ok :: "attr \<Rightarrow> item list \<Rightarrow> bool" where
  "items_ok a [] \<longleftrightarrow> True"
| "items_ok a (Text t # is) \<longleftrightarrow> 0 \<notin> set t \<and> ESC \<notin> set t \<and> items_ok a is"
| "items_ok a (Sgr cs # is) \<longleftrightarrow> cs \<noteq> [] \<and> sgrs_ok a cs \<and> items_ok (fold sgr_attr cs a) is"

fun shown :: "attr \<Rightarrow> item list \<Rightarrow> (attr \<times> u8) list" where
  "shown a [] = []"
| "shown a (Text t # is) = map (Pair a) t @ shown a is"
| "shown a (Sgr cs # is) = shown (fold sgr_attr cs a) is"

definition attr_style :: "attr \<Rightarrow> u8" where
  "attr_style a = create_style (at_bg a) (at_fg a)"

definition attr_state :: "State \<Rightarrow> u8 \<Rightarrow> attr \<Rightarrow> RansidState" where
  "attr_state m st a = \<lparr>rs_state = m, rs_style = st, rs_next_style = attr_style a\<rparr>"

lemma ansi_code_color: "n < 8 \<Longrightarrow> ansi_code n = color_u8 (ansi_color n)"
  using less_8_cases [of n] by (auto simp: ansi_code_def ansi_color_def)

lemma style_Reset: "create_style Black White = 0x0F"
  by (simp add: create_style_def)

lemma style_Bold: "create_style bg fg OR 8 = create_style bg (bright fg)"
proof -
  have "color_u8 fg OR 8 = color_u8 (bright fg)" by (cases fg) simp_all
  then show ?thesis by (simp add: create_style_def or.assoc)
qed

lemma style_and: "create_style bg fg AND m = (push_bit 4 (color_u8 bg) AND m) OR (color_u8 fg AND m)"
  by (simp add: create_style_def bit.conj_disj_distrib2)

lemma style_Faint: "create_style bg fg AND NOT 8 = create_style bg (dim fg)"
proof -
  have "color_u8 fg AND NOT 8 = color_u8 (dim fg)" by (cases fg) simp_all
  moreover have "push_bit 4 (color_u8 bg) AND NOT 8 = push_bit 4 (color_u8 bg)" by (cases bg) simp_all
  ultimately show ?thesis unfolding style_and by (simp add: create_style_def)
qed

lemma style_Fg:
  assumes "n < 8"
  shows "create_style bg fg AND 0xF8 OR ansi_code n
    = create_style bg (if bright fg = fg then bright (ansi_color n) else ansi_color n)"
proof -
  have "color_u8 fg AND 0xF8 = (if bright fg = fg then 8 else 0)" by (cases fg) simp_all
  moreover have "push_bit 4 (color_u8 bg) AND 0xF8 = push_bit 4 (color_u8 bg)" by (cases bg) simp_all
  moreover have "8 OR ansi_code n = color_u8 (bright (ansi_color n))"
    using less_8_cases [OF assms] by (auto simp: ansi_code_def ansi_color_def)
  ultimately show ?thesis
    using assms unfolding style_and by (simp add: create_style_def or.assoc ansi_code_color)
qed

lemma style_Bg:
  assumes "n < 8"
  shows "create_style bg fg AND 0x1F OR push_bit 4 (ansi_code n) = push_bit 4 ((color_u8 bg AND 1) OR ansi_code n) OR color_u8 fg"
proof -
  have "color_u8 fg AND 0x1F = color_u8 fg" by (cases fg) simp_all
  moreover have "push_bit 4 (color_u8 bg) AND 0x1F = push_bit 4 (color_u8 bg AND 1)" by (cases bg) simp_all
  ultimately show ?thesis unfolding style_and by (simp add: push_bit_or or.commute or.left_commute)
qed

lemma digit_bounds:
  assumes "n < 8"
  shows "48 \<le> (48 + of_nat n :: u8)" "(48 + of_nat n :: u8) \<le> 55" "sub_w dbg (48 + of_nat n :: u8) 48 = Inr (of_nat n)"
  using less_8_cases [OF assms] by (auto simp: sub_w_def)

lemma ransid_run_sgr:
  assumes "sgr_ok a c"
  shows "ransid_run dbg (attr_state Parse st a) (sgr_bytes c @ xs)
    = ransid_run dbg (attr_state EndVal st (sgr_attr c a)) xs"
proof (cases c)
  case (Fg n)
  with assms show ?thesis
    by (simp add: ransid_process_def ransid_step_def attr_state_def attr_style_def digit_bounds convert_color_eq
        style_Fg case_prod_beta' bind_res_assoc)
next
  case (Bg n)
  with assms have n: "n < 8" and keep: "bit (color_u8 (at_bg a)) 0 \<Longrightarrow> bit (color_u8 (ansi_color n)) 0" by simp_all
  have "color_u8 (at_bg a) AND 1 OR ansi_code n = color_u8 (ansi_color n)"
  proof (cases "bit (color_u8 (at_bg a)) 0")
    case True
    then have "color_u8 (at_bg a) AND 1 = 1" by (simp add: and_one_eq bit_0 mod2_eq_if)
    moreover have "1 OR ansi_code n = ansi_code n"
      using keep [OF True] less_8_cases [OF n] by (auto simp: ansi_code_def ansi_color_def)
    ultimately show ?thesis using n by (simp add: ansi_code_color)
  next
    case False
    then have "color_u8 (at_bg a) AND 1 = 0" by (simp add: and_one_eq bit_0 mod2_eq_if)
    then show ?thesis using n by (simp add: ansi_code_color)
  qed
  then have "create_style (at_bg a) (at_fg a) AND 0x1F OR push_bit 4 (ansi_code n) = create_style (ansi_color n) (at_fg a)"
    using style_Bg [OF n, of "at_bg a" "at_fg a"] by (simp add: create_style_def)
  with Bg n show ?thesis
    by (simp add: ransid_process_def ransid_step_def attr_state_def attr_style_def digit_bounds convert_color_eq)
qed (simp_all add: ransid_process_def ransid_step_def attr_state_def attr_style_def style_Bold style_Faint [simplified]
    style_Reset)

lemma ransid_run_sgrs:
  assumes "sgrs_ok a cs" "cs \<noteq> []"
  shows "ransid_run dbg (attr_state Parse st a) (sgrs_bytes cs @ xs)
    = ransid_run dbg (attr_state Esc (attr_style (fold sgr_attr cs a)) (fold sgr_attr cs a)) xs"
  using assms
proof (induction cs arbitrary: a rule: sgrs_bytes.induct)
  case (2 c)
  then show ?case
    by (simp add: ransid_run_sgr) (simp add: ransid_process_def ransid_step_def attr_state_def)
next
  case (3 c d cs)
  then have ok: "sgr_ok a c" "sgrs_ok (sgr_attr c a) (d # cs)" by simp_all
  have "ransid_run dbg (attr_state Parse st a) (sgrs_bytes (c # d # cs) @ xs)
    = ransid_run dbg (attr_state Parse st (sgr_attr c a)) (sgrs_bytes (d # cs) @ xs)"
    by (simp add: ransid_run_sgr [OF ok(1)]) (simp add: ransid_process_def ransid_step_def attr_state_def)
  with "3.IH" [OF ok(2)] show ?case by simp
qed simp

lemma ransid_run_text:
  assumes "0 \<notin> set t" "ESC \<notin> set t" "rs_state s = Esc"
  shows "ransid_run dbg s t = Inr (s, map (\<lambda>c. \<lparr>cc_style = rs_style s, cc_ascii = c\<rparr>) t)"
  using assms by (induction t) (auto simp: ransid_process_def ransid_step_def)

lemma ransid_run_Sgr:
  "ransid_run dbg (attr_state Esc st a) (item_bytes (Sgr cs) @ xs) = ransid_run dbg (attr_state Parse st a) (sgrs_bytes cs @ xs)"
  by (simp add: ransid_process_def ransid_step_def attr_state_def)

lemma ransid_run_items:
  assumes "items_ok a is"
  shows "ransid_run dbg (attr_state Esc (attr_style a) a) (concat (map item_bytes is))
    = Inr (attr_state Esc (attr_style (fold item_attr is a)) (fold item_attr is a),
           map (\<lambda>(a, c). \<lparr>cc_style = attr_style a, cc_ascii = c\<rparr>) (shown a is))"
  using assms
proof (induction a "is" rule: items_ok.induct)
  case (2 a t "is")
  then show ?case
    by (simp add: ransid_run_append ransid_run_text attr_state_def comp_def)
next
  case (3 a cs "is")
  then have "ransid_run dbg (attr_state Parse (attr_style a) a) (sgrs_bytes cs @ concat (map item_bytes is))
    = ransid_run dbg (attr_state Esc (attr_style (fold sgr_attr cs a)) (fold sgr_attr cs a)) (concat (map item_bytes is))"
    by (intro ransid_run_sgrs) simp_all
  moreover have "ransid_run dbg (attr_state Esc (attr_style a) a) (concat (map item_bytes (Sgr cs # is)))
    = ransid_run dbg (attr_state Parse (attr_style a) a) (sgrs_bytes cs @ concat (map item_bytes is))"
    by (simp add: ransid_run_Sgr del: item_bytes.simps)
  ultimately show ?case using 3 by (simp del: item_bytes.simps)
qed simp

subsection \<open>Properties of the parser\<close>

text \<open>The state of a new console: white on black, between sequences.\<close>

definition plain :: attr where
  "plain = \<lparr>at_bg = Black, at_fg = White\<rparr>"

lemma ransid_new_eq: "ransid_new dbg = Inr (attr_state Esc (attr_style plain) plain)"
  by (simp add: ransid_new_def str_bytes_def ransid_process_def ransid_step_def ESC_def attr_state_def attr_style_def
      plain_def create_style_def)

lemma attr_state_ok:
  assumes "bright (at_bg a) \<noteq> at_bg a"
  shows "ransid_ok (attr_state Esc (attr_style a) a)"
proof -
  have "\<not> bit (push_bit 4 (color_u8 (at_bg a))) 7" using assms by (cases "at_bg a") simp_all
  moreover have "\<not> bit (color_u8 (at_fg a)) 7" by (cases "at_fg a") simp_all
  ultimately show ?thesis by (simp add: ransid_ok_def attr_state_def attr_style_def create_style_def bit_or_iff)
qed

text \<open>
  Claim C32 (the parser cannot panic). From a new console, every byte string whatsoever is processed without a
  panic. What comes out is a subsequence of the input, no character has the blink bit in its style,
  and between two escape sequences the pending style is the current one.
\<close>

theorem ransid_never_panics:
  "\<exists>s s' outs. ransid_new dbg = Inr s \<and> ransid_run dbg s xs = Inr (s', outs) \<and> ransid_ok s'
    \<and> subseq (map cc_ascii outs) xs \<and> list_all (\<lambda>cc. \<not> bit (cc_style cc) 7) outs"
  using ransid_run_ok [OF attr_state_ok [of plain], of dbg xs] by (simp add: ransid_new_eq plain_def)



text \<open>
  The blue bit of the background is never cleared by a background command. Selecting background \<open>m\<close>
  where \<open>n\<close> was selected before gives the code of \<open>m\<close> joined with the lowest bit of the code of \<open>n\<close>: the mask
  \<^verbatim>\<open>0x1F\<close> keeps it. Green after blue, for example, is cyan.
\<close>

lemma ransid_background_kept:
  assumes "n < 8" "m < 8" "sgr_ok a (Bg n)"
  shows "\<exists>s. ransid_run dbg \<lparr>rs_state = Esc, rs_style = attr_style a, rs_next_style = attr_style a\<rparr>
        (item_bytes (Sgr [Bg n]) @ item_bytes (Sgr [Bg m])) = Inr (s, [])
    \<and> rs_state s = Esc
    \<and> rs_style s = push_bit 4 ((color_u8 (ansi_color n) AND 1) OR color_u8 (ansi_color m)) OR color_u8 (at_fg a)"
proof -
  let ?a = "a\<lparr>at_bg := ansi_color n\<rparr>"
  let ?st = "push_bit 4 ((color_u8 (ansi_color n) AND 1) OR color_u8 (ansi_color m)) OR color_u8 (at_fg a)"
  have "attr_style ?a AND 0x1F OR push_bit 4 (ansi_code m) = ?st"
    using style_Bg [OF assms(2), of "ansi_color n" "at_fg a"] assms(2) by (simp add: attr_style_def ansi_code_color)
  then have "ransid_run dbg (attr_state Parse (attr_style ?a) ?a) (sgrs_bytes [Bg m])
    = Inr (\<lparr>rs_state = Esc, rs_style = ?st, rs_next_style = ?st\<rparr>, [])"
    using assms(2) by (simp add: attr_state_def ransid_process_def ransid_step_def digit_bounds convert_color_eq)
  moreover have "ransid_run dbg (attr_state Esc (attr_style ?a) ?a) (item_bytes (Sgr [Bg m]))
    = ransid_run dbg (attr_state Parse (attr_style ?a) ?a) (sgrs_bytes [Bg m])"
    using ransid_run_Sgr [of dbg "attr_style ?a" ?a "[Bg m]" "[]"] by (simp only: append_Nil2)
  moreover have "fold sgr_attr [Bg n] a = ?a" "sgrs_ok a [Bg n]" using assms(3) by simp_all
  note ransid_run_sgrs [OF this(2), unfolded this(1)]
  ultimately have "ransid_run dbg (attr_state Esc (attr_style a) a) (item_bytes (Sgr [Bg n]) @ item_bytes (Sgr [Bg m]))
    = Inr (\<lparr>rs_state = Esc, rs_style = ?st, rs_next_style = ?st\<rparr>, [])"
    by (simp only: ransid_run_Sgr list.distinct not_False_eq_True)
  then show ?thesis unfolding attr_state_def by - (rule exI, rule conjI, assumption, simp)
qed

lemma ransid_background_kept_witness:
  "\<exists>s. ransid_run False \<lparr>rs_state = Esc, rs_style = 0x0F, rs_next_style = 0x0F\<rparr>
        (ESC # str_bytes ''[44m'' @ ESC # str_bytes ''[42m'') = Inr (s, [])
    \<and> rs_style s = create_style Cyan White"
  using ransid_background_kept [of 4 2 plain False]
  by (auto simp: plain_def attr_style_def create_style_def ansi_color_def str_bytes_def simp del: ransid_run.simps)

end
