(* ===== verification/Driver_Crates.thy ===== *)
theory Driver_Crates
  imports Prelude
begin

text \<open>
  The crates the drivers use. \<open>port_io\<close> is the trace of the calls of
  \<^verbatim>\<open>PortWrite::write_to_port\<close> and \<^verbatim>\<open>PortRead::read_from_port\<close> of the \<^verbatim>\<open>x86_64\<close> crate with their arguments, in
  order; what a read returns is an argument of the definition that reads. A cell \<^verbatim>\<open>Volatile<u16>\<close> of the
  \<^verbatim>\<open>volatile\<close> crate is of a type \<open>'v\<close> of its own, with its \<^verbatim>\<open>read\<close> and \<^verbatim>\<open>write\<close> as parameters. Of the \<^verbatim>\<open>log\<close> crate, the levels are its
  documented enumerations, and the comparison of a level with a filter and the name of a level are parameters.
\<close>

datatype port_io =
    Out8 u16 u8
  | Out16 u16 u16
  | Out32 u16 u32
  | In8 u16 u8
  | In16 u16 u16

fun io_port :: "port_io \<Rightarrow> u16" where
  "io_port (Out8 p x) = p"
| "io_port (Out16 p y) = p"
| "io_port (Out32 p z) = p"
| "io_port (In8 p x) = p"
| "io_port (In16 p y) = p"

text \<open>
  A device whose operations access ports and cannot panic as long as its state is intact. A loop of such operations
  cannot panic either.
\<close>

fun io_all :: "('c \<Rightarrow> 's \<Rightarrow> ('s \<times> port_io list) res) \<Rightarrow> 'c list \<Rightarrow> 's \<Rightarrow> ('s \<times> port_io list) res" where
  "io_all put [] s = Inr (s, [])"
| "io_all put (c # cs) s =
    bind_res (put c s) (\<lambda>(s, io). bind_res (io_all put cs s) (\<lambda>(s, io'). Inr (s, io @ io')))"

locale io_device =
  fixes put :: "'c \<Rightarrow> 's \<Rightarrow> ('s \<times> port_io list) res"
    and ok :: "'s \<Rightarrow> bool"
  assumes put_ok: "ok s \<Longrightarrow> \<exists>s' io. put c s = Inr (s', io) \<and> ok s'"
begin

lemma put_Inr:
  assumes "ok s"
  obtains s' io where "put c s = Inr (s', io)" "ok s'"
  using put_ok [OF assms] by blast

lemma all_Inr:
  assumes "ok s"
  obtains s' io where "io_all put cs s = Inr (s', io)" "ok s'"
proof -
  have "\<exists>s' io. io_all put cs s = Inr (s', io) \<and> ok s'" using assms
  proof (induction cs arbitrary: s)
    case (Cons c cs)
    then obtain s1 io1 where "put c s = Inr (s1, io1)" "ok s1" using put_ok by blast
    with Cons.IH [of s1] show ?case by auto
  qed simp
  then show ?thesis using that by blast
qed

end

record 'v volatile =
  vol_read :: "'v \<Rightarrow> u16"
  vol_write :: "'v \<Rightarrow> u16 \<Rightarrow> 'v"

definition volatile_laws :: "'v volatile \<Rightarrow> bool" where
  "volatile_laws V \<longleftrightarrow> (\<forall>c x. vol_read V (vol_write V c x) = x)"

definition volatile_ref :: "u16 volatile" where
  "volatile_ref = \<lparr>vol_read = id, vol_write = (\<lambda>c x. x)\<rparr>"

lemma volatile_laws_ref: "volatile_laws volatile_ref"
  by (simp add: volatile_laws_def volatile_ref_def)

lemma vol_read_write: "volatile_laws V \<Longrightarrow> vol_read V (vol_write V c x) = x"
  by (simp add: volatile_laws_def)

datatype Level = Level_Error | Level_Warn | Level_Info | Level_Debug | Level_Trace

datatype LevelFilter =
  Filter_Off | Filter_Error | Filter_Warn | Filter_Info | Filter_Debug | Filter_Trace

record log_crate =
  level_le :: "Level \<Rightarrow> LevelFilter \<Rightarrow> bool"
  level_display :: "Level \<Rightarrow> u8 list"

text \<open>
  The documented behaviour of the \<^verbatim>\<open>log\<close> crate: levels and filters are ordered from \<^verbatim>\<open>Off\<close> to \<^verbatim>\<open>Trace\<close>, and a level is
  displayed as its name in capital letters.
\<close>

definition level_rank :: "Level \<Rightarrow> nat" where
  "level_rank l = (case l of Level_Error \<Rightarrow> 1 | Level_Warn \<Rightarrow> 2 | Level_Info \<Rightarrow> 3 | Level_Debug \<Rightarrow> 4 | Level_Trace \<Rightarrow> 5)"

definition filter_rank :: "LevelFilter \<Rightarrow> nat" where
  "filter_rank f = (case f of Filter_Off \<Rightarrow> 0 | Filter_Error \<Rightarrow> 1 | Filter_Warn \<Rightarrow> 2 | Filter_Info \<Rightarrow> 3
    | Filter_Debug \<Rightarrow> 4 | Filter_Trace \<Rightarrow> 5)"

definition log_laws :: "log_crate \<Rightarrow> bool" where
  "log_laws G \<longleftrightarrow>
    (\<forall>l f. level_le G l f \<longleftrightarrow> level_rank l \<le> filter_rank f) \<and>
    (\<forall>l. level_display G l \<noteq> [] \<and> length (level_display G l) \<le> 5 \<and> (\<forall>c \<in> set (level_display G l). 65 \<le> c \<and> c \<le> 90))"

definition log_ref :: log_crate where
  "log_ref = \<lparr>level_le = (\<lambda>l f. level_rank l \<le> filter_rank f),
     level_display = (\<lambda>l. map of_char (case l of Level_Error \<Rightarrow> ''ERROR'' | Level_Warn \<Rightarrow> ''WARN''
       | Level_Info \<Rightarrow> ''INFO'' | Level_Debug \<Rightarrow> ''DEBUG'' | Level_Trace \<Rightarrow> ''TRACE''))\<rparr>"

lemma log_laws_ref: "log_laws log_ref"
  by (auto simp: log_laws_def log_ref_def split: Level.splits)

end
