(* ===== verification/Text_Mode.thy ===== *)
theory Text_Mode
  imports Ransid Driver_Crates
begin

text \<open>
  The VGA text console (\<^verbatim>\<open>drivers/vga/text_mode.rs\<close>): a buffer of 25 rows of 80 cells, a cursor, and the escape
  sequence parser in front of it. \<^verbatim>\<open>write_byte\<close> and \<^verbatim>\<open>write_str\<close> call each other, because a tab is written as
  four spaces.

  The specification is a terminal with an unbounded transcript (\<open>tty\<close>), on which writing is overwriting one
  cell and a new line at the bottom appends a blank row. \<open>displays\<close> relates a writer to the transcript: the buffer
  holds its last 25 rows. Every operation refines its counterpart on the transcript.
\<close>

subsection \<open>The writer\<close>

definition WIDTH :: usize where
  "WIDTH = 80"

definition HEIGHT :: usize where
  "HEIGHT = 25"

definition ASCII_MAX :: u8 where
  "ASCII_MAX = 126"

definition ASCII_MIN :: u8 where
  "ASCII_MIN = 32"

record 'v Writer =
  wr_state :: RansidState
  wr_buf :: "'v list"
  wr_x :: usize
  wr_y :: usize

text \<open>
  \<^verbatim>\<open>&buf[i..]\<close>, and \<^verbatim>\<open>volatile_copy_memory\<close>: the first \<open>n\<close> cells of the destination become those of the source, as
  they were before the call. The copied ranges lie inside the slice, whose length is that of the screen.
\<close>

definition slice_from :: "'a list \<Rightarrow> usize \<Rightarrow> 'a list res" where
  "slice_from xs i = (if unat i \<le> length xs then Inr (drop (unat i) xs) else Inl Index_Out_Of_Bounds)"

definition volatile_copy_memory :: "'a list \<Rightarrow> 'a list \<Rightarrow> usize \<Rightarrow> 'a list" where
  "volatile_copy_memory dst src n = take (unat n) src @ drop (unat n) dst"

definition newline :: "bool \<Rightarrow> 'v volatile \<Rightarrow> 'v Writer \<Rightarrow> 'v Writer res" where
  "newline dbg V w =
    (if wr_y w = HEIGHT - 1 then
       bind_res (slice_from (wr_buf w) WIDTH) (\<lambda>src.
         let buf = volatile_copy_memory (wr_buf w) src (WIDTH * (HEIGHT - 1)) in
         bind_res (slice_from buf (WIDTH * (HEIGHT - 1))) (\<lambda>row.
           Inr (w\<lparr>wr_buf := take (unat (WIDTH * (HEIGHT - 1))) buf @ map (\<lambda>ch. vol_write V ch 0xF00) row, wr_x := 0\<rparr>)))
     else bind_res (add_w dbg (wr_y w) 1) (\<lambda>y. Inr (w\<lparr>wr_y := y, wr_x := 0\<rparr>)))"

definition draw_char :: "bool \<Rightarrow> 'v volatile \<Rightarrow> u8 \<Rightarrow> u8 \<Rightarrow> 'v Writer \<Rightarrow> 'v Writer res" where
  "draw_char dbg V style ch w =
    (let formatted = push_bit 8 (ucast style) OR ucast ch in
     bind_res (mul_w dbg (wr_y w) WIDTH) (\<lambda>r.
     bind_res (add_w dbg r (wr_x w)) (\<lambda>i.
     bind_res (index_res (wr_buf w) (unat i)) (\<lambda>cell.
       let w' = w\<lparr>wr_buf := (wr_buf w)[unat i := vol_write V cell formatted]\<rparr> in
       if wr_x w' = WIDTH - 1 then newline dbg V w'
       else bind_res (add_w dbg (wr_x w') 1) (\<lambda>x. Inr (w'\<lparr>wr_x := x\<rparr>))))))"

definition update_cursor :: "bool \<Rightarrow> 'v Writer \<Rightarrow> port_io list res" where
  "update_cursor dbg w =
    bind_res (mul_w dbg (wr_y w) WIDTH) (\<lambda>r.
    bind_res (add_w dbg r (wr_x w)) (\<lambda>pos.
      Inr [Out8 0x3D4 0x0F, Out16 0x3D5 (ucast (pos AND 0xFF)),
           Out8 0x3D4 0x0E, Out16 0x3D5 (ucast (drop_bit 8 pos AND 0xFF))]))"

lemma ransid_process_emits:
  assumes "ransid_process dbg s x = Inr (s', Some cc)"
  shows "cc_ascii cc = x" "cc_style cc = rs_style s" "rs_state s' = Esc" "rs_style s' = rs_style s"
proof -
  obtain ch where ch: "ransid_step dbg s x = Inr (s', ch)" "ch \<noteq> 0" "cc = \<lparr>cc_style = rs_style s, cc_ascii = ch\<rparr>"
    using assms by (auto simp: ransid_process_def res_elim split: if_splits)
  then show "cc_ascii cc = x" "cc_style cc = rs_style s" "rs_state s' = Esc" using ransid_step_emits [OF ch(1)] by simp_all
  show "rs_style s' = rs_style s"
    using ch(1,2) by (auto simp: ransid_step_def res_elim split: State.splits if_splits)
qed

definition byte_weight :: "u8 \<Rightarrow> nat" where
  "byte_weight ch = (if ch = 0x09 then 20 else 1)"

text \<open>
  \<open>write_bytes\<close> is the loop of \<^verbatim>\<open>write_str\<close>. The recursion through the tab ends, because the parser emits
  only the byte it was given, and a space is no tab.
\<close>

function write_byte :: "bool \<Rightarrow> 'v volatile \<Rightarrow> u8 \<Rightarrow> 'v Writer \<Rightarrow> ('v Writer \<times> port_io list) res"
  and write_bytes :: "bool \<Rightarrow> 'v volatile \<Rightarrow> u8 list \<Rightarrow> 'v Writer \<Rightarrow> ('v Writer \<times> port_io list) res"
  and write_str :: "bool \<Rightarrow> 'v volatile \<Rightarrow> u8 list \<Rightarrow> 'v Writer \<Rightarrow> ('v Writer \<times> port_io list) res" where
  "write_byte dbg V ch w =
    bind_res (ransid_process dbg (wr_state w) ch) (\<lambda>(s, out).
      (case out of
        None \<Rightarrow> Inr (w\<lparr>wr_state := s\<rparr>, [])
      | Some cc \<Rightarrow>
          if cc_ascii cc = 0x0A then bind_res (newline dbg V (w\<lparr>wr_state := s\<rparr>)) (\<lambda>w. Inr (w, []))
          else if cc_ascii cc = 0x09 then write_str dbg V (str_bytes ''    '') (w\<lparr>wr_state := s\<rparr>)
          else if cc_ascii cc = 0x0D then Inr (w\<lparr>wr_state := s, wr_x := 0\<rparr>, [])
          else if ASCII_MIN \<le> cc_ascii cc \<and> cc_ascii cc \<le> ASCII_MAX then
            bind_res (draw_char dbg V (cc_style cc) (cc_ascii cc) (w\<lparr>wr_state := s\<rparr>)) (\<lambda>w. Inr (w, []))
          else bind_res (draw_char dbg V (cc_style cc) 254 (w\<lparr>wr_state := s\<rparr>)) (\<lambda>w. Inr (w, []))))"
| "write_bytes dbg V [] w = Inr (w, [])"
| "write_bytes dbg V (ch # s) w =
    bind_res (write_byte dbg V ch w) (\<lambda>(w, io).
    bind_res (write_bytes dbg V s w) (\<lambda>(w, io'). Inr (w, io @ io')))"
| "write_str dbg V s w =
    bind_res (write_bytes dbg V s w) (\<lambda>(w, io).
    bind_res (update_cursor dbg w) (\<lambda>io'. Inr (w, io @ io')))"
  by pat_completeness auto

termination
proof (relation "measure (\<lambda>a. case a of
      Inl (dbg, V, ch, w) \<Rightarrow> byte_weight ch
    | Inr (Inl (dbg, V, s, w)) \<Rightarrow> sum_list (map (\<lambda>ch. Suc (byte_weight ch)) s) + 1
    | Inr (Inr (dbg, V, s, w)) \<Rightarrow> sum_list (map (\<lambda>ch. Suc (byte_weight ch)) s) + 2)", goal_cases)
  case (2 dbg V ch w p s out cc)
  then have "cc_ascii cc = ch" using ransid_process_emits(1) by blast
  with 2 show ?case by (simp add: byte_weight_def str_bytes_def)
qed simp_all

definition TERMINAL_BUFFER :: usize where
  "TERMINAL_BUFFER = 0xB8000"

text \<open>The slice of the frame buffer: \<open>mem\<close> gives the two-byte cell at an address.\<close>

definition writer_default :: "bool \<Rightarrow> (usize \<Rightarrow> 'v) \<Rightarrow> 'v Writer res" where
  "writer_default dbg mem =
    bind_res (ransid_new dbg) (\<lambda>s.
      Inr \<lparr>wr_state = s, wr_buf = map (\<lambda>i. mem (TERMINAL_BUFFER + 2 * of_nat i)) [0..<unat (HEIGHT * WIDTH)],
           wr_x = 0, wr_y = 0\<rparr>)"

text \<open>
  \<^verbatim>\<open>init\<close>: \<open>old1\<close> and \<open>old2\<close> are what the two port reads return, \<open>logger_set\<close> is whether \<^verbatim>\<open>log::set_logger\<close> succeeds,
  and the result is the maximal level that is set then, or the error.
\<close>

definition text_mode_init :: "bool \<Rightarrow> u16 \<Rightarrow> u16 \<Rightarrow> bool \<Rightarrow> port_io list \<times> LevelFilter option" where
  "text_mode_init dbg old1 old2 logger_set =
    ([Out8 0x3D4 0x0A, In16 0x3D5 old1, Out8 0x3D5 (ucast ((old1 AND 0xC0) OR 0)),
      Out8 0x3D4 0x0B, In16 0x3D5 old2, Out8 0x3D5 (ucast ((old2 AND 0xE0) OR 15))],
     if logger_set then Some (if dbg then Filter_Trace else Filter_Info) else None)"

subsection \<open>The transcript\<close>

record tty =
  t_cells :: "u16 list"
  t_row :: nat
  t_col :: nat

definition cell :: "u8 \<Rightarrow> u8 \<Rightarrow> u16" where
  "cell style ch = push_bit 8 (ucast style) OR ucast ch"

definition blank_row :: "u16 list" where
  "blank_row = replicate 80 (cell 0x0F 0)"

definition tty_newline :: "tty \<Rightarrow> tty" where
  "tty_newline t = t\<lparr>t_cells := (if 80 * (t_row t + 1) = length (t_cells t) then t_cells t @ blank_row else t_cells t),
    t_row := t_row t + 1, t_col := 0\<rparr>"

definition tty_put :: "u16 \<Rightarrow> tty \<Rightarrow> tty" where
  "tty_put c t =
    (let t' = t\<lparr>t_cells := (t_cells t)[80 * t_row t + t_col t := c]\<rparr>
     in if t_col t = 79 then tty_newline t' else t'\<lparr>t_col := t_col t + 1\<rparr>)"

definition tty_glyph :: "ColorChar \<Rightarrow> tty \<Rightarrow> tty" where
  "tty_glyph cc t =
    (let ch = cc_ascii cc in
     if ch = 0x0A then tty_newline t
     else if ch = 0x09 then (tty_put (cell (cc_style cc) 32) ^^ 4) t
     else if ch = 0x0D then t\<lparr>t_col := 0\<rparr>
     else tty_put (cell (cc_style cc) (if 32 \<le> ch \<and> ch \<le> 126 then ch else 254)) t)"

definition tty_ok :: "tty \<Rightarrow> bool" where
  "tty_ok t \<longleftrightarrow> 2000 \<le> length (t_cells t) \<and> 80 dvd length (t_cells t) \<and> t_col t < 80
    \<and> length (t_cells t) \<le> 80 * t_row t + 2000 \<and> 80 * t_row t < length (t_cells t)"

definition displays :: "'v volatile \<Rightarrow> 'v Writer \<Rightarrow> tty \<Rightarrow> bool" where
  "displays V w t \<longleftrightarrow> tty_ok t \<and> map (vol_read V) (wr_buf w) = drop (length (t_cells t) - 2000) (t_cells t)
    \<and> unat (wr_x w) = t_col t \<and> 80 * unat (wr_y w) + length (t_cells t) = 80 * t_row t + 2000"

lemma displaysE:
  assumes "displays V w t"
  obtains k where "length (t_cells t) = 80 * k + 2000" "map (vol_read V) (wr_buf w) = drop (80 * k) (t_cells t)"
    "length (wr_buf w) = 2000" "unat (wr_x w) = t_col t" "t_col t < 80" "t_row t = k + unat (wr_y w)" "unat (wr_y w) < 25"
proof -
  obtain m where m: "length (t_cells t) = 80 * m" using assms by (auto simp: displays_def tty_ok_def)
  then have "25 \<le> m" using assms by (simp add: displays_def tty_ok_def)
  then have k: "length (t_cells t) = 80 * (m - 25) + 2000" using m by simp
  moreover have "length (map (vol_read V) (wr_buf w)) = 2000" using assms by (simp only: displays_def) (simp add: tty_ok_def)
  then have "length (wr_buf w) = 2000" by simp
  ultimately show ?thesis using assms that [of "m - 25"] by (simp add: displays_def tty_ok_def)
qed

lemma displaysI:
  assumes "length (t_cells t) = 80 * k + 2000" "map (vol_read V) (wr_buf w) = drop (80 * k) (t_cells t)"
    "unat (wr_x w) = t_col t" "t_col t < 80" "t_row t = k + unat (wr_y w)" "unat (wr_y w) < 25"
  shows "displays V w t"
proof -
  have "80 dvd 80 * k + 2000" by presburger
  with assms show ?thesis by (simp add: displays_def tty_ok_def)
qed

subsection \<open>Refinement\<close>

lemma screen_consts: "unat (WIDTH * (HEIGHT - 1)) = 1920" "unat WIDTH = 80" "unat (HEIGHT * WIDTH) = 2000"
  "HEIGHT - 1 = 24" "WIDTH - 1 = 79"
  by (simp_all add: WIDTH_def HEIGHT_def)

lemma newline_refines:
  assumes "volatile_laws V" "displays V w t"
  shows "\<exists>w'. newline dbg V w = Inr w' \<and> displays V w' (tty_newline t) \<and> wr_state w' = wr_state w"
proof -
  obtain k where k: "length (t_cells t) = 80 * k + 2000" "map (vol_read V) (wr_buf w) = drop (80 * k) (t_cells t)"
    "length (wr_buf w) = 2000" "unat (wr_x w) = t_col t" "t_col t < 80" "t_row t = k + unat (wr_y w)" "unat (wr_y w) < 25"
    by (rule displaysE [OF assms(2)])
  show ?thesis
  proof (cases "wr_y w = 24")
    case True
    let ?w = "w\<lparr>wr_buf := drop 80 (wr_buf w) @ map (\<lambda>ch. vol_write V ch 0xF00) (drop 1920 (wr_buf w)), wr_x := 0\<rparr>"
    have "newline dbg V w = Inr ?w"
      using True k(3) by (simp add: newline_def screen_consts slice_from_def volatile_copy_memory_def Let_def WIDTH_def)
    moreover have "map (vol_read V) (wr_buf ?w) = drop (80 * (k + 1)) (t_cells t @ blank_row)"
    proof -
      have "map (vol_read V) (drop 80 (wr_buf w)) = drop (80 * (k + 1)) (t_cells t)"
        using k(2) by (simp add: drop_map [symmetric] add.commute)
      moreover have "map (vol_read V) (map (\<lambda>ch. vol_write V ch 0xF00) (drop 1920 (wr_buf w))) = blank_row"
        using k(3) by (simp add: vol_read_write [OF assms(1)] comp_def map_replicate_const blank_row_def cell_def)
      ultimately show ?thesis using k(1) by simp
    qed
    then have "displays V ?w (tty_newline t)"
      using True k(1,6) by (intro displaysI [of _ "k + 1"]) (simp_all add: tty_newline_def blank_row_def)
    ultimately show ?thesis by simp
  next
    case False
    have y: "unat (wr_y w) < 24"
    proof -
      have "unat (wr_y w) \<noteq> unat (24 :: usize)" using False word_unat_eq_iff by blast
      then show ?thesis using k(7) by simp
    qed
    let ?w = "w\<lparr>wr_y := wr_y w + 1, wr_x := 0\<rparr>"
    have y': "unat (wr_y w + 1) = unat (wr_y w) + 1" using y by (subst unat_add_no_wrap) simp_all
    have "newline dbg V w = Inr ?w" using False y by (simp add: newline_def screen_consts add_w_def)
    moreover have "displays V ?w (tty_newline t)"
      using k y y' by (intro displaysI [of _ k]) (simp_all add: tty_newline_def)
    ultimately show ?thesis by simp
  qed
qed

lemma cursor_index:
  assumes "displays V w t"
  shows "mul_w dbg (wr_y w) WIDTH = Inr (wr_y w * WIDTH)" "add_w dbg (wr_y w * WIDTH) (wr_x w) = Inr (wr_y w * WIDTH + wr_x w)"
    "unat (wr_y w * WIDTH + wr_x w) = 80 * unat (wr_y w) + unat (wr_x w)"
proof -
  have y: "unat (wr_y w) < 25" "unat (wr_x w) < 80" using assms by (auto elim: displaysE)
  then have m: "unat (wr_y w * WIDTH) = 80 * unat (wr_y w)" by (subst unat_mult_no_wrap) (simp_all add: screen_consts)
  show "mul_w dbg (wr_y w) WIDTH = Inr (wr_y w * WIDTH)" by (rule mul_w_Inr) (use y in \<open>simp add: screen_consts\<close>)
  show "add_w dbg (wr_y w * WIDTH) (wr_x w) = Inr (wr_y w * WIDTH + wr_x w)" by (rule add_w_Inr) (use y m in simp)
  show "unat (wr_y w * WIDTH + wr_x w) = 80 * unat (wr_y w) + unat (wr_x w)"
    by (subst unat_add_no_wrap) (use y m in simp_all)
qed

lemma draw_char_refines:
  assumes "volatile_laws V" "displays V w t"
  shows "\<exists>w'. draw_char dbg V style ch w = Inr w' \<and> displays V w' (tty_put (cell style ch) t) \<and> wr_state w' = wr_state w"
proof -
  obtain k where k: "length (t_cells t) = 80 * k + 2000" "map (vol_read V) (wr_buf w) = drop (80 * k) (t_cells t)"
    "length (wr_buf w) = 2000" "unat (wr_x w) = t_col t" "t_col t < 80" "t_row t = k + unat (wr_y w)" "unat (wr_y w) < 25"
    by (rule displaysE [OF assms(2)])
  let ?i = "80 * unat (wr_y w) + unat (wr_x w)"
  have i: "?i < length (wr_buf w)" using k by simp
  let ?w = "w\<lparr>wr_buf := (wr_buf w)[?i := vol_write V (wr_buf w ! ?i) (cell style ch)]\<rparr>"
  let ?t = "t\<lparr>t_cells := (t_cells t)[80 * t_row t + t_col t := cell style ch]\<rparr>"
  have d: "displays V ?w ?t"
  proof (rule displaysI [of _ k])
    show "map (vol_read V) (wr_buf ?w) = drop (80 * k) (t_cells ?t)"
      using k(2,4,6) by (simp add: map_update vol_read_write [OF assms(1)] drop_update_swap)
  qed (use k in simp_all)
  have draw: "draw_char dbg V style ch w =
      (if wr_x w = 79 then newline dbg V ?w else bind_res (add_w dbg (wr_x w) 1) (\<lambda>x. Inr (?w\<lparr>wr_x := x\<rparr>)))"
    using i unfolding draw_char_def Let_def cursor_index [OF assms(2)] bind_res_Inr screen_consts cell_def by simp
  have x: "wr_x w = 79 \<longleftrightarrow> t_col t = 79"
  proof -
    have "wr_x w = 79 \<longleftrightarrow> unat (wr_x w) = unat (79 :: usize)" by (simp only: word_unat_eq_iff)
    then show ?thesis using k(4) by simp
  qed
  show ?thesis
  proof (cases "wr_x w = 79")
    case True
    then show ?thesis using newline_refines [OF assms(1) d, of dbg] x by (simp add: draw tty_put_def)
  next
    case False
    have x': "unat (wr_x w + 1) = unat (wr_x w) + 1" using k(4,5) by (subst unat_add_no_wrap) simp_all
    have "displays V (?w\<lparr>wr_x := wr_x w + 1\<rparr>) (tty_put (cell style ch) t)"
      using d x False x' k(4,5) by (simp add: displays_def tty_ok_def tty_put_def)
    with False show ?thesis using k(4,5) by (simp add: draw add_w_def)
  qed
qed

text \<open>The four writes that move the hardware cursor: register 15 takes the low byte, register 14 the high byte.\<close>

definition cursor_io :: "nat \<Rightarrow> port_io list" where
  "cursor_io pos = [Out8 0x3D4 0x0F, Out16 0x3D5 (of_nat (pos mod 256)), Out8 0x3D4 0x0E, Out16 0x3D5 (of_nat (pos div 256))]"

lemma position_bytes:
  assumes "p < 2000" "pos = (of_nat p :: u64)"
  shows "ucast (pos AND 0xFF) = (of_nat (p mod 256) :: u16)" "ucast (drop_bit 8 pos AND 0xFF) = (of_nat (p div 256) :: u16)"
proof -
  have narrow: "ucast (of_nat m :: u64) = (of_nat m :: u16)" if "m < 256" for m
    using that
    by (intro word_unat_eq_iff [THEN iffD2]) (simp add: unsigned_ucast_eq take_bit_nat_eq_self take_bit_eq_mod unat_of_nat_small)
  have low: "(of_nat m :: u64) AND 0xFF = of_nat (m mod 256)" for m
    using word_of_nat_and_mask [of m 8, where 'a = 64] by (simp add: mask_eq_exp_minus_1)
  have "drop_bit 8 (of_nat p :: u64) = of_nat (p div 256)"
    using assms(1) by (intro word_unat_eq_iff [THEN iffD2]) (simp add: drop_bit_eq_div unat_div_distrib unat_of_nat_small)
  moreover have "p div 256 mod 256 = p div 256" "p div 256 < 256" "p mod 256 < 256" using assms(1) by simp_all
  ultimately show "ucast (pos AND 0xFF) = (of_nat (p mod 256) :: u16)" "ucast (drop_bit 8 pos AND 0xFF) = (of_nat (p div 256) :: u16)"
    by (simp_all only: assms(2) low narrow)
qed

lemma update_cursor_eq:
  assumes "displays V w t"
  shows "update_cursor dbg w = Inr (cursor_io (80 * unat (wr_y w) + unat (wr_x w)))"
proof -
  define p where "p = 80 * unat (wr_y w) + unat (wr_x w)"
  then have "p < 2000" using assms by (auto elim: displaysE)
  define pos where "pos = wr_y w * WIDTH + wr_x w"
  then have "unat pos = p" using cursor_index(3) [OF assms] by (simp add: p_def)
  moreover have "pos = of_nat (unat pos)" by simp
  ultimately have "pos = of_nat p" by (simp only:)
  from position_bytes [OF \<open>p < 2000\<close> this] show ?thesis
    unfolding update_cursor_def cursor_index [OF assms] bind_res_Inr pos_def [symmetric] cursor_io_def p_def [symmetric]
    by (simp only:)
qed

lemma write_byte_printable:
  assumes "rs_state (wr_state w) = Esc" "32 \<le> ch" "ch \<le> 126"
  shows "write_byte dbg V ch w = bind_res (draw_char dbg V (rs_style (wr_state w)) ch w) (\<lambda>w. Inr (w, []))"
proof -
  have "ch \<noteq> 0" "ch \<noteq> ESC" "ch \<noteq> 10" "ch \<noteq> 9" "ch \<noteq> 13" using assms(2) by (auto simp: ESC_def)
  with assms show ?thesis by (simp add: ransid_process_def ransid_step_def ASCII_MIN_def ASCII_MAX_def)
qed

lemma write_spaces:
  assumes "volatile_laws V" "displays V w t" "rs_state (wr_state w) = Esc"
  shows "\<exists>w'. write_bytes dbg V (replicate n 32) w = Inr (w', [])
    \<and> displays V w' ((tty_put (cell (rs_style (wr_state w)) 32) ^^ n) t) \<and> wr_state w' = wr_state w"
  using assms(2,3)
proof (induction n arbitrary: w t)
  case 0
  then show ?case by simp
next
  case (Suc n)
  obtain w1 where w1: "draw_char dbg V (rs_style (wr_state w)) 32 w = Inr w1"
    "displays V w1 (tty_put (cell (rs_style (wr_state w)) 32) t)" "wr_state w1 = wr_state w"
    using draw_char_refines [OF assms(1) Suc.prems(1)] by blast
  with Suc.IH [OF w1(2)] Suc.prems(2) show ?case
    by (simp add: write_byte_printable funpow_swap1 del: write_byte.simps)
qed

lemma write_byte_refines:
  assumes "volatile_laws V" "displays V w t" "ransid_process dbg (wr_state w) ch = Inr (s, out)"
  shows "\<exists>w' io. write_byte dbg V ch w = Inr (w', io) \<and> wr_state w' = s \<and> displays V w' (fold tty_glyph (emitted out) t)"
proof (cases out)
  case None
  then show ?thesis using assms(2,3) by (simp add: displays_def)
next
  case (Some cc)
  let ?w = "w\<lparr>wr_state := s\<rparr>"
  have d: "displays V ?w t" using assms(2) by (simp add: displays_def)
  note emits = ransid_process_emits [OF assms(3) [unfolded Some]]
  have tab: "\<exists>w' io. write_str dbg V (str_bytes ''    '') ?w = Inr (w', io) \<and> wr_state w' = s
    \<and> displays V w' ((tty_put (cell (cc_style cc) 32) ^^ 4) t)"
  proof -
    have "str_bytes ''    '' = replicate 4 32" by (simp add: str_bytes_def numeral_eq_Suc)
    with write_spaces [OF assms(1) d, of dbg 4] emits obtain w' where
      "write_bytes dbg V (str_bytes ''    '') ?w = Inr (w', [])" "wr_state w' = s"
      "displays V w' ((tty_put (cell (cc_style cc) 32) ^^ 4) t)"
      by auto
    with update_cursor_eq [OF this(3)] show ?thesis by simp
  qed
  show ?thesis
    using assms(3) Some tab newline_refines [OF assms(1) d, of dbg] d
      draw_char_refines [OF assms(1) d, of dbg "cc_style cc" "cc_ascii cc"]
      draw_char_refines [OF assms(1) d, of dbg "cc_style cc" 254]
    by (auto simp: tty_glyph_def Let_def ASCII_MIN_def ASCII_MAX_def displays_def tty_ok_def simp del: write_str.simps)
qed

lemma write_bytes_refines:
  assumes "volatile_laws V" "displays V w t" "ransid_ok (wr_state w)"
  shows "\<exists>w' io outs. write_bytes dbg V xs w = Inr (w', io) \<and> ransid_run dbg (wr_state w) xs = Inr (wr_state w', outs)
    \<and> ransid_ok (wr_state w') \<and> displays V w' (fold tty_glyph outs t)"
  using assms(2,3)
proof (induction xs arbitrary: w t)
  case Nil
  then show ?case by simp
next
  case (Cons x xs)
  obtain s out where p: "ransid_process dbg (wr_state w) x = Inr (s, out)" "ransid_ok s"
    by (rule ransid_process_ok [OF Cons.prems(2), of dbg x]) blast
  obtain w1 io where w1: "write_byte dbg V x w = Inr (w1, io)" "wr_state w1 = s" "displays V w1 (fold tty_glyph (emitted out) t)"
    using write_byte_refines [OF assms(1) Cons.prems(1) p(1)] by blast
  with Cons.IH [OF w1(3)] p show ?case
    by (auto simp: fold_append simp del: write_byte.simps)
qed

lemma write_str_refines:
  assumes "volatile_laws V" "displays V w t" "ransid_ok (wr_state w)"
  shows "\<exists>w' io outs. write_str dbg V xs w = Inr (w', io @ cursor_io (80 * unat (wr_y w') + unat (wr_x w')))
    \<and> ransid_run dbg (wr_state w) xs = Inr (wr_state w', outs)
    \<and> ransid_ok (wr_state w') \<and> displays V w' (fold tty_glyph outs t)"
proof -
  obtain w' io outs where r: "write_bytes dbg V xs w = Inr (w', io)" "ransid_run dbg (wr_state w) xs = Inr (wr_state w', outs)"
    "ransid_ok (wr_state w')" "displays V w' (fold tty_glyph outs t)"
    using write_bytes_refines [OF assms, of dbg xs] by blast
  then have "write_str dbg V xs w = Inr (w', io @ cursor_io (80 * unat (wr_y w') + unat (wr_x w')))"
    by (simp add: update_cursor_eq [OF r(4)])
  with r show ?thesis by blast
qed

text \<open>A new writer shows what the frame buffer held, with the cursor in the corner.\<close>

definition tty_new :: "u16 list \<Rightarrow> tty" where
  "tty_new cells = \<lparr>t_cells = cells, t_row = 0, t_col = 0\<rparr>"

lemma writer_default_ok:
  "\<exists>w. writer_default dbg mem = Inr w \<and> ransid_ok (wr_state w) \<and> wr_state w = attr_state Esc (attr_style plain) plain
    \<and> displays V w (tty_new (map (\<lambda>i. vol_read V (mem (TERMINAL_BUFFER + 2 * of_nat i))) [0..<2000]))"
proof -
  have "ransid_ok (attr_state Esc (attr_style plain) plain)" by (rule attr_state_ok) (simp add: plain_def)
  then show ?thesis
    by (simp add: writer_default_def ransid_new_eq screen_consts displays_def tty_ok_def tty_new_def comp_def)
qed

subsection \<open>Properties of the console\<close>

text \<open>
  Claim C11 (the console shows the last 25 rows of everything written). \<^verbatim>\<open>write_str\<close> never panics, whatever the
  bytes, in both build profiles. If the writer displays a transcript before the call, then after it the writer displays the
  transcript with the emitted characters written one after the other: the buffer holds its last 25
  rows, and the cursor is inside the screen. The last thing the call does is to program the hardware
  cursor with the position.
\<close>

theorem write_str_correct:
  assumes "volatile_laws V" "displays V w t" "ransid_ok (wr_state w)"
  shows "\<exists>w' io outs. write_str dbg V xs w = Inr (w', io @ cursor_io (80 * unat (wr_y w') + unat (wr_x w')))
    \<and> ransid_run dbg (wr_state w) xs = Inr (wr_state w', outs) \<and> ransid_ok (wr_state w')
    \<and> displays V w' (fold tty_glyph outs t) \<and> unat (wr_y w') < 25 \<and> unat (wr_x w') < 80"
proof -
  obtain w' io outs where r: "write_str dbg V xs w = Inr (w', io @ cursor_io (80 * unat (wr_y w') + unat (wr_x w')))"
    "ransid_run dbg (wr_state w) xs = Inr (wr_state w', outs)"
    "ransid_ok (wr_state w')" "displays V w' (fold tty_glyph outs t)"
    using write_str_refines [OF assms, of dbg xs] by blast
  moreover from r(4) have "unat (wr_y w') < 25 \<and> unat (wr_x w') < 80" by (elim displaysE) simp
  ultimately show ?thesis by blast
qed

theorem write_str_correct_witness:
  "\<exists>w w' io. writer_default True (\<lambda>x. 0) = Inr w
    \<and> write_str True volatile_ref (str_bytes ''ok'') w = Inr (w', io @ cursor_io (80 * unat (wr_y w') + unat (wr_x w')))
    \<and> displays volatile_ref w' \<lparr>t_cells = cell 0x0F 111 # cell 0x0F 107 # replicate 1998 0, t_row = 0, t_col = 2\<rparr>"
proof -
  obtain w where w: "writer_default True (\<lambda>x. 0) = Inr w" "ransid_ok (wr_state w)"
    "wr_state w = attr_state Esc (attr_style plain) plain" "displays volatile_ref w (tty_new (replicate 2000 0))"
    using writer_default_ok [of True "\<lambda>x. 0" volatile_ref] by (auto simp: volatile_ref_def map_replicate_const)
  have "ransid_run True (wr_state w) (str_bytes ''ok'') =
      Inr (wr_state w, [\<lparr>cc_style = 0x0F, cc_ascii = 111\<rparr>, \<lparr>cc_style = 0x0F, cc_ascii = 107\<rparr>])"
    using ransid_run_text [of "str_bytes ''ok''" "wr_state w" True]
    by (simp add: w(3) attr_state_def attr_style_def plain_def create_style_def str_bytes_def ESC_def)
  moreover have "fold tty_glyph [\<lparr>cc_style = 0x0F, cc_ascii = 111\<rparr>, \<lparr>cc_style = 0x0F, cc_ascii = 107\<rparr>] (tty_new (replicate 2000 0))
      = \<lparr>t_cells = cell 0x0F 111 # cell 0x0F 107 # replicate 1998 0, t_row = 0, t_col = 2\<rparr>"
  proof -
    have "(2000 :: nat) = Suc (Suc 1998)" by simp
    then have "replicate 2000 (0 :: u16) = 0 # 0 # replicate 1998 0" by (simp only: replicate_Suc)
    then show ?thesis by (simp add: tty_glyph_def tty_put_def tty_new_def Let_def)
  qed
  ultimately show ?thesis
    using write_str_correct [OF volatile_laws_ref w(4,2), of True "str_bytes ''ok''"] w(1) by auto
qed

end
