(* ===== verification/Console.thy ===== *)
theory Console
  imports Text_Mode
begin

text \<open>
  The serial port (\<^verbatim>\<open>drivers/serial.rs\<close>) and the printing and logging layer (\<^verbatim>\<open>macros.rs\<close>). A call of \<^verbatim>\<open>_print\<close> runs
  under the lock of the screen with interrupts off, so it is one step here; the lock itself is the subject of
  \<^verbatim>\<open>Spin_Lock\<close>.

  The lemmas show that printing cannot panic, that the serial port gets the same bytes in a debug build, and what a
  log record looks like on the screen.
\<close>

subsection \<open>The serial port\<close>

datatype Port = COM1 | COM2 | COM3 | COM4

fun port_u16 :: "Port \<Rightarrow> u16" where
  "port_u16 COM1 = 0x3F8"
| "port_u16 COM2 = 0x2F8"
| "port_u16 COM3 = 0x3E8"
| "port_u16 COM4 = 0x2E8"

definition PORT :: u16 where
  "PORT = port_u16 COM1"

definition serial_init :: "port_io list" where
  "serial_init =
    [Out8 (PORT + 1) 0x00, Out8 (PORT + 3) 0x80, Out8 (PORT + 0) 0x03, Out8 (PORT + 1) 0x00,
     Out8 (PORT + 3) 0x03, Out8 (PORT + 2) 0xC7, Out8 (PORT + 4) 0x0B]"

definition serial_write_byte :: "u8 \<Rightarrow> port_io list" where
  "serial_write_byte ch = [Out8 PORT ch]"

definition serial_write_str :: "u8 list \<Rightarrow> port_io list" where
  "serial_write_str s = concat (map serial_write_byte s)"

subsection \<open>Formatted output\<close>

text \<open>
  \<^verbatim>\<open>fmt::Arguments\<close>: the literal pieces of a format string and its arguments. The arguments here are strings, which
  \<^verbatim>\<open>Display\<close> writes with one call. \<open>fmt_calls\<close> are the calls of \<^verbatim>\<open>write_str\<close> that \<^verbatim>\<open>core::fmt::write\<close> makes, which leaves
  out an empty piece in front of an argument; \<open>as_str\<close> is \<^verbatim>\<open>Arguments::as_str\<close>.
\<close>

record Arguments =
  fmt_pieces :: "u8 list list"
  fmt_args :: "u8 list list"

fun fmt_calls :: "u8 list list \<Rightarrow> u8 list list \<Rightarrow> u8 list list" where
  "fmt_calls (p # ps) (a # as) = (if p = [] then [] else [p]) @ a # fmt_calls ps as"
| "fmt_calls (p # ps) [] = [p]"
| "fmt_calls [] as = []"

fun as_str :: "Arguments \<Rightarrow> u8 list option" where
  "as_str a = (case (fmt_pieces a, fmt_args a) of ([], []) \<Rightarrow> Some [] | ([s], []) \<Rightarrow> Some s | _ \<Rightarrow> None)"

definition screen_write_str :: "bool \<Rightarrow> 'v volatile \<Rightarrow> u8 list \<Rightarrow> 'v Writer \<Rightarrow> ('v Writer \<times> port_io list) res" where
  "screen_write_str dbg V s w =
    bind_res (write_str dbg V s w) (\<lambda>(w', io). Inr (w', (if dbg then serial_write_str s else []) @ io))"

fun screen_write_all :: "bool \<Rightarrow> 'v volatile \<Rightarrow> u8 list list \<Rightarrow> 'v Writer \<Rightarrow> ('v Writer \<times> port_io list) res" where
  "screen_write_all dbg V [] w = Inr (w, [])"
| "screen_write_all dbg V (s # ss) w =
    bind_res (screen_write_str dbg V s w) (\<lambda>(w, io).
    bind_res (screen_write_all dbg V ss w) (\<lambda>(w, io'). Inr (w, io @ io')))"

definition print :: "bool \<Rightarrow> 'v volatile \<Rightarrow> Arguments \<Rightarrow> 'v Writer \<Rightarrow> ('v Writer \<times> port_io list) res" where
  "print dbg V a w = screen_write_all dbg V (fmt_calls (fmt_pieces a) (fmt_args a)) w"

text \<open>\<^verbatim>\<open>Display\<close> of an integer.\<close>

fun dec_digits :: "nat \<Rightarrow> u8 list" where
  "dec_digits n = (if n < 10 then [48 + of_nat n] else dec_digits (n div 10) @ [48 + of_nat (n mod 10)])"

declare dec_digits.simps [simp del]

subsection \<open>The logger\<close>

definition log_enabled :: "log_crate \<Rightarrow> LevelFilter \<Rightarrow> Level \<Rightarrow> bool" where
  "log_enabled G max_level level = level_le G level max_level"

fun level_color :: "Level \<Rightarrow> u8 list" where
  "level_color Level_Info = ESC # str_bytes ''[32m''"
| "level_color Level_Error = ESC # str_bytes ''[31m''"
| "level_color Level_Warn = ESC # str_bytes ''[33m''"
| "level_color Level_Debug = ESC # str_bytes ''[36m''"
| "level_color Level_Trace = ESC # str_bytes ''[35m''"

definition log_text :: "Arguments \<Rightarrow> u8 list" where
  "log_text a = (case as_str a of None \<Rightarrow> str_bytes ''Cannot format log entry'' | Some s \<Rightarrow> s)"

definition log_record :: "bool \<Rightarrow> 'v volatile \<Rightarrow> log_crate \<Rightarrow> LevelFilter \<Rightarrow> Level \<Rightarrow> Arguments \<Rightarrow> 'v Writer
    \<Rightarrow> ('v Writer \<times> port_io list) res" where
  "log_record dbg V G max_level level a w =
    (if log_enabled G max_level level then
       print dbg V
         \<lparr>fmt_pieces = [str_bytes ''['', [], [], str_bytes ''] '', [0x0A]],
          fmt_args = [level_color level, level_display G level, ESC # str_bytes ''[0m'', log_text a]\<rparr> w
     else Inr (w, []))"

subsection \<open>The bytes on the serial port\<close>

fun on_serial :: "port_io \<Rightarrow> u8 list" where
  "on_serial (Out8 p ch) = (if p = PORT then [ch] else [])"
| "on_serial io = []"

definition serial_bytes :: "port_io list \<Rightarrow> u8 list" where
  "serial_bytes io = concat (map on_serial io)"

lemma serial_bytes_append [simp]: "serial_bytes (io @ io') = serial_bytes io @ serial_bytes io'"
  by (simp add: serial_bytes_def)

lemma serial_bytes_Nil [simp]: "serial_bytes [] = []"
  by (simp add: serial_bytes_def)

lemma serial_bytes_write_str [simp]: "serial_bytes (serial_write_str s) = s"
  by (induction s) (simp_all add: serial_bytes_def serial_write_str_def serial_write_byte_def)

text \<open>The console itself accesses the two ports of the display controller only.\<close>

definition crtc_io :: "port_io list \<Rightarrow> bool" where
  "crtc_io io \<longleftrightarrow> io_port ` set io \<subseteq> {0x3D4, 0x3D5}"

lemma crtc_io_simps [simp]: "crtc_io []" "crtc_io (io @ io') \<longleftrightarrow> crtc_io io \<and> crtc_io io'"
  by (auto simp: crtc_io_def)

lemma update_cursor_ports: "update_cursor dbg w = Inr io \<Longrightarrow> crtc_io io"
  by (auto simp: update_cursor_def crtc_io_def res_elim)

lemma write_ports:
  "write_byte dbg V ch w = Inr (w', io) \<Longrightarrow> crtc_io io"
  "write_bytes dbg V s w = Inr (w', io) \<Longrightarrow> crtc_io io"
  "write_str dbg V s w = Inr (w', io) \<Longrightarrow> crtc_io io"
proof (induction dbg V ch w and dbg V s w and dbg V s w arbitrary: w' io and w' io and w' io
    rule: write_byte_write_bytes_write_str.induct)
  case (1 dbg V ch w)
  from "1.prems" obtain s out where p: "ransid_process dbg (wr_state w) ch = Inr (s, out)"
    by (auto simp: res_elim)
  show ?case
  proof (cases out)
    case None
    with "1.prems" p show ?thesis by simp
  next
    case (Some cc)
    with "1.prems" p "1.IH" [OF p refl Some] show ?thesis
      by (auto simp: res_elim split: if_splits simp del: write_str.simps)
  qed
next
  case (4 dbg V s w)
  from "4.prems" obtain w1 io1 io2 where "write_bytes dbg V s w = Inr (w1, io1)" "update_cursor dbg w1 = Inr io2" "io = io1 @ io2"
    by (auto simp: res_elim)
  with "4.IH" show ?case by (simp add: update_cursor_ports)
qed (auto simp: res_elim simp del: write_byte.simps)

lemma on_serial_port: "on_serial io \<noteq> [] \<Longrightarrow> io_port io = PORT"
  by (cases io) (simp_all split: if_splits)

lemma no_serial: "PORT \<notin> io_port ` set io \<Longrightarrow> serial_bytes io = []"
  using on_serial_port by (auto simp: serial_bytes_def) (metis imageI)

lemma write_no_serial: "write_str dbg V s w = Inr (w', io) \<Longrightarrow> serial_bytes io = []"
  using write_ports(3) [of dbg V s w w' io] by (intro no_serial) (auto simp: PORT_def crtc_io_def)

lemma screen_write_all_refines:
  assumes "volatile_laws V" "displays V w t" "ransid_ok (wr_state w)"
  shows "\<exists>w' io outs. screen_write_all dbg V ss w = Inr (w', io) \<and> ransid_run dbg (wr_state w) (concat ss) = Inr (wr_state w', outs)
    \<and> ransid_ok (wr_state w') \<and> displays V w' (fold tty_glyph outs t) \<and> serial_bytes io = (if dbg then concat ss else [])"
  using assms(2,3)
proof (induction ss arbitrary: w t)
  case Nil
  then show ?case by simp
next
  case (Cons s ss)
  obtain w1 io1 outs1 where r: "write_str dbg V s w = Inr (w1, io1)" "ransid_run dbg (wr_state w) s = Inr (wr_state w1, outs1)"
    "ransid_ok (wr_state w1)" "displays V w1 (fold tty_glyph outs1 t)"
    using write_str_refines [OF assms(1) Cons.prems, of dbg s] by blast
  from Cons.IH [OF r(4,3)] r write_no_serial [OF r(1)] show ?case
    by (auto simp: screen_write_str_def ransid_run_append fold_append simp del: write_str.simps)
qed

lemma screen_write_all_ports:
  "screen_write_all dbg V ss w = Inr (w', io) \<Longrightarrow> io_port ` set io \<subseteq> {PORT, 0x3D4, 0x3D5}"
proof (induction ss arbitrary: w io)
  case (Cons s ss)
  then obtain w1 io1 io2 where r: "write_str dbg V s w = Inr (w1, io1)" "screen_write_all dbg V ss w1 = Inr (w', io2)"
    "io = (if dbg then serial_write_str s else []) @ io1 @ io2"
    by (auto simp: screen_write_str_def res_elim simp del: write_str.simps)
  have "io_port ` set (serial_write_str s) \<subseteq> {PORT}"
    by (auto simp: serial_write_str_def serial_write_byte_def)
  then show ?case using Cons.IH [OF r(2)] write_ports(3) [OF r(1)] unfolding r(3) crtc_io_def by auto
qed simp

subsection \<open>A line of text\<close>

definition overwrite :: "nat \<Rightarrow> 'a list \<Rightarrow> 'a list \<Rightarrow> 'a list" where
  "overwrite p xs ys = take p ys @ xs @ drop (p + length xs) ys"

lemma overwrite_Cons: "p < length ys \<Longrightarrow> overwrite (Suc p) xs (ys[p := x]) = overwrite p (x # xs) ys"
  by (simp add: overwrite_def take_Suc_conv_app_nth)

definition printable :: "u8 \<Rightarrow> bool" where
  "printable c \<longleftrightarrow> 32 \<le> c \<and> c \<le> 126"

lemma printable_not:
  assumes "printable c"
  shows "c \<noteq> 0" "c \<noteq> ESC" "c \<noteq> 9" "c \<noteq> 10" "c \<noteq> 13"
  using assms by (auto simp: printable_def ESC_def)

lemma tty_text:
  assumes "list_all (\<lambda>cc. printable (cc_ascii cc)) outs" "t_col t + length outs < 80" "80 * t_row t + 80 \<le> length (t_cells t)"
  shows "fold tty_glyph outs t =
    t\<lparr>t_cells := overwrite (80 * t_row t + t_col t) (map (\<lambda>cc. cell (cc_style cc) (cc_ascii cc)) outs) (t_cells t),
      t_col := t_col t + length outs\<rparr>"
  using assms
proof (induction outs arbitrary: t)
  case Nil
  then show ?case by (simp add: overwrite_def)
next
  case (Cons cc outs)
  let ?c = "cell (cc_style cc) (cc_ascii cc)"
  have "tty_glyph cc t = t\<lparr>t_cells := (t_cells t)[80 * t_row t + t_col t := ?c], t_col := t_col t + 1\<rparr>"
    using Cons.prems(1,2) by (simp add: tty_glyph_def tty_put_def printable_not) (simp add: printable_def)
  with Cons show ?case by (simp add: overwrite_Cons)
qed

definition level_fg :: "Level \<Rightarrow> Color" where
  "level_fg l = (case l of Level_Info \<Rightarrow> LightGreen | Level_Error \<Rightarrow> LightRed | Level_Warn \<Rightarrow> LightBrown
    | Level_Debug \<Rightarrow> LightCyan | Level_Trace \<Rightarrow> LightMagenta)"

definition level_ansi :: "Level \<Rightarrow> nat" where
  "level_ansi l = (case l of Level_Info \<Rightarrow> 2 | Level_Error \<Rightarrow> 1 | Level_Warn \<Rightarrow> 3 | Level_Debug \<Rightarrow> 6 | Level_Trace \<Rightarrow> 5)"

definition log_items :: "log_crate \<Rightarrow> Level \<Rightarrow> u8 list \<Rightarrow> item list" where
  "log_items G l msg = [Text (str_bytes ''[''), Sgr [Fg (level_ansi l)], Text (level_display G l), Sgr [Reset],
    Text (str_bytes ''] '' @ msg @ [0x0A])]"

definition log_line :: "log_crate \<Rightarrow> Level \<Rightarrow> u8 list \<Rightarrow> u16 list" where
  "log_line G l msg = cell (create_style Black White) 0x5B # map (cell (create_style Black (level_fg l))) (level_display G l)
    @ map (cell (create_style Black White)) (str_bytes ''] '' @ msg)"

lemma level_display_printable:
  assumes "log_laws G" "c \<in> set (level_display G l)"
  shows "printable c"
proof -
  have "65 \<le> c" "c \<le> 90" using assms by (simp_all add: log_laws_def)
  then show ?thesis by (simp add: printable_def word_le_nat_alt)
qed

lemma log_items_bytes:
  "concat (fmt_calls [str_bytes ''['', [], [], str_bytes ''] '', [0x0A]] [level_color l, level_display G l, ESC # str_bytes ''[0m'', msg])
    = concat (map item_bytes (log_items G l msg))"
  by (cases l) (simp_all add: log_items_def level_ansi_def str_bytes_def)

lemma log_items_ok:
  assumes "log_laws G" "list_all printable msg"
  shows "items_ok plain (log_items G l msg)"
    "shown plain (log_items G l msg) = (plain, 0x5B) # map (Pair (plain\<lparr>at_fg := level_fg l\<rparr>)) (level_display G l)
      @ map (Pair plain) (str_bytes ''] '' @ msg) @ [(plain, 0x0A)]"
    "fold item_attr (log_items G l msg) plain = plain"
proof -
  have msg: "0 \<notin> set msg" "ESC \<notin> set msg" using assms(2) by (auto simp: list_all_iff dest: printable_not)
  have lev: "0 \<notin> set (level_display G l)" "ESC \<notin> set (level_display G l)"
    using level_display_printable [OF assms(1)] by (auto dest: printable_not)
  show "items_ok plain (log_items G l msg)"
    using msg lev by (cases l) (simp_all add: log_items_def level_ansi_def str_bytes_def ESC_def)
  have "sgr_attr (Fg (level_ansi l)) plain = plain\<lparr>at_fg := level_fg l\<rparr>"
    by (cases l) (simp_all add: level_ansi_def level_fg_def ansi_color_def plain_def)
  then show "shown plain (log_items G l msg) = (plain, 0x5B) # map (Pair (plain\<lparr>at_fg := level_fg l\<rparr>)) (level_display G l)
      @ map (Pair plain) (str_bytes ''] '' @ msg) @ [(plain, 0x0A)]"
    by (simp add: log_items_def str_bytes_def plain_def del: sgr_attr.simps(4))
  show "fold item_attr (log_items G l msg) plain = plain" by (simp add: log_items_def plain_def)
qed

subsection \<open>The console as a device\<close>

definition console_ok :: "'v volatile \<Rightarrow> 'v Writer \<Rightarrow> bool" where
  "console_ok V w \<longleftrightarrow> ransid_ok (wr_state w) \<and> (\<exists>t. displays V w t)"

lemma print_ok:
  assumes "volatile_laws V" "console_ok V w"
  shows "\<exists>w' io. print dbg V a w = Inr (w', io) \<and> console_ok V w'"
proof -
  obtain t where "displays V w t" "ransid_ok (wr_state w)" using assms(2) by (auto simp: console_ok_def)
  from screen_write_all_refines [OF assms(1) this, of dbg "fmt_calls (fmt_pieces a) (fmt_args a)"]
  show ?thesis unfolding print_def console_ok_def by blast
qed

interpretation printer: io_device "print dbg V" "\<lambda>w. volatile_laws V \<and> console_ok V w" for dbg V
  by unfold_locales (use print_ok in blast)

interpretation line_printer: io_device "\<lambda>s. print dbg V \<lparr>fmt_pieces = [s @ [0x0A]], fmt_args = []\<rparr>"
    "\<lambda>w. volatile_laws V \<and> console_ok V w" for dbg V
  by unfold_locales (use print_ok in blast)

interpretation logger: io_device "\<lambda>(level, a). log_record dbg V G max_level level a" "\<lambda>w. volatile_laws V \<and> console_ok V w"
    for dbg V G max_level
  by unfold_locales (use print_ok in \<open>fastforce simp: log_record_def\<close>)

subsection \<open>Properties of printing and logging\<close>

text \<open>
  Claim C23 (printing). \<^verbatim>\<open>_print\<close> never panics: its \<^verbatim>\<open>unwrap\<close> and the indexing of the console always succeed. The screen
  shows the formatted string as one text, however it is split into pieces, and in a debug build exactly its bytes
  go to the serial port, in order; in a release build none do.
\<close>

theorem print_correct:
  assumes "volatile_laws V" "displays V w t" "ransid_ok (wr_state w)" "bs = concat (fmt_calls (fmt_pieces a) (fmt_args a))"
  shows "\<exists>w' io outs. print dbg V a w = Inr (w', io) \<and> ransid_run dbg (wr_state w) bs = Inr (wr_state w', outs)
    \<and> ransid_ok (wr_state w') \<and> displays V w' (fold tty_glyph outs t) \<and> serial_bytes io = (if dbg then bs else [])"
  using screen_write_all_refines [OF assms(1-3), of dbg] unfolding print_def assms(4) by blast

theorem print_correct_witness:
  "\<exists>w w' io. writer_default True (\<lambda>x. 0) = Inr w \<and> ransid_ok (wr_state w')
    \<and> print True volatile_ref \<lparr>fmt_pieces = [str_bytes ''n = '', [10]], fmt_args = [str_bytes ''42'']\<rparr> w = Inr (w', io)
    \<and> serial_bytes io = str_bytes ''n = 42'' @ [10]"
proof -
  obtain w where w: "writer_default True (\<lambda>x. 0) = Inr w" "ransid_ok (wr_state w)"
    "displays volatile_ref w (tty_new (map (\<lambda>i. vol_read volatile_ref 0) [0..<2000]))"
    using writer_default_ok [of True "\<lambda>x. 0" volatile_ref] by blast
  from print_correct [OF volatile_laws_ref w(3,2) refl, of True "\<lparr>fmt_pieces = [str_bytes ''n = '', [10]], fmt_args = [str_bytes ''42'']\<rparr>"]
  show ?thesis using w(1) by (auto simp: str_bytes_def simp del: ransid_run.simps)
qed

lemma log_record_line:
  assumes "volatile_laws V" "log_laws G" "displays V w t" "wr_state w = attr_state Esc (attr_style plain) plain"
    and "t_col t = 0" "level_le G l max_level" "list_all printable (log_text a)"
    and "length (level_display G l) + length (log_text a) < 77"
  shows "\<exists>w' io. log_record dbg V G max_level l a w = Inr (w', io) \<and> wr_state w' = wr_state w
    \<and> displays V w' (tty_newline (t\<lparr>t_cells := overwrite (80 * t_row t) (log_line G l (log_text a)) (t_cells t)\<rparr>))"
proof -
  let ?is = "log_items G l (log_text a)" and ?p = "\<lambda>(a, c). \<lparr>cc_style = attr_style a, cc_ascii = c\<rparr>"
  let ?front = "(plain, 0x5B) # map (Pair (plain\<lparr>at_fg := level_fg l\<rparr>)) (level_display G l) @ map (Pair plain) (str_bytes ''] '' @ log_text a)"
  note items = log_items_ok [OF assms(2,7), of l]
  have ok: "ransid_ok (wr_state w)" unfolding assms(4) by (rule attr_state_ok) (simp add: plain_def)
  have run: "ransid_run dbg (wr_state w) (concat (map item_bytes ?is)) = Inr (wr_state w, map ?p ?front @ [?p (plain, 0x0A)])"
    unfolding assms(4) ransid_run_items [OF items(1)] items(2,3) by simp
  have "list_all (\<lambda>cc. printable (cc_ascii cc)) (map ?p ?front)"
    using assms(7) level_display_printable [OF assms(2)] by (auto simp: list_all_iff str_bytes_def printable_def)
  moreover have "80 * t_row t + 80 \<le> length (t_cells t)" using assms(3) by (elim displaysE) simp
  ultimately have "fold tty_glyph (map ?p ?front) t =
      t\<lparr>t_cells := overwrite (80 * t_row t) (log_line G l (log_text a)) (t_cells t), t_col := length (map ?p ?front)\<rparr>"
    using assms(5,8) tty_text [of "map ?p ?front" t]
    by (simp add: log_line_def attr_style_def plain_def comp_def str_bytes_def)
  then have "fold tty_glyph (map ?p ?front @ [?p (plain, 0x0A)]) t =
      tty_newline (t\<lparr>t_cells := overwrite (80 * t_row t) (log_line G l (log_text a)) (t_cells t)\<rparr>)"
    unfolding fold_append comp_apply by (simp add: tty_glyph_def tty_newline_def)
  then show ?thesis
    using screen_write_all_refines [OF assms(1,3) ok, of dbg "fmt_calls [str_bytes ''['', [], [], str_bytes ''] '', [0x0A]]
      [level_color l, level_display G l, ESC # str_bytes ''[0m'', log_text a]", unfolded log_items_bytes run] assms(6)
    by (auto simp: log_record_def log_enabled_def print_def simp del: fmt_calls.simps map_append)
qed



end
