(* ===== verification/Keyboard.thy ===== *)
theory Keyboard
  imports Console
begin

text \<open>
  The keyboard controller (\<^verbatim>\<open>drivers/keyboard.rs\<close>). Both directions wait for a bit of the status port in a loop
  without a bound. \<open>dev n p\<close> is the byte that the \<open>n\<close>-th port read of the driver returns when it reads port \<open>p\<close>, so
  a definition threads the number of reads done so far.
\<close>

datatype Ports = DATA | STATUS_COMMAND

fun ports_u16 :: "Ports \<Rightarrow> u16" where
  "ports_u16 DATA = 0x60"
| "ports_u16 STATUS_COMMAND = 0x64"

definition OUTBUF_STATUS :: u8 where
  "OUTBUF_STATUS = 0x01"

definition INBUF_STATUS :: u8 where
  "INBUF_STATUS = 0x02"

type_synonym device = "nat \<Rightarrow> u16 \<Rightarrow> u8"

definition status_reads :: "device \<Rightarrow> nat \<Rightarrow> nat \<Rightarrow> port_io list" where
  "status_reads dev n m = map (\<lambda>i. In8 (ports_u16 STATUS_COMMAND) (dev i (ports_u16 STATUS_COMMAND))) [n..<m]"

definition can_send :: "device \<Rightarrow> nat \<Rightarrow> bool" where
  "can_send dev i \<longleftrightarrow> dev i (ports_u16 STATUS_COMMAND) AND INBUF_STATUS = 0"

definition can_receive :: "device \<Rightarrow> nat \<Rightarrow> bool" where
  "can_receive dev i \<longleftrightarrow> dev i (ports_u16 STATUS_COMMAND) AND OUTBUF_STATUS \<noteq> 0"

definition keyboard_output_withwait :: "device \<Rightarrow> Ports \<Rightarrow> u8 \<Rightarrow> nat \<Rightarrow> (nat \<times> port_io list) option" where
  "keyboard_output_withwait dev p data n =
    (case poll (can_send dev) n of
      None \<Rightarrow> None
    | Some m \<Rightarrow> Some (Suc m, status_reads dev n (Suc m) @ [Out8 (ports_u16 p) data]))"

definition keyboard_input_withwait :: "device \<Rightarrow> nat \<Rightarrow> (u8 \<times> nat \<times> port_io list) option" where
  "keyboard_input_withwait dev n =
    (case poll (can_receive dev) n of
      None \<Rightarrow> None
    | Some m \<Rightarrow>
        let ch = dev (Suc m) (ports_u16 DATA)
        in Some (ch, Suc (Suc m), status_reads dev n (Suc m) @ [In8 (ports_u16 DATA) ch]))"

definition keyboard_init :: "device \<Rightarrow> nat \<Rightarrow> (nat \<times> port_io list) option" where
  "keyboard_init dev n =
    Option.bind (keyboard_output_withwait dev STATUS_COMMAND 0xAE n) (\<lambda>(n, io1).
    Option.bind (keyboard_output_withwait dev STATUS_COMMAND 0x20 n) (\<lambda>(n, io2).
    Option.bind (keyboard_input_withwait dev n) (\<lambda>(response_byte, n, io3).
    Option.bind (keyboard_output_withwait dev STATUS_COMMAND 0x60 n) (\<lambda>(n, io4).
    Option.bind (keyboard_output_withwait dev DATA (response_byte OR 1) n) (\<lambda>(n, io5).
      Some (n, io1 @ io2 @ io3 @ io4 @ io5))))))"

definition keyboard_interrupt_handler :: "device \<Rightarrow> bool \<Rightarrow> 'v volatile \<Rightarrow> log_crate \<Rightarrow> LevelFilter \<Rightarrow> nat \<Rightarrow> 'v Writer
    \<Rightarrow> (nat \<times> 'v Writer \<times> port_io list) run" where
  "keyboard_interrupt_handler dev dbg V G max_level n w =
    (case keyboard_input_withwait dev n of
      None \<Rightarrow> None
    | Some (incoming_byte, n, io) \<Rightarrow>
        Some (bind_res (log_record dbg V G max_level Level_Info
            \<lparr>fmt_pieces = [str_bytes ''Key recieved: ''], fmt_args = [dec_digits (unat incoming_byte)]\<rparr> w)
          (\<lambda>(w, io'). Inr (n, w, io @ io'))))"

subsection \<open>Properties\<close>

fun written :: "port_io \<Rightarrow> (u16 \<times> u8) list" where
  "written (Out8 p ch) = [(p, ch)]"
| "written io = []"

lemma written_status_reads: "concat (map written (status_reads dev n m)) = []"
  by (induction m) (simp_all add: status_reads_def)

lemma output_returns:
  assumes "\<exists>i \<ge> n. can_send dev i"
  obtains m where "n \<le> m" "can_send dev m"
    "keyboard_output_withwait dev p data n = Some (Suc m, status_reads dev n (Suc m) @ [Out8 (ports_u16 p) data])"
proof -
  obtain m where "poll (can_send dev) n = Some m" using assms poll_ends by blast
  then show ?thesis using poll_Some [of "can_send dev" n m] by (intro that [of m]) (simp_all add: keyboard_output_withwait_def)
qed

lemma input_returns:
  assumes "\<exists>i \<ge> n. can_receive dev i"
  obtains m where "n \<le> m" "can_receive dev m"
    "keyboard_input_withwait dev n = Some (dev (Suc m) 0x60, Suc (Suc m), status_reads dev n (Suc m) @ [In8 0x60 (dev (Suc m) 0x60)])"
proof -
  obtain m where "poll (can_receive dev) n = Some m" using assms poll_ends by blast
  then show ?thesis
    using poll_Some [of "can_receive dev" n m] by (intro that [of m]) (simp_all add: keyboard_input_withwait_def Let_def)
qed


text \<open>A controller that is ready at every second status read, and then has a byte for the driver.\<close>

definition sample_device :: device where
  "sample_device n p = (if p = 0x60 then 0x44 else if even n then 0x02 else 0x01)"


end
