(* ===== verification/Testing.thy ===== *)
theory Testing
  imports Console
begin

text \<open>
  The test harness (\<^verbatim>\<open>testing.rs\<close> and the macro \<^verbatim>\<open>test_case!\<close>): it runs the unit tests in order and leaves the emulator through
  a debug port with an exit code. A test is a function of the console that returns, or panics with some text; a build for tests
  always copies the console to the serial port. The lemmas show that exactly one exit code is sent, after everything else,
  and that it is the one for success if and only if no test panics.
\<close>

datatype ExitCode = Success | Failure

fun exit_code_u32 :: "ExitCode \<Rightarrow> u32" where
  "exit_code_u32 Success = 0x10"
| "exit_code_u32 Failure = 0x11"

definition exit_qemu :: "ExitCode \<Rightarrow> port_io list" where
  "exit_qemu exit_code = [Out32 0xF4 (exit_code_u32 exit_code)]"

text \<open>What a test does: the console after it, its port accesses, and the text of its panic if there is one.\<close>

type_synonym 'v test = "'v Writer \<Rightarrow> ('v Writer \<times> port_io list \<times> u8 list option) res"

definition test_panic :: "'v volatile \<Rightarrow> u8 list \<Rightarrow> 'v Writer \<Rightarrow> ('v Writer \<times> port_io list) res" where
  "test_panic V info w =
    bind_res (print True V \<lparr>fmt_pieces = [str_bytes ''[failed] '', [0x0A]], fmt_args = [info]\<rparr> w) (\<lambda>(w, io).
      Inr (w, io @ exit_qemu Failure))"

definition test_case :: "'v volatile \<Rightarrow> u8 list \<Rightarrow> u8 list \<Rightarrow> 'v test \<Rightarrow> 'v test" where
  "test_case V module_path test_name body w =
    bind_res (print True V \<lparr>fmt_pieces = [[], str_bytes ''::'', str_bytes ''... ''], fmt_args = [module_path, test_name]\<rparr> w) (\<lambda>(w, io1).
    bind_res (body w) (\<lambda>(w, io2, panicked).
    case panicked of
      Some info \<Rightarrow> Inr (w, io1 @ io2, Some info)
    | None \<Rightarrow>
        bind_res (print True V \<lparr>fmt_pieces = [str_bytes ''[ok]'' @ [0x0A]], fmt_args = []\<rparr> w) (\<lambda>(w, io3).
          Inr (w, io1 @ io2 @ io3, None))))"

fun run_tests :: "'v test list \<Rightarrow> 'v test" where
  "run_tests [] w = Inr (w, [], None)"
| "run_tests (test # tests) w =
    bind_res (test w) (\<lambda>(w, io, panicked).
    case panicked of
      Some info \<Rightarrow> Inr (w, io, Some info)
    | None \<Rightarrow> bind_res (run_tests tests w) (\<lambda>(w, io', panicked). Inr (w, io @ io', panicked)))"

definition test_runner :: "'v volatile \<Rightarrow> log_crate \<Rightarrow> LevelFilter \<Rightarrow> 'v test list \<Rightarrow> 'v Writer \<Rightarrow> ('v Writer \<times> port_io list) res" where
  "test_runner V G max_level tests w =
    bind_res (log_record True V G max_level Level_Info
        \<lparr>fmt_pieces = [str_bytes ''Running '', str_bytes '' tests''], fmt_args = [dec_digits (length tests)]\<rparr> w) (\<lambda>(w, io1).
    bind_res (print True V \<lparr>fmt_pieces = [str_bytes ''-----------------------'' @ [0x0A]], fmt_args = []\<rparr> w) (\<lambda>(w, io2).
    bind_res (run_tests tests w) (\<lambda>(w, io3, panicked).
    case panicked of
      None \<Rightarrow> Inr (w, io1 @ io2 @ io3 @ exit_qemu Success)
    | Some info \<Rightarrow> bind_res (test_panic V info w) (\<lambda>(w, io4). Inr (w, io1 @ io2 @ io3 @ io4)))))"

definition basic_test :: "'v volatile \<Rightarrow> u8 list \<Rightarrow> 'v test" where
  "basic_test V module_path = test_case V module_path (str_bytes ''basic_test'')
    (\<lambda>w. Inr (w, [], if (1 :: int) = 1 then None else Some (str_bytes ''assertion failed'')))"

subsection \<open>Properties\<close>

text \<open>The exit codes in a trace.\<close>

fun exit_codes :: "port_io list \<Rightarrow> u32 list" where
  "exit_codes [] = []"
| "exit_codes (Out32 p x # io) = (if p = 0xF4 then x # exit_codes io else exit_codes io)"
| "exit_codes (_ # io) = exit_codes io"

lemma exit_codes_append [simp]: "exit_codes (io @ io') = exit_codes io @ exit_codes io'"
  by (induction io rule: exit_codes.induct) simp_all

lemma no_exit: "0xF4 \<notin> io_port ` set io \<Longrightarrow> exit_codes io = []"
  by (induction io rule: exit_codes.induct) auto

lemma exit_codes_qemu [simp]: "exit_codes (exit_qemu c) = [exit_code_u32 c]"
  by (simp add: exit_qemu_def)

lemma print_Inr:
  assumes "volatile_laws V" "console_ok V w"
  obtains w' io where "print dbg V a w = Inr (w', io)" "console_ok V w'" "exit_codes io = []"
proof -
  obtain w' io where p: "print dbg V a w = Inr (w', io)" "console_ok V w'"
    by (rule printer.put_Inr [OF conjI [OF assms]]) blast
  then have "io_port ` set io \<subseteq> {PORT, 0x3D4, 0x3D5}" unfolding print_def by (blast dest: screen_write_all_ports)
  then have "exit_codes io = []" by (intro no_exit) (auto simp: PORT_def)
  with p show ?thesis by (rule that)
qed

lemma log_Inr:
  assumes "volatile_laws V" "console_ok V w"
  obtains w' io where "log_record dbg V G max_level level a w = Inr (w', io)" "console_ok V w'" "exit_codes io = []"
proof (cases "log_enabled G max_level level")
  case True
  then show ?thesis using print_Inr [OF assms] that unfolding log_record_def by metis
next
  case False
  then show ?thesis using assms(2) that [of w "[]"] by (simp add: log_record_def)
qed

text \<open>
  \<open>test_verdict V t b\<close>: on every intact console the test ends, with a panic unless \<open>b\<close>; it leaves the console intact and the
  debug port alone.
\<close>

definition test_verdict :: "'v volatile \<Rightarrow> 'v test \<Rightarrow> bool \<Rightarrow> bool" where
  "test_verdict V t b \<longleftrightarrow> (\<forall>w. console_ok V w \<longrightarrow>
    (\<exists>w' io p. t w = Inr (w', io, p) \<and> console_ok V w' \<and> exit_codes io = [] \<and> (p = None \<longleftrightarrow> b)))"

lemma test_case_verdict:
  assumes "volatile_laws V" "test_verdict V body b"
  shows "test_verdict V (test_case V module_path test_name body) b"
  unfolding test_verdict_def
proof (intro allI impI)
  fix w assume "console_ok V w"
  then obtain w1 io1 where w1: "print True V \<lparr>fmt_pieces = [[], str_bytes ''::'', str_bytes ''... ''], fmt_args = [module_path, test_name]\<rparr> w
      = Inr (w1, io1)" "console_ok V w1" "exit_codes io1 = []" by (rule print_Inr [OF assms(1)])
  obtain w2 io2 p where w2: "body w1 = Inr (w2, io2, p)" "console_ok V w2" "exit_codes io2 = []" "p = None \<longleftrightarrow> b"
    using assms(2) w1(2) unfolding test_verdict_def by blast
  obtain w3 io3 where "print True V \<lparr>fmt_pieces = [str_bytes ''[ok]'' @ [0x0A]], fmt_args = []\<rparr> w2 = Inr (w3, io3)"
    "console_ok V w3" "exit_codes io3 = []" by (rule print_Inr [OF assms(1) w2(2)])
  with w1 w2 show "\<exists>w' io p. test_case V module_path test_name body w = Inr (w', io, p) \<and> console_ok V w'
      \<and> exit_codes io = [] \<and> (p = None \<longleftrightarrow> b)"
    by (auto simp: test_case_def split: option.splits)
qed

lemma run_tests_verdict:
  assumes "list_all2 (test_verdict V) tests bs"
  shows "test_verdict V (run_tests tests) (False \<notin> set bs)"
  using assms
proof (induction tests bs rule: list_all2_induct)
  case (Cons t ts b bs)
  show ?case unfolding test_verdict_def
  proof (intro allI impI)
    fix w assume "console_ok V w"
    then obtain w1 io p where w1: "t w = Inr (w1, io, p)" "console_ok V w1" "exit_codes io = []" "p = None \<longleftrightarrow> b"
      using Cons.hyps(1) unfolding test_verdict_def by blast
    then show "\<exists>w' io p. run_tests (t # ts) w = Inr (w', io, p) \<and> console_ok V w' \<and> exit_codes io = [] \<and> (p = None \<longleftrightarrow> False \<notin> set (b # bs))"
      using Cons.IH unfolding test_verdict_def by (cases p) fastforce+
  qed
qed (simp add: test_verdict_def)

text \<open>
  The runner sends exactly one exit code, as its last port access: the one for success if every test returns, and the
  one for failure if some test panics.
\<close>

lemma test_runner_exit:
  assumes "volatile_laws V" "console_ok V w" "list_all2 (test_verdict V) tests bs"
  shows "\<exists>w' io. test_runner V G max_level tests w = Inr (w', io @ exit_qemu (if False \<in> set bs then Failure else Success))
    \<and> exit_codes io = []"
proof -
  let ?msg = "\<lparr>fmt_pieces = [str_bytes ''Running '', str_bytes '' tests''], fmt_args = [dec_digits (length tests)]\<rparr>"
  obtain w1 io1 where w1: "log_record True V G max_level Level_Info ?msg w = Inr (w1, io1)" "console_ok V w1" "exit_codes io1 = []"
    by (rule log_Inr [OF assms(1,2)])
  obtain w2 io2 where w2: "print True V \<lparr>fmt_pieces = [str_bytes ''-----------------------'' @ [0x0A]], fmt_args = []\<rparr> w1 = Inr (w2, io2)"
    "console_ok V w2" "exit_codes io2 = []" by (rule print_Inr [OF assms(1) w1(2)])
  obtain w3 io3 p where w3: "run_tests tests w2 = Inr (w3, io3, p)" "console_ok V w3" "exit_codes io3 = []" "p = None \<longleftrightarrow> False \<notin> set bs"
    using run_tests_verdict [OF assms(3)] w2(2) unfolding test_verdict_def by blast
  show ?thesis
  proof (cases p)
    case None
    with w1 w2 w3 show ?thesis by (simp add: test_runner_def)
  next
    case (Some info)
    obtain w4 io4 where "print True V \<lparr>fmt_pieces = [str_bytes ''[failed] '', [0x0A]], fmt_args = [info]\<rparr> w3 = Inr (w4, io4)"
      "exit_codes io4 = []" by (rule print_Inr [OF assms(1) w3(2)])
    with Some w1 w2 w3 show ?thesis by (simp add: test_runner_def test_panic_def)
  qed
qed

lemma basic_test_succeeds:
  assumes "volatile_laws V" "console_ok V w"
  shows "\<exists>w' io. test_runner V G max_level [basic_test V module_path] w = Inr (w', io @ exit_qemu Success)"
proof -
  have "test_verdict V (basic_test V module_path) True"
    unfolding basic_test_def by (rule test_case_verdict [OF assms(1)]) (simp add: test_verdict_def)
  with test_runner_exit [OF assms, of "[basic_test V module_path]" "[True]" G max_level] show ?thesis by auto
qed

end
