(* ===== verification/Addr_Space.thy ===== *)
theory Addr_Space
  imports Pmm
begin

text \<open>
  Model of \<^verbatim>\<open>src/src/mm/addr_space.rs\<close> and of the second half of \<^verbatim>\<open>MemoryMap::new\<close>, \<^verbatim>\<open>src/src/mm/map.rs\<close>, which
  uses it to map the \<^verbatim>\<open>PageInfo\<close> array. The page tables are those of the \<^verbatim>\<open>x86_64\<close> crate
  (\<^verbatim>\<open>OffsetPageTable\<close>): a record of the functions the kernel calls, with their documented behaviour in
  \<open>paging_laws\<close>. \<open>'pt\<close> is the state of the page tables, \<open>'s\<close> the state of the frame allocator a call uses.
\<close>

datatype MapToError = FrameAllocationFailed | ParentEntryHugePage | PageAlreadyMapped

record ('pt, 's) paging =
  page_containing :: "virt_addr \<Rightarrow> virt_addr"
  pt_map_to :: "'pt \<Rightarrow> virt_addr \<Rightarrow> phys_frame \<Rightarrow> u64 \<Rightarrow> 's frame_source \<Rightarrow> 's \<Rightarrow>
    ((MapToError + unit) \<times> 'pt \<times> 's \<times> mem_event list) res"
  pt_translate :: "'pt \<Rightarrow> virt_addr \<Rightarrow> phys_addr option"
  FLAG_PRESENT :: u64
  FLAG_WRITABLE :: u64
  FLAG_GLOBAL :: u64
  pt_clean :: "'pt \<Rightarrow> bool"

text \<open>
  What the crate documents of a call of \<^verbatim>\<open>Mapper::map_to\<close>: when it succeeds, the page was unmapped, every
  address of the page now translates into the frame, all other translations are as before, and at most
  three frames were taken for page tables, from the allocator the caller passed (\<open>map_to_effect\<close>). It succeeds
  when the page is unmapped and the allocator can provide these frames. The latter supposes
  page tables whose entries are either unused or present (\<open>pt_clean\<close>), which mapping with \<^verbatim>\<open>PRESENT\<close> keeps.
\<close>

definition map_to_effect ::
  "('pt, 's) paging \<Rightarrow> virt_addr \<Rightarrow> phys_frame \<Rightarrow> 's frame_source \<Rightarrow> 'pt \<Rightarrow> 's \<Rightarrow> 'pt \<Rightarrow> 's \<Rightarrow> bool" where
  "map_to_effect PT page frame alloc pt s pt' s' \<longleftrightarrow>
     (\<forall>v. if page_containing PT v = page
          then pt_translate PT pt v = None \<and> pt_translate PT pt' v = Some (frame + (v - page))
          else pt_translate PT pt' v = pt_translate PT pt v)
     \<and> (\<exists>n fs. n \<le> 3 \<and> alloc_many alloc n s = Inr (fs, s'))"

definition paging_laws :: "('pt, 's) paging \<Rightarrow> bool" where
  "paging_laws PT \<longleftrightarrow>
     (\<forall>v. page_containing PT v = of_nat (round_down (unat v) 4096))
     \<and> (\<forall>pt page frame flags alloc s pt' s' ev.
          pt_map_to PT pt page frame flags alloc s = Inr (Inr (), pt', s', ev) \<longrightarrow>
            map_to_effect PT page frame alloc pt s pt' s'
            \<and> (pt_clean PT pt \<longrightarrow> flags AND FLAG_PRESENT PT = FLAG_PRESENT PT \<longrightarrow> pt_clean PT pt'))
     \<and> (\<forall>pt v frame flags alloc s fs s'.
          pt_clean PT pt \<longrightarrow> pt_translate PT pt v = None \<longrightarrow> alloc_many alloc 3 s = Inr (fs, s') \<longrightarrow>
            (\<exists>pt' s'' ev. pt_map_to PT pt (page_containing PT v) frame flags alloc s = Inr (Inr (), pt', s'', ev)))"

text \<open>An implementation of the laws: a partial function from pages to frames.\<close>

definition paging_ref :: "(virt_addr \<rightharpoonup> phys_frame, 's) paging" where
  "paging_ref =
     \<lparr>page_containing = (\<lambda>v. of_nat (round_down (unat v) 4096)),
      pt_map_to = (\<lambda>pt page frame flags alloc s.
        if pt page = None then Inr (Inr (), pt(page \<mapsto> frame), s, []) else Inr (Inl PageAlreadyMapped, pt, s, [])),
      pt_translate = (\<lambda>pt v. let page = of_nat (round_down (unat v) 4096) in
        map_option (\<lambda>frame. frame + (v - page)) (pt page)),
      FLAG_PRESENT = 1, FLAG_WRITABLE = 2, FLAG_GLOBAL = 0x100, pt_clean = (\<lambda>pt. True)\<rparr>"

lemma paging_laws_ref: "paging_laws paging_ref"
proof -
  have none: "\<exists>n fs. n \<le> 3 \<and> alloc_many alloc n s = Inr (fs, s)" for alloc :: "'b frame_source" and s
    by (rule exI [of _ 0]) simp
  show ?thesis
    unfolding paging_laws_def paging_ref_def map_to_effect_def
    by (auto simp: Let_def none split: if_splits)
qed

subsection \<open>Address spaces\<close>

definition map_to_with_allocator ::
  "('pt, 's) paging \<Rightarrow> x86_64 \<Rightarrow> virt_addr \<Rightarrow> phys_addr \<Rightarrow> u64 \<Rightarrow> 's frame_source \<Rightarrow> 'pt \<Rightarrow> 's \<Rightarrow>
    ((MapToError + unit) \<times> 'pt \<times> 's \<times> mem_event list) res" where
  "map_to_with_allocator PT X virt phys flags alloc pt s =
     pt_map_to PT pt (page_containing PT virt) (containing_address X phys) flags alloc s"

definition allocate_frame_proxy :: "x86_64 \<Rightarrow> bool \<Rightarrow> pmm frame_source" where
  "allocate_frame_proxy X dbg pmm =
     bind_res (pmm_alloc X dbg 0 pmm) (\<lambda>(rng, pmm', ev). Inr (Some (range_start rng), pmm', ev))"

definition map_to ::
  "('pt, pmm) paging \<Rightarrow> x86_64 \<Rightarrow> bool \<Rightarrow> virt_addr \<Rightarrow> phys_addr \<Rightarrow> u64 \<Rightarrow> 'pt \<Rightarrow> pmm \<Rightarrow>
    ((MapToError + unit) \<times> 'pt \<times> pmm \<times> mem_event list) res" where
  "map_to PT X dbg virt phys flags pt pmm =
     map_to_with_allocator PT X virt phys flags (allocate_frame_proxy X dbg) pt pmm"

definition translate_addr :: "('pt, 's) paging \<Rightarrow> 'pt \<Rightarrow> virt_addr \<Rightarrow> phys_addr option" where
  "translate_addr PT pt addr = pt_translate PT pt addr"

subsection \<open>The \<^verbatim>\<open>PageInfo\<close> array\<close>

text \<open>\<^verbatim>\<open>PhysFrame::range_inclusive\<close> and the frames of a region it is called with.\<close>

definition range_inclusive :: "phys_frame \<Rightarrow> phys_frame \<Rightarrow> phys_frame list" where
  "range_inclusive first fin =
     (if first \<le> fin then map (\<lambda>i. first + 4096 * of_nat i) [0..<unat (fin - first) div 4096 + 1] else [])"

definition region_frames :: "x86_64 \<Rightarrow> Region \<Rightarrow> phys_frame list res" where
  "region_frames X rg =
     (let first = containing_address X (reg_addr rg) in
      bind_res (phys_addr_add X (reg_addr rg) (reg_size rg)) (\<lambda>e.
      Inr (range_inclusive first (containing_address X e))))"

definition map_page_info ::
  "('pt, MemoryMap) paging \<Rightarrow> x86_64 \<Rightarrow> Region arrayvec \<Rightarrow> bool \<Rightarrow> phys_frame \<Rightarrow> MemoryMap \<Rightarrow> 'pt \<Rightarrow>
    (MemoryMap \<times> 'pt \<times> mem_event list) res" where
  "map_page_info PT X A dbg page bump pt =
     bind_res (phys_to_page_info dbg page) (\<lambda>p.
     bind_res (virt_addr_new X p) (\<lambda>va.
     if translate_addr PT pt va \<noteq> None then Inr (bump, pt, [Write_Bytes va 0 size_of_PageInfo])
     else
       bind_res (allocate_frame X A dbg bump) (\<lambda>(f, bump1, ev).
       bind_res (expect_some Unwrap_None f) (\<lambda>phys_page.
       bind_res (map_to_with_allocator PT X va phys_page
           (FLAG_PRESENT PT OR FLAG_WRITABLE PT OR FLAG_GLOBAL PT) (allocate_frame X A dbg) pt bump1)
         (\<lambda>(r, pt', bump2, ev').
       case r of Inl e \<Rightarrow> Inl Expect_Failed | Inr _ \<Rightarrow> Inr (bump2, pt', ev @ ev'))))))"

fun map_page_infos ::
  "('pt, MemoryMap) paging \<Rightarrow> x86_64 \<Rightarrow> Region arrayvec \<Rightarrow> bool \<Rightarrow> phys_frame list \<Rightarrow> MemoryMap \<Rightarrow> 'pt \<Rightarrow>
    (MemoryMap \<times> 'pt \<times> mem_event list) res" where
  "map_page_infos PT X A dbg [] bump pt = Inr (bump, pt, [])"
| "map_page_infos PT X A dbg (page # rest) bump pt =
     bind_res (map_page_info PT X A dbg page bump pt) (\<lambda>(bump1, pt1, ev1).
     bind_res (map_page_infos PT X A dbg rest bump1 pt1) (\<lambda>(bump2, pt2, ev2). Inr (bump2, pt2, ev1 @ ev2)))"

fun map_region_infos ::
  "('pt, MemoryMap) paging \<Rightarrow> x86_64 \<Rightarrow> Region arrayvec \<Rightarrow> bool \<Rightarrow> Region list \<Rightarrow> MemoryMap \<Rightarrow> 'pt \<Rightarrow>
    (MemoryMap \<times> 'pt \<times> mem_event list) res" where
  "map_region_infos PT X A dbg [] bump pt = Inr (bump, pt, [])"
| "map_region_infos PT X A dbg (rg # rgs) bump pt =
     bind_res (region_frames X rg) (\<lambda>frames.
     bind_res (map_page_infos PT X A dbg frames bump pt) (\<lambda>(bump1, pt1, ev1).
     bind_res (map_region_infos PT X A dbg rgs bump1 pt1) (\<lambda>(bump2, pt2, ev2). Inr (bump2, pt2, ev1 @ ev2))))"

definition memory_map_new ::
  "('pt, MemoryMap) paging \<Rightarrow> x86_64 \<Rightarrow> Region arrayvec \<Rightarrow> bool \<Rightarrow> MemoryRegion list \<Rightarrow> 'pt \<Rightarrow>
    (MemoryMap \<times> 'pt \<times> mem_event list) res" where
  "memory_map_new PT X A dbg memory_map pt =
     bind_res (memory_map_regions X A dbg memory_map) (\<lambda>bump.
     map_region_infos PT X A dbg (regions bump) bump pt)"

subsection \<open>Mapping with the buddy allocator\<close>

lemmas paging_law = paging_laws_def [THEN iffD1]

lemma map_to_Ok:
  assumes "paging_laws PT" "pt_map_to PT pt page frame flags alloc s = Inr (Inr (), pt', s', ev)"
  shows "map_to_effect PT page frame alloc pt s pt' s'"
    and "pt_clean PT pt \<Longrightarrow> flags AND FLAG_PRESENT PT = FLAG_PRESENT PT \<Longrightarrow> pt_clean PT pt'"
  using paging_law [OF assms(1), THEN conjunct2, THEN conjunct1, rule_format, OF assms(2)] by simp_all

lemma map_to_returns:
  assumes "paging_laws PT" "pt_clean PT pt" "pt_translate PT pt v = None" "alloc_many alloc 3 s = Inr (fs, s')"
  obtains pt' s'' ev where "pt_map_to PT pt (page_containing PT v) frame flags alloc s = Inr (Inr (), pt', s'', ev)"
  using paging_law [OF assms(1), THEN conjunct2, THEN conjunct2, rule_format, OF assms(2-4)] that by metis

lemma page_containing_eq: "paging_laws PT \<Longrightarrow> page_containing PT v = of_nat (round_down (unat v) 4096)"
  using paging_law [THEN conjunct1, rule_format] .

lemma allocate_frame_proxy_takes:
  assumes "x86_64_laws X" "zones_ok zones" "allocate_frame_proxy X dbg (Some zones) = Inr (r, pmm', ev)"
  obtains f zones' where "r = Some f" "pmm' = Some zones'" "zones_ok zones'" "unat f \<in> pmm_addrs zones"
    "pmm_addrs zones' = pmm_addrs zones - {unat f}"
proof -
  obtain rng zones' where "alloc_zones X dbg 0 zones = Inr (rng, zones', ev)" "r = Some (range_start rng)" "pmm' = Some zones'"
    using assms(3) by (auto simp: allocate_frame_proxy_def pmm_alloc_def res_elim)
  with alloc_zones_0 [OF assms(1,2), of dbg rng zones' ev] that show ?thesis by blast
qed

definition pmm_ok :: "pmm \<Rightarrow> bool" where
  "pmm_ok pmm \<longleftrightarrow> (case pmm of None \<Rightarrow> False | Some zones \<Rightarrow> zones_ok zones)"

definition pmm_frames :: "pmm \<Rightarrow> nat set" where
  "pmm_frames pmm = (case pmm of None \<Rightarrow> {} | Some zones \<Rightarrow> pmm_addrs zones)"

lemma zone_addrs_finite: "finite (zone_addrs z)"
  by (simp add: zone_addrs_def)

lemma allocate_frame_proxy_serves:
  assumes "x86_64_laws X" "zones_ok zones" "pmm_addrs zones \<noteq> {}"
  shows "\<exists>r pmm' ev. allocate_frame_proxy X dbg (Some zones) = Inr (r, pmm', ev)"
  by (rule alloc_zones_serves [OF assms, of dbg]) (simp add: allocate_frame_proxy_def pmm_alloc_def)

interpretation proxy: total_frame_allocator "allocate_frame_proxy X dbg" "\<lambda>pmm. x86_64_laws X \<and> pmm_ok pmm" pmm_frames
proof (unfold_locales, goal_cases)
  case (1 pmm r pmm' ev)
  then obtain zones where pmm: "pmm = Some zones" "zones_ok zones" by (cases pmm) (auto simp: pmm_ok_def)
  show ?case
    by (rule allocate_frame_proxy_takes [of X zones dbg r pmm' ev])
      (use 1 pmm in \<open>auto simp: pmm_ok_def pmm_frames_def\<close>)
next
  case (2 pmm)
  show ?case by (simp add: pmm_frames_def pmm_addrs_def zone_addrs_finite split: option.split)
next
  case (3 pmm)
  then obtain zones where pmm: "pmm = Some zones" "zones_ok zones" by (cases pmm) (auto simp: pmm_ok_def)
  with 3 obtain r pmm' ev where serve: "allocate_frame_proxy X dbg (Some zones) = Inr (r, pmm', ev)"
    using allocate_frame_proxy_serves [of X zones dbg] by (auto simp: pmm_frames_def)
  show ?case
    by (rule allocate_frame_proxy_takes [OF _ pmm(2) serve])
      (use 3 serve in \<open>auto simp: pmm pmm_frames_def\<close>)
qed


lemma sample_pmm_ok: "pmm_ok (Some [new_zone 0x1000 3])"
  using sample_zones by (simp add: pmm_ok_def zones_ok_def)


subsection \<open>Mapping the \<^verbatim>\<open>PageInfo\<close> array\<close>

abbreviation info_addr :: "phys_frame \<Rightarrow> virt_addr" where
  "info_addr f \<equiv> PAGE_INFO_OFFSET + f div PAGE_SIZE * 16"

lemma info_addr_eq:
  assumes "x86_64_laws X" "unat f < 2 ^ 52"
  shows "phys_to_page_info dbg f = Inr (info_addr f)" "virt_addr_new X (info_addr f) = Inr (info_addr f)"
proof -
  have "canonical (info_addr f)" unfolding canonical_def phys_to_page_info_eq(2) [OF assms(2)] by simp
  then show "virt_addr_new X (info_addr f) = Inr (info_addr f)" by (rule virt_addr_new_eq [OF assms(1)])
qed (rule phys_to_page_info_eq(1) [OF assms(2)])

text \<open>
  What mapping the array may do to the memory map and the page tables: frames only leave the map,
  no translation is lost, and what is newly mapped is backed by frames that have left the map.
\<close>

definition info_step :: "('pt, MemoryMap) paging \<Rightarrow> MemoryMap \<Rightarrow> 'pt \<Rightarrow> MemoryMap \<Rightarrow> 'pt \<Rightarrow> bool" where
  "info_step PT bump pt bump' pt' \<longleftrightarrow> mm_ok bump' \<and> pt_clean PT pt' \<and> mm_frames bump' \<subseteq> mm_frames bump
     \<and> (\<forall>m t. roomy m t bump \<longrightarrow> roomy m t bump')
     \<and> (\<forall>v p. translate_addr PT pt v = Some p \<longrightarrow> translate_addr PT pt' v = Some p)
     \<and> (\<forall>v p. translate_addr PT pt v = None \<and> translate_addr PT pt' v = Some p \<longrightarrow>
          round_down (unat p) 4096 \<in> mm_frames bump - mm_frames bump')"

lemma info_step_refl: "mm_ok bump \<Longrightarrow> pt_clean PT pt \<Longrightarrow> info_step PT bump pt bump pt"
  by (auto simp: info_step_def)

lemma info_step_trans:
  assumes "info_step PT b pt b1 pt1" "info_step PT b1 pt1 b2 pt2"
  shows "info_step PT b pt b2 pt2"
proof -
  have "round_down (unat p) 4096 \<in> mm_frames b - mm_frames b2"
    if "translate_addr PT pt v = None" "translate_addr PT pt2 v = Some p" for v p
    using that assms unfolding info_step_def by (cases "translate_addr PT pt1 v") fastforce+
  with assms show ?thesis unfolding info_step_def by blast
qed

lemma info_step_mapped:
  "info_step PT b pt b' pt' \<Longrightarrow> translate_addr PT pt v \<noteq> None \<Longrightarrow> translate_addr PT pt' v \<noteq> None"
  unfolding info_step_def by blast

lemma page_offset_in_frame:
  assumes "paging_laws PT" "4096 dvd unat f" "unat f < 2 ^ 47"
  shows "round_down (unat (f + (v - page_containing PT v))) 4096 = unat f"
proof -
  have "unat (v - page_containing PT v) = unat v mod 4096"
  proof -
    have "unat (page_containing PT v) = round_down (unat v) 4096"
      using round_down_le [of "unat v" 4096] unsigned_less [of v, where 'a = nat]
      by (simp add: page_containing_eq [OF assms(1)] unat_of_nat take_bit_nat_eq_self)
    then show ?thesis
      using round_down_le [of "unat v" 4096]
      by (simp add: unat_minus_no_wrap word_le_nat_alt round_down_def minus_div_mult_eq_mod)
  qed
  moreover have "unat v mod 4096 < 4096" by simp
  ultimately have "unat (f + (v - page_containing PT v)) = unat f + unat v mod 4096"
    using assms(3) by (subst unat_add_no_wrap) simp_all
  with assms(2) show ?thesis by (auto simp: round_down_def elim!: dvdE)
qed

lemma mm_frames_frame: "mm_ok mm \<Longrightarrow> n \<in> mm_frames mm \<Longrightarrow> 4096 dvd n \<and> n < 2 ^ 47"
  by (auto simp: mm_ok_def mm_frames_def frames_of_def region_ok_def list_all_iff less_mult_imp_div_less
      dest!: bspec)

lemma or_and_absorb: "(a OR b OR c) AND a = a" for a b c :: "'a :: len word"
  by (rule bit_word_eqI) (auto simp: bit_and_iff bit_or_iff)

lemma map_to_effect_info_step:
  assumes PT: "paging_laws PT" and f: "mm_ok bump" "unat f \<in> mm_frames bump"
    and b: "mm_ok b2" "mm_frames b2 \<subseteq> mm_frames bump - {unat f}" "\<And>m t. roomy m t bump \<Longrightarrow> roomy m t b2" "pt_clean PT pt'"
    and eff: "map_to_effect PT (page_containing PT va) f al pt b1 pt' b2"
  shows "info_step PT bump pt b2 pt'"
    and "\<And>v. page_containing PT v = page_containing PT va \<Longrightarrow> translate_addr PT pt' v \<noteq> None"
proof -
  have tr: "if page_containing PT v = page_containing PT va
      then translate_addr PT pt v = None \<and> translate_addr PT pt' v = Some (f + (v - page_containing PT v))
      else translate_addr PT pt' v = translate_addr PT pt v" for v
    using eff [unfolded map_to_effect_def, THEN conjunct1, rule_format, of v]
    by (simp add: translate_addr_def split: if_splits)
  then show "translate_addr PT pt' v \<noteq> None" if "page_containing PT v = page_containing PT va" for v
    using that by (simp add: split: if_splits)
  have "round_down (unat p) 4096 \<in> mm_frames bump - mm_frames b2"
    if "translate_addr PT pt v = None" "translate_addr PT pt' v = Some p" for v p
  proof -
    have "p = f + (v - page_containing PT v)" using that tr [of v] by (simp split: if_splits)
    then show ?thesis
      using page_offset_in_frame [OF PT, of f v] mm_frames_frame [OF f] f(2) b(2) by auto
  qed
  moreover have "translate_addr PT pt' v = Some p" if "translate_addr PT pt v = Some p" for v p
    using that tr [of v] by (simp split: if_splits)
  ultimately show "info_step PT bump pt b2 pt'" unfolding info_step_def using b by blast
qed

lemma allocate_frame_serves:
  assumes "x86_64_laws X" "arrayvec_laws MAX_REGIONS A" "mm_ok bump" "page_count (regions bump) \<noteq> 0"
  obtains f b1 ev where "allocate_frame X A dbg bump = Inr (Some f, b1, ev)" "mm_ok b1" "unat f \<in> mm_frames bump"
    "mm_frames b1 = mm_frames bump - {unat f}" "page_count (regions bump) = Suc (page_count (regions b1))"
proof -
  have inv: "x86_64_laws X \<and> arrayvec_laws MAX_REGIONS A \<and> mm_ok bump" using assms by simp
  have "mm_frames bump \<noteq> {}" using mm_frames_card [OF assms(3)] assms(4) by auto
  then obtain f b1 ev where f: "allocate_frame X A dbg bump = Inr (Some f, b1, ev)" "mm_frames b1 = mm_frames bump - {unat f}"
    using mm_alloc.alloc_serves [OF inv] by blast
  have f': "mm_ok b1" "unat f \<in> mm_frames bump" using mm_alloc.alloc_takes [OF inv f(1)] by auto
  have "page_count (regions bump) = Suc (page_count (regions b1))"
    using card.remove [OF mm_frames_card(1) [OF assms(3)] f'(2)]
    by (simp only: f(2) [symmetric] mm_frames_card(2) [OF assms(3)] mm_frames_card(2) [OF f'(1)])
  with f f' that show ?thesis by blast
qed

lemma map_page_info_unmapped:
  assumes "x86_64_laws X" "arrayvec_laws MAX_REGIONS A" "paging_laws PT" "mm_ok bump" "pt_clean PT pt"
    and "unat page < 2 ^ 52" "translate_addr PT pt (info_addr page) = None" "4 \<le> page_count (regions bump)"
  obtains bump' pt' ev where "map_page_info PT X A dbg page bump pt = Inr (bump', pt', ev)"
    "info_step PT bump pt bump' pt'" "page_count (regions bump) \<le> page_count (regions bump') + 4"
    "\<And>v. page_containing PT v = page_containing PT (info_addr page) \<Longrightarrow> translate_addr PT pt' v \<noteq> None"
proof -
  let ?al = "allocate_frame X A dbg" and ?flags = "FLAG_PRESENT PT OR FLAG_WRITABLE PT OR FLAG_GLOBAL PT"
  obtain f b1 ev where f: "?al bump = Inr (Some f, b1, ev)" "mm_ok b1" "unat f \<in> mm_frames bump"
    "mm_frames b1 = mm_frames bump - {unat f}" "page_count (regions bump) = Suc (page_count (regions b1))"
    by (rule allocate_frame_serves [OF assms(1,2,4), of dbg]) (use assms(8) in auto)
  have inv1: "x86_64_laws X \<and> arrayvec_laws MAX_REGIONS A \<and> mm_ok b1" using assms f(2) by simp
  obtain fs3 s3 where "alloc_many ?al 3 b1 = Inr (fs3, s3)"
    using alloc_many_returns [OF assms(1,2) f(2), of 3 dbg] assms(8) f(5) by auto
  from map_to_returns [OF assms(3,5) assms(7) [unfolded translate_addr_def] this, of f ?flags]
  obtain pt' b2 ev' where mapped:
    "pt_map_to PT pt (page_containing PT (info_addr page)) f ?flags ?al b1 = Inr (Inr (), pt', b2, ev')" .
  have eff: "map_to_effect PT (page_containing PT (info_addr page)) f ?al pt b1 pt' b2" and clean: "pt_clean PT pt'"
    using map_to_Ok [OF assms(3) mapped] assms(5) by (simp_all add: or_and_absorb)
  then obtain n fs where n: "n \<le> 3" "alloc_many ?al n b1 = Inr (fs, b2)" unfolding map_to_effect_def by blast
  have took: "mm_ok b2" "mm_frames b2 \<subseteq> mm_frames bump - {unat f}" using mm_alloc.many_takes [OF inv1 n(2)] f(4) by auto
  have room: "roomy m t b2" if "roomy m t bump" for m t
    using mm_roomy.many_takes [of X A b1 m t dbg n fs b2] inv1 n(2) allocate_frame_roomy [OF assms(1,2,4) that f(1)] by blast
  note step = map_to_effect_info_step [OF assms(3,4) f(3) took room clean eff]
  have "4096 dvd unat f" using mm_frames_frame [OF assms(4) f(3)] by simp
  then have "map_page_info PT X A dbg page bump pt = Inr (b2, pt', ev @ ev')"
    using assms(7) f(1) mapped containing_address_aligned [OF assms(1)]
    by (simp add: map_page_info_def info_addr_eq [OF assms(1,6)] map_to_with_allocator_def expect_some_def)
  moreover have "page_count (regions bump) \<le> page_count (regions b2) + 4"
    using alloc_many_returns [OF assms(1,2) f(2), of n dbg] n f(5) assms(8) by auto
  ultimately show ?thesis using that step by blast
qed

text \<open>The pages of the array that mapping it for a list of frames has to add.\<close>

definition info_pages :: "('pt, MemoryMap) paging \<Rightarrow> 'pt \<Rightarrow> phys_frame list \<Rightarrow> virt_addr set" where
  "info_pages PT pt frames =
     page_containing PT ` {v \<in> info_addr ` set frames. translate_addr PT pt v = None}"

lemma info_pages_finite: "finite (info_pages PT pt frames)"
  by (simp add: info_pages_def)

lemma map_page_infos_Inr:
  assumes "x86_64_laws X" "arrayvec_laws MAX_REGIONS A" "paging_laws PT"
    and "mm_ok bump" "pt_clean PT pt" "list_all (\<lambda>f. unat f < 2 ^ 52) frames"
    and "4 * card (info_pages PT pt frames) \<le> page_count (regions bump)"
  shows "\<exists>bump' pt' ev. map_page_infos PT X A dbg frames bump pt = Inr (bump', pt', ev)
    \<and> info_step PT bump pt bump' pt' \<and> list_all (\<lambda>f. translate_addr PT pt' (info_addr f) \<noteq> None) frames
    \<and> page_count (regions bump) \<le> page_count (regions bump') + 4 * card (info_pages PT pt frames)"
  using assms(4-)
proof (induction frames arbitrary: bump pt)
  case (Cons page frames)
  let ?U = "info_pages PT pt (page # frames)"
  have "\<exists>bump1 pt1 ev. map_page_info PT X A dbg page bump pt = Inr (bump1, pt1, ev) \<and> info_step PT bump pt bump1 pt1
      \<and> translate_addr PT pt1 (info_addr page) \<noteq> None
      \<and> 4 * card (info_pages PT pt1 frames) \<le> page_count (regions bump1)
      \<and> page_count (regions bump) + 4 * card (info_pages PT pt1 frames) \<le> page_count (regions bump1) + 4 * card ?U"
  proof (cases "translate_addr PT pt (info_addr page)")
    case None
    then have page: "page_containing PT (info_addr page) \<in> ?U" by (simp add: info_pages_def)
    then have U: "card ?U = Suc (card (?U - {page_containing PT (info_addr page)}))"
      by (rule card.remove [OF info_pages_finite])
    show ?thesis
    proof (rule map_page_info_unmapped [OF assms(1-3) Cons.prems(1,2) _ None, of dbg])
      fix bump1 pt1 ev
      assume step: "map_page_info PT X A dbg page bump pt = Inr (bump1, pt1, ev)" "info_step PT bump pt bump1 pt1"
        "page_count (regions bump) \<le> page_count (regions bump1) + 4"
        "\<And>v. page_containing PT v = page_containing PT (info_addr page) \<Longrightarrow> translate_addr PT pt1 v \<noteq> None"
      have "info_pages PT pt1 frames \<subseteq> ?U - {page_containing PT (info_addr page)}"
        unfolding info_pages_def using step(4) info_step_mapped [OF step(2)] by fastforce
      then have "card (info_pages PT pt1 frames) \<le> card (?U - {page_containing PT (info_addr page)})"
        by (intro card_mono) (simp_all add: info_pages_finite)
      with step U Cons.prems(4) show ?thesis by auto
    qed (use Cons.prems U in auto)
  next
    case (Some p)
    have "?U = info_pages PT pt frames" using Some by (auto simp: info_pages_def)
    with Some Cons.prems info_step_refl show ?thesis by (auto simp: map_page_info_def info_addr_eq [OF assms(1)])
  qed
  then obtain bump1 pt1 ev where one: "map_page_info PT X A dbg page bump pt = Inr (bump1, pt1, ev)"
    "info_step PT bump pt bump1 pt1" "translate_addr PT pt1 (info_addr page) \<noteq> None"
    "4 * card (info_pages PT pt1 frames) \<le> page_count (regions bump1)"
    "page_count (regions bump) + 4 * card (info_pages PT pt1 frames) \<le> page_count (regions bump1) + 4 * card ?U" by blast
  moreover from this(2) have "mm_ok bump1" "pt_clean PT pt1" by (simp_all add: info_step_def)
  ultimately obtain bump2 pt2 ev2 where "map_page_infos PT X A dbg frames bump1 pt1 = Inr (bump2, pt2, ev2)"
    "info_step PT bump1 pt1 bump2 pt2" "list_all (\<lambda>f. translate_addr PT pt2 (info_addr f) \<noteq> None) frames"
    "page_count (regions bump1) \<le> page_count (regions bump2) + 4 * card (info_pages PT pt1 frames)"
    using Cons.IH [of bump1 pt1] Cons.prems(3) by auto
  with one show ?case using info_step_trans [OF one(2)] info_step_mapped by fastforce
qed (use info_step_refl in auto)

text \<open>The frames of a region and, because of \<^verbatim>\<open>range_inclusive\<close>, the one after its end.\<close>

definition info_frames :: "Region \<Rightarrow> phys_frame list" where
  "info_frames rg = map (\<lambda>i. reg_addr rg + 4096 * of_nat i) [0..<unat (reg_size rg) div 4096 + 1]"

lemma region_frames_eq:
  assumes "x86_64_laws X" "region_ok rg"
  shows "region_frames X rg = Inr (info_frames rg)"
proof -
  let ?a = "reg_addr rg" and ?s = "reg_size rg"
  have a: "4096 dvd unat ?a" "unat ?a + unat ?s < 2 ^ 47" using assms(2) by (simp_all add: region_ok_def)
  have sum: "unat (?a + ?s) = unat ?a + unat ?s" using a(2) by (intro unat_add_no_wrap) simp
  have e: "unat (containing_address X (?a + ?s)) = unat ?a + unat ?s div 4096 * 4096"
  proof -
    have "round_down (unat ?a + unat ?s) 4096 = unat ?a + unat ?s div 4096 * 4096"
      using a(1) by (auto simp: round_down_def elim!: dvdE)
    moreover have "unat ?s div 4096 * 4096 \<le> unat ?s" by simp
    ultimately show ?thesis
      unfolding containing_address_eq [OF assms(1)] sum using a(2) by (subst unat_of_nat_small) simp_all
  qed
  then have "?a \<le> containing_address X (?a + ?s)"
    "unat (containing_address X (?a + ?s) - ?a) div 4096 = unat ?s div 4096"
    by (simp_all add: word_le_nat_alt unat_minus_no_wrap)
  then show ?thesis
    using a phys_addr_add_eq [OF assms(1), of ?a ?s] containing_address_aligned [OF assms(1) a(1)]
    by (simp add: region_frames_def Let_def range_inclusive_def info_frames_def)
qed

lemma info_frames_small: "region_ok rg \<Longrightarrow> list_all (\<lambda>f. unat f < 2 ^ 52) (info_frames rg)"
proof (unfold info_frames_def list_all_iff set_map, rule ballI)
  fix f
  assume "region_ok rg" "f \<in> (\<lambda>i. reg_addr rg + 4096 * of_nat i) ` set [0..<unat (reg_size rg) div 4096 + 1]"
  then obtain i where f: "f = reg_addr rg + 4096 * of_nat i" and i: "4096 * i \<le> unat (reg_size rg)"
    and rg: "unat (reg_addr rg) + unat (reg_size rg) < 2 ^ 47"
    by (fastforce simp: region_ok_def less_Suc_eq_le less_eq_div_iff_mult_less_eq mult.commute)
  have "unat (4096 * of_nat i :: u64) = 4096 * i"
    using i rg unat_of_nat_small [of "4096 * i", where 'a = 64] by simp
  then have "unat f = unat (reg_addr rg) + 4096 * i" unfolding f using i rg by (subst unat_add_no_wrap) simp_all
  with i rg show "unat f < 2 ^ 52" by simp
qed

lemma map_page_infos_append:
  "map_page_infos PT X A dbg (fs @ gs) bump pt =
     bind_res (map_page_infos PT X A dbg fs bump pt) (\<lambda>(bump1, pt1, ev1).
     bind_res (map_page_infos PT X A dbg gs bump1 pt1) (\<lambda>(bump2, pt2, ev2). Inr (bump2, pt2, ev1 @ ev2)))"
proof (induction fs arbitrary: bump pt)
  case Nil
  show ?case by (cases "map_page_infos PT X A dbg gs bump pt") auto
next
  case (Cons f fs)
  show ?case
    by (cases "map_page_info PT X A dbg f bump pt")
      (auto simp: Cons bind_res_def split: sum.splits prod.splits)
qed

lemma map_region_infos_eq:
  assumes "x86_64_laws X" "list_all region_ok rgs"
  shows "map_region_infos PT X A dbg rgs bump pt = map_page_infos PT X A dbg (concat (map info_frames rgs)) bump pt"
  using assms(2) by (induction rgs arbitrary: bump pt) (simp_all add: region_frames_eq [OF assms(1)] map_page_infos_append)

lemma frames_of_info_frames: "region_ok rg \<Longrightarrow> n \<in> frames_of rg \<Longrightarrow> of_nat n \<in> set (info_frames rg)"
  by (fastforce simp: frames_of_def info_frames_def)

lemma memory_map_new_Inr:
  assumes "x86_64_laws X" "arrayvec_laws MAX_REGIONS A" "paging_laws PT" "pt_clean PT pt"
    and "list_all boot_region_ok (filter is_usable memory_map)" "filter is_usable memory_map \<noteq> []"
    and "sorted_wrt (\<lambda>r s. frames_of (region_of r) \<inter> frames_of (region_of s) = {}) (filter is_usable memory_map)"
    and "length (filter is_usable memory_map) \<le> MAX_REGIONS"
    and "rgs = map region_of (filter is_usable memory_map)"
    and "4 * card (info_pages PT pt (concat (map info_frames rgs))) \<le> page_count rgs"
  shows "\<exists>mm pt' ev. memory_map_new PT X A dbg memory_map pt = Inr (mm, pt', ev)
    \<and> mm_ok mm \<and> mm_frames mm \<subseteq> (\<Union>rg \<in> set rgs. frames_of rg)
    \<and> (\<forall>rg \<in> set rgs. \<forall>n \<in> frames_of rg. \<exists>va. phys_to_page_info dbg (of_nat n) = Inr va \<and> translate_addr PT pt' va \<noteq> None)
    \<and> (\<forall>v p. translate_addr PT pt v = Some p \<longrightarrow> translate_addr PT pt' v = Some p)
    \<and> (\<forall>v p. translate_addr PT pt v = None \<and> translate_addr PT pt' v = Some p \<longrightarrow>
         round_down (unat p) 4096 \<in> (\<Union>rg \<in> set rgs. frames_of rg) - mm_frames mm)
    \<and> (\<forall>m t. roomy m t \<lparr>regions = rgs, num_pages = of_nat (page_count rgs)\<rparr> \<longrightarrow> roomy m t mm)
    \<and> page_count rgs \<le> page_count (regions mm) + 4 * card (info_pages PT pt (concat (map info_frames rgs)))"
proof -
  let ?fs = "concat (map info_frames rgs)"
  obtain bump where bump: "memory_map_regions X A dbg memory_map = Inr bump" "mm_ok bump" "regions bump = rgs"
    using memory_map_regions_eq [OF assms(1,2,5,7,8), of dbg] assms(6,9) by auto
  have ok: "list_all region_ok rgs" using bump(2,3) by (simp add: mm_ok_def)
  have small: "list_all (\<lambda>f. unat f < 2 ^ 52) ?fs" using ok info_frames_small by (fastforce simp: list_all_iff)
  from map_page_infos_Inr [OF assms(1-3) bump(2) assms(4) small, of dbg] assms(10) bump(3)
  obtain mm pt' ev where run: "map_page_infos PT X A dbg ?fs bump pt = Inr (mm, pt', ev)" "info_step PT bump pt mm pt'"
    and count: "page_count (regions bump) \<le> page_count (regions mm) + 4 * card (info_pages PT pt ?fs)"
    and all: "list_all (\<lambda>f. translate_addr PT pt' (info_addr f) \<noteq> None) ?fs" by auto
  have "memory_map_new PT X A dbg memory_map pt = Inr (mm, pt', ev)"
    using run(1) by (simp add: memory_map_new_def bump map_region_infos_eq [OF assms(1) ok])
  moreover have "\<exists>va. phys_to_page_info dbg (of_nat n) = Inr va \<and> translate_addr PT pt' va \<noteq> None"
    if "rg \<in> set rgs" "n \<in> frames_of rg" for rg n
  proof -
    have "of_nat n \<in> set ?fs" using that ok frames_of_info_frames by (fastforce simp: list_all_iff)
    then have "unat (of_nat n :: phys_frame) < 2 ^ 52" "translate_addr PT pt' (info_addr (of_nat n)) \<noteq> None"
      using small all by (auto simp: list_all_iff)
    then show ?thesis using info_addr_eq(1) [OF assms(1)] by blast
  qed
  moreover have "roomy m t bump" if "roomy m t \<lparr>regions = rgs, num_pages = of_nat (page_count rgs)\<rparr>" for m t
    using that bump(3) by (simp add: roomy_def)
  ultimately show ?thesis using run(2) bump(3) count unfolding info_step_def mm_frames_def [of bump] by blast
qed

text \<open>
  \<^verbatim>\<open>MemoryMap::new\<close>. Suppose the bootloader reports usable regions as in the lemma on its first half,
  and they have four pages for each page of the \<^verbatim>\<open>PageInfo\<close> array that has to be added. Then \<^verbatim>\<open>new\<close> returns, in
  either build profile; the map it returns is well-formed and has only frames of these regions; every frame of every
  usable region has its \<^verbatim>\<open>PageInfo\<close> slot mapped; no earlier translation is lost; and everything newly mapped
  lies in frames that the map will not hand out any more.
\<close>

lemma memory_map_new_page_infos:
  assumes "x86_64_laws X" "arrayvec_laws MAX_REGIONS A" "paging_laws PT" "pt_clean PT pt"
    and "list_all boot_region_ok (filter is_usable memory_map)" "filter is_usable memory_map \<noteq> []"
    and "sorted_wrt (\<lambda>r s. frames_of (region_of r) \<inter> frames_of (region_of s) = {}) (filter is_usable memory_map)"
    and "length (filter is_usable memory_map) \<le> MAX_REGIONS"
    and "rgs = map region_of (filter is_usable memory_map)"
    and "4 * card (info_pages PT pt (concat (map info_frames rgs))) \<le> page_count rgs"
  shows "\<exists>mm pt' ev. memory_map_new PT X A dbg memory_map pt = Inr (mm, pt', ev)
    \<and> mm_ok mm \<and> mm_frames mm \<subseteq> (\<Union>rg \<in> set rgs. frames_of rg)
    \<and> (\<forall>rg \<in> set rgs. \<forall>n \<in> frames_of rg. \<exists>va. phys_to_page_info dbg (of_nat n) = Inr va \<and> translate_addr PT pt' va \<noteq> None)
    \<and> (\<forall>v p. translate_addr PT pt v = Some p \<longrightarrow> translate_addr PT pt' v = Some p)
    \<and> (\<forall>v p. translate_addr PT pt v = None \<and> translate_addr PT pt' v = Some p \<longrightarrow>
         round_down (unat p) 4096 \<in> (\<Union>rg \<in> set rgs. frames_of rg) - mm_frames mm)"
  using memory_map_new_Inr [OF assms, of dbg] by blast

definition sample_boot_8 :: "MemoryRegion list" where
  "sample_boot_8 = [\<lparr>start_addr = 0x1000, end_addr = 0x9000, region_type = Usable\<rparr>]"

abbreviation sample_region_8 :: Region where
  "sample_region_8 \<equiv> \<lparr>reg_addr = 0x1000, reg_size = 0x8000\<rparr>"

lemma sample_info_pages: "info_pages paging_ref Map.empty (info_frames sample_region_8) \<subseteq> {PAGE_INFO_OFFSET}"
proof -
  have "[0..<unat (reg_size sample_region_8) div 4096 + 1] = [0, 1, 2, 3, 4, 5, 6, 7, 8]" by (simp add: upt_rec)
  then have "set (info_frames sample_region_8)
      = {0x1000, 0x2000, 0x3000, 0x4000, 0x5000, 0x6000, 0x7000, 0x8000, 0x9000}"
    unfolding info_frames_def by simp
  then show ?thesis
    by (auto simp: info_pages_def paging_ref_def PAGE_INFO_OFFSET_def PAGE_SIZE_def round_down_def)
qed

lemma sample_boot_8_ok:
  "filter is_usable sample_boot_8 = sample_boot_8" "map region_of sample_boot_8 = [sample_region_8]"
  "list_all boot_region_ok sample_boot_8" "length sample_boot_8 \<le> MAX_REGIONS" "sample_boot_8 \<noteq> []"
  "sorted_wrt (\<lambda>r s. frames_of (region_of r) \<inter> frames_of (region_of s) = {}) sample_boot_8"
  by (simp_all add: sample_boot_8_def is_usable_def boot_region_ok_def region_of_def MAX_REGIONS_def)

lemma memory_map_new_page_infos_witness:
  "\<exists>mm pt' ev va. memory_map_new paging_ref x86_64_ref (arrayvec_ref MAX_REGIONS) True sample_boot_8 Map.empty = Inr (mm, pt', ev)
    \<and> mm_ok mm \<and> phys_to_page_info True 0x3000 = Inr va
    \<and> translate_addr (paging_ref :: (_, MemoryMap) paging) pt' va \<noteq> None"
proof -
  note ok = sample_boot_8_ok
  have "card (info_pages paging_ref Map.empty (info_frames sample_region_8)) \<le> card {PAGE_INFO_OFFSET}"
    by (rule card_mono [OF _ sample_info_pages]) simp
  then have room: "4 * card (info_pages paging_ref Map.empty (concat (map info_frames [sample_region_8])))
      \<le> page_count [sample_region_8]" by (simp add: page_count_def)
  have "0x3000 \<in> frames_of sample_region_8" unfolding frames_of_def by (rule image_eqI [of _ _ 2]) simp_all
  moreover have "pt_clean paging_ref Map.empty" by (simp add: paging_ref_def)
  note res = memory_map_new_page_infos [OF x86_64_laws_ref arrayvec_laws_ref paging_laws_ref this,
      of sample_boot_8, unfolded ok(1,2), OF ok(3,5,6,4) refl room, of True]
  ultimately show ?thesis by fastforce
qed

end
