(* ===== verification/Boot_Memory.thy ===== *)
theory Boot_Memory
  imports Addr_Space
begin

text \<open>
  How the memory components fit together at boot (\<^verbatim>\<open>kernel_main\<close>, \<^verbatim>\<open>src/src/kernel.rs\<close>): \<^verbatim>\<open>MemoryMap::new\<close> maps the \<^verbatim>\<open>PageInfo\<close> array
  with frames of the map, and \<^verbatim>\<open>PhysAllocator::init\<close> makes zones of what is left. The condition on the memory that the
  bootloader reports is enough for both, and the frames of the first never reach the second.
\<close>

definition boot_memory ::
  "('pt, MemoryMap) paging \<Rightarrow> x86_64 \<Rightarrow> Region arrayvec \<Rightarrow> Zone arrayvec \<Rightarrow> bool \<Rightarrow> MemoryRegion list \<Rightarrow> 'pt \<Rightarrow>
    (pmm \<times> 'pt \<times> mem_event list) res" where
  "boot_memory PT X A AZ dbg memory_map pt =
     bind_res (memory_map_new PT X A dbg memory_map pt) (\<lambda>(mm, pt', ev).
     bind_res (pmm_init X A AZ dbg mm) (\<lambda>(pmm, ev').
     Inr (pmm, pt', ev @ ev')))"

lemma new_zone_extent:
  assumes "region_fits rg" "1 < zone_pages_of rg" "x \<in> zone_extent (new_zone (zone_start_of rg) (zone_pages_of rg))"
  shows "round_down x 4096 \<in> frames_of rg"
proof -
  let ?t = "unat (reg_size rg) div 4096" and ?a = "unat (reg_addr rg)" and ?n = "zone_pages_of rg"
  note geo = zone_geometry [OF assms(1,2)]
  have x: "?a + 4096 * (?t - ?n) \<le> x" "x < ?a + 4096 * (?t - ?n) + 4096 * ?n"
    using assms(3) geo(4) new_zone_ok(2) [OF geo(6)] by (simp_all add: zone_extent_def new_zone_def)
  have bound: "x < ?a + 4096 * ?t" using x(2) geo(1) by (simp add: algebra_simps)
  define y where "y = x - ?a"
  have y: "x = ?a + y" "y < 4096 * ?t" using x(1) bound by (simp_all add: y_def)
  obtain q where q: "?a = 4096 * q" using assms(1) by (auto simp: region_fits_def)
  have "round_down x 4096 = ?a + 4096 * (y div 4096)"
    unfolding y(1) q round_down_def by (simp add: div_mult_self4 algebra_simps)
  moreover have "y div 4096 < ?t" using y(2) by (simp add: div_less_iff_less_mult mult.commute)
  ultimately show ?thesis unfolding frames_of_def by blast
qed

lemma zones_of_ok:
  assumes "list_all region_fits rgs" "sorted_wrt (\<lambda>r s. frames_of r \<inter> frames_of s = {}) rgs"
  shows "zones_ok (zones_of rgs) \<and> pmm_addrs (zones_of rgs) \<subseteq> (\<Union>rg \<in> set rgs. frames_of rg)
    \<and> (\<forall>z \<in> set (zones_of rgs). \<forall>x \<in> zone_extent z. \<exists>rg \<in> set rgs. round_down x 4096 \<in> frames_of rg)"
  using assms
proof (induction rgs)
  case Nil
  then show ?case by (simp add: zones_of_def zones_ok_def pmm_addrs_def)
next
  case (Cons rg rgs)
  then have IH: "zones_ok (zones_of rgs)" "pmm_addrs (zones_of rgs) \<subseteq> (\<Union>rg \<in> set rgs. frames_of rg)"
    "\<And>z x. z \<in> set (zones_of rgs) \<Longrightarrow> x \<in> zone_extent z \<Longrightarrow> \<exists>rg \<in> set rgs. round_down x 4096 \<in> frames_of rg"
    and fits: "region_fits rg" and apart: "\<And>s. s \<in> set rgs \<Longrightarrow> frames_of rg \<inter> frames_of s = {}" by auto
  show ?case
  proof (cases "1 < zone_pages_of rg")
    case True
    let ?z = "new_zone (zone_start_of rg) (zone_pages_of rg)"
    have zs: "zones_of (rg # rgs) = ?z # zones_of rgs" using True by (simp add: zones_of_def)
    note ext = new_zone_extent [OF fits True]
    have "zone_extent ?z \<inter> zone_extent w = {}" if "w \<in> set (zones_of rgs)" for w
      using ext IH(3) [OF that] apart by blast
    moreover have "zone_ok (zone_blocks ?z) ?z" using new_zone_in_region [OF fits True] unfolding zone_in_region_def by blast
    ultimately have "zones_ok (zones_of (rg # rgs))" using IH(1) unfolding zs by (simp add: zones_ok_def)
    moreover have "zone_addrs ?z \<subseteq> frames_of rg"
    proof
      fix x
      assume x: "x \<in> zone_addrs ?z"
      have "4096 dvd unat (range_start (pages ?z))"
        using zone_geometry(6) [OF fits True] by (simp add: zone_place_ok_def new_zone_def)
      then have "round_down x 4096 = x" using x by (intro round_down_id) (auto simp: zone_addrs_def)
      with ext [of x] x zone_addrs_sub [of ?z] show "x \<in> frames_of rg" by auto
    qed
    ultimately show ?thesis using IH(2,3) ext unfolding zs pmm_addrs_Cons by auto
  next
    case False
    then have "zones_of (rg # rgs) = zones_of rgs" by (simp add: zones_of_def)
    with IH show ?thesis by auto
  qed
qed

lemma roomy_fits:
  assumes "mm_ok mm" "roomy (4 + n) t mm" "t \<le> page_count (regions mm) + n"
  shows "list_all region_fits (regions mm)" "length (regions mm) \<le> MAX_ZONES"
proof -
  have "4 * 4096 \<le> unat (reg_size rg)" if "rg \<in> set (regions mm)" for rg
  proof -
    have "4 \<le> unat (reg_size rg) div 4096" using assms(2,3) that by (fastforce simp: roomy_def)
    then show ?thesis by (simp add: less_eq_div_iff_mult_less_eq)
  qed
  with assms show "list_all region_fits (regions mm)"
    by (auto simp: list_all_iff region_fits_def mm_ok_def region_ok_def roomy_def)
  show "length (regions mm) \<le> MAX_ZONES" using assms(2) by (simp add: roomy_def MAX_REGIONS_def MAX_ZONES_def)
qed

lemma boot_memory_Inr:
  assumes "x86_64_laws X" "arrayvec_laws MAX_REGIONS A" "arrayvec_laws MAX_ZONES AZ" "paging_laws PT" "pt_clean PT pt"
    and "list_all boot_region_ok (filter is_usable memory_map)" "filter is_usable memory_map \<noteq> []"
    and "sorted_wrt (\<lambda>r s. frames_of (region_of r) \<inter> frames_of (region_of s) = {}) (filter is_usable memory_map)"
    and "length (filter is_usable memory_map) \<le> MAX_REGIONS"
    and "rgs = map region_of (filter is_usable memory_map)"
    and "n = 4 * card (info_pages PT pt (concat (map info_frames rgs)))"
    and "list_all (\<lambda>rg. 4 + n \<le> unat (reg_size rg) div 4096 \<and> unat (reg_addr rg) + unat (reg_size rg) + 2 ^ 23 < 2 ^ 47) rgs"
  obtains mm pt' ev where "boot_memory PT X A AZ dbg memory_map pt = Inr (Some (zones_of (regions mm)), pt', ev)"
    "zones_ok (zones_of (regions mm))" "pmm_addrs (zones_of (regions mm)) \<subseteq> mm_frames mm" "mm_frames mm \<subseteq> (\<Union>rg \<in> set rgs. frames_of rg)"
    "\<forall>rg \<in> set rgs. \<forall>f \<in> frames_of rg. \<exists>va. phys_to_page_info dbg (of_nat f) = Inr va \<and> translate_addr PT pt' va \<noteq> None"
    "\<And>v p. translate_addr PT pt v = None \<Longrightarrow> translate_addr PT pt' v = Some p \<Longrightarrow> round_down (unat p) 4096 \<notin> mm_frames mm"
proof -
  let ?mm = "\<lparr>regions = rgs, num_pages = of_nat (page_count rgs)\<rparr>"
  have "rgs \<noteq> []" using assms(7,10) by simp
  then obtain rg where rg: "rg \<in> set rgs" by (cases rgs) auto
  then have "unat (reg_size rg) div 4096 \<le> page_count rgs"
    unfolding page_count_def by (intro member_le_sum_list) auto
  then have room: "n \<le> page_count rgs" using assms(12) rg by (fastforce simp: list_all_iff)
  obtain mm pt' ev where mm: "memory_map_new PT X A dbg memory_map pt = Inr (mm, pt', ev)" "mm_ok mm"
      "mm_frames mm \<subseteq> (\<Union>rg \<in> set rgs. frames_of rg)"
    and slots: "\<forall>rg \<in> set rgs. \<forall>f \<in> frames_of rg. \<exists>va. phys_to_page_info dbg (of_nat f) = Inr va \<and> translate_addr PT pt' va \<noteq> None"
    and new: "\<And>v p. translate_addr PT pt v = None \<Longrightarrow> translate_addr PT pt' v = Some p \<Longrightarrow> round_down (unat p) 4096 \<notin> mm_frames mm"
    and shrunk: "\<And>m t. roomy m t ?mm \<Longrightarrow> roomy m t mm" "page_count rgs \<le> page_count (regions mm) + n"
    using memory_map_new_Inr [OF assms(1,2,4-10) room [unfolded assms(11)], of dbg] unfolding assms(11) by blast
  have "roomy (4 + n) (page_count rgs) ?mm"
    using assms(9,10,12) by (auto simp: roomy_def list_all_iff)
  note fits = roomy_fits [OF mm(2) shrunk(1) [OF this] shrunk(2)]
  obtain ev' where init: "pmm_init X A AZ dbg mm = Inr (Some (zones_of (regions mm)), ev')"
    using pmm_init_Inr [OF assms(1-3) fits] by blast
  have zones: "zones_ok (zones_of (regions mm))" "pmm_addrs (zones_of (regions mm)) \<subseteq> mm_frames mm"
    using zones_of_ok [OF fits(1)] mm(2) by (auto simp: mm_ok_def mm_frames_def)
  have "boot_memory PT X A AZ dbg memory_map pt = Inr (Some (zones_of (regions mm)), pt', ev @ ev')"
    by (simp add: boot_memory_def mm(1) init)
  from that [OF this zones mm(3) slots new] show ?thesis .
qed


lemma sample_boot_8_room:
  assumes "n = 4 * card (info_pages paging_ref Map.empty (concat (map info_frames [sample_region_8])))"
  shows "list_all (\<lambda>rg. 4 + n \<le> unat (reg_size rg) div 4096 \<and> unat (reg_addr rg) + unat (reg_size rg) + 2 ^ 23 < 2 ^ 47) [sample_region_8]"
proof -
  have "card (info_pages paging_ref Map.empty (info_frames sample_region_8)) \<le> card {PAGE_INFO_OFFSET}"
    by (rule card_mono [OF _ sample_info_pages]) simp
  then show ?thesis using assms by simp
qed


end
