(* ===== verification/Cpu_Tables.thy ===== *)
theory Cpu_Tables
  imports Crates Console
begin

text \<open>
  The descriptor tables of the CPU (\<^verbatim>\<open>cpu/gdt.rs\<close>, \<^verbatim>\<open>cpu/idt.rs\<close>). The table types belong to the \<^verbatim>\<open>x86_64\<close> crate:
  \<open>'g\<close> is its \<^verbatim>\<open>GlobalDescriptorTable\<close>, with the functions of the record \<open>tables_crate\<close> and their documented
  behaviour in \<open>tables_laws\<close>. Loading a table or a segment register is an event. A handler either panics with
  a message or logs and returns.
\<close>

subsection \<open>The crate\<close>

datatype Descriptor = Kernel_Code_Segment | Tss_Segment "virt_addr list"

text \<open>
  \<open>gdt_entry g i\<close> is the descriptor a selector with index \<open>i\<close> refers to, and \<open>gdt_next g\<close> the first free index. A new table
  has the null descriptor only; \<^verbatim>\<open>add_entry\<close> puts a descriptor at the first free index, where a task state segment
  takes two places. A new task state segment has seven empty interrupt stacks.
\<close>

record 'g tables_crate =
  gdt_new :: 'g
  gdt_add_entry :: "'g \<Rightarrow> Descriptor \<Rightarrow> 'g res"
  gdt_entry :: "'g \<Rightarrow> nat \<Rightarrow> Descriptor option"
  gdt_next :: "'g \<Rightarrow> nat"
  tss_new :: "virt_addr list"
  virt_addr_add :: "virt_addr \<Rightarrow> usize \<Rightarrow> virt_addr res"

definition slots :: "Descriptor \<Rightarrow> nat" where
  "slots d = (case d of Kernel_Code_Segment \<Rightarrow> 1 | Tss_Segment ist \<Rightarrow> 2)"

definition tables_laws :: "'g tables_crate \<Rightarrow> bool" where
  "tables_laws K \<longleftrightarrow>
     gdt_next K (gdt_new K) = 1 \<and> (\<forall>i. gdt_entry K (gdt_new K) i = None)
     \<and> (\<forall>g d. gdt_next K g + slots d \<le> 8 \<longrightarrow> (\<exists>g'. gdt_add_entry K g d = Inr g' \<and> gdt_next K g' = gdt_next K g + slots d
          \<and> (\<forall>i. gdt_entry K g' i = (if i = gdt_next K g then Some d else gdt_entry K g i))))
     \<and> length (tss_new K) = 7
     \<and> (\<forall>a n. unat a + unat n < 2 ^ 47 \<or> 2 ^ 64 - 2 ^ 47 \<le> unat a \<and> unat a + unat n < 2 ^ 64 \<longrightarrow> virt_addr_add K a n = Inr (a + n))"

definition tables_ref :: "Descriptor option list tables_crate" where
  "tables_ref = \<lparr>gdt_new = [None],
     gdt_add_entry = (\<lambda>g d. if length g + slots d \<le> 8 then Inr (g @ Some d # replicate (slots d - 1) None) else Inl Crate_Panic),
     gdt_entry = (\<lambda>g i. if i < length g then g ! i else None), gdt_next = length, tss_new = replicate 7 0,
     virt_addr_add = (\<lambda>a n. if canonical (a + n) then Inr (a + n) else Inl Crate_Panic)\<rparr>"

lemma tables_laws_ref: "tables_laws tables_ref"
proof -
  have "canonical (a + n)" if "unat a + unat n < 2 ^ 47 \<or> 2 ^ 64 - 2 ^ 47 \<le> unat a \<and> unat a + unat n < 2 ^ 64" for a n :: u64
    using that by (auto simp: canonical_def unat_add_no_wrap)
  then show ?thesis
    by (auto simp: tables_laws_def tables_ref_def slots_def nth_append nth_Cons split: Descriptor.splits nat.splits)
qed

subsection \<open>The global descriptor table\<close>

definition DOUBLE_FAULT_IST_INDEX :: u16 where
  "DOUBLE_FAULT_IST_INDEX = 0"

definition STACK_SIZE :: usize where
  "STACK_SIZE = 4096"

text \<open>\<open>stack\<close> is the address of the static \<^verbatim>\<open>STACK\<close>.\<close>

definition TSS :: "'g tables_crate \<Rightarrow> x86_64 \<Rightarrow> u64 \<Rightarrow> virt_addr list res" where
  "TSS K X stack =
    bind_res (virt_addr_new X stack) (\<lambda>stack_start.
    bind_res (virt_addr_add K stack_start STACK_SIZE) (\<lambda>stack_end.
      update_res (tss_new K) (unat DOUBLE_FAULT_IST_INDEX) stack_end))"

definition GDT :: "'g tables_crate \<Rightarrow> virt_addr list \<Rightarrow> 'g res" where
  "GDT K tss =
    bind_res (gdt_add_entry K (gdt_new K) Kernel_Code_Segment) (\<lambda>gdt. gdt_add_entry K gdt (Tss_Segment tss))"

datatype seg_reg = CS | DS | ES | FS | GS | SS

datatype exception =
    Divide_Error
  | Debug_Exception
  | Non_Maskable_Interrupt
  | Breakpoint
  | Overflow_Exception
  | Bound_Range_Exceeded
  | Invalid_Opcode
  | Device_Not_Available
  | Double_Fault
  | Invalid_Tss
  | Segment_Not_Present
  | Stack_Segment_Fault
  | General_Protection_Fault
  | Page_Fault
  | X87_Floating_Point
  | Alignment_Check
  | Machine_Check
  | Simd_Floating_Point
  | Virtualization
  | Security_Exception

text \<open>What a handler gets, already formatted: the stack frame, the error code, and the register \<^verbatim>\<open>CR2\<close>.\<close>

record trap =
  tr_frame :: "u8 list"
  tr_error_code :: "u8 list"
  tr_cr2 :: "u8 list"

datatype outcome = Panics Arguments | Logs Level Arguments

record idt_entry =
  ie_handler :: "trap \<Rightarrow> outcome"
  ie_stack_index :: "u16 option"

datatype 'g cpu_event =
    Load_Gdt 'g
  | Load_Seg seg_reg u16
  | Load_Tss u16
  | Load_Idt "(exception \<times> idt_entry) list"
  | Disable_Interrupts
  | Hlt

definition gdt_load :: "'g \<Rightarrow> 'g cpu_event list" where
  "gdt_load gdt =
    (let null_segment = 0; code_segment = 1; tss_segment = 2 in
     [Load_Gdt gdt, Load_Seg DS null_segment, Load_Seg ES 0, Load_Seg FS 0, Load_Seg GS 0, Load_Seg SS 0,
      Load_Seg CS code_segment, Load_Tss tss_segment])"

subsection \<open>The handlers\<close>

definition exception_text :: "string \<Rightarrow> u8 list" where
  "exception_text s = str_bytes (''EXCEPTION: '' @ s)"

definition divide_error_handler :: "trap \<Rightarrow> outcome" where
  "divide_error_handler tr = Panics \<lparr>fmt_pieces = [exception_text ''Zero Division'' @ [0x0A]], fmt_args = [tr_frame tr]\<rparr>"

definition debug_handler :: "trap \<Rightarrow> outcome" where
  "debug_handler tr = Panics \<lparr>fmt_pieces = [exception_text ''Debug'' @ [0x0A]], fmt_args = [tr_frame tr]\<rparr>"

definition non_maskable_interrupt_handler :: "trap \<Rightarrow> outcome" where
  "non_maskable_interrupt_handler tr = Panics \<lparr>fmt_pieces = [exception_text ''Non-Maskable Interrupt'' @ [0x0A]], fmt_args = [tr_frame tr]\<rparr>"

definition breakpoint_handler :: "trap \<Rightarrow> outcome" where
  "breakpoint_handler tr = Logs Level_Trace \<lparr>fmt_pieces = [exception_text ''Breakpoint'' @ [0x0A]], fmt_args = [tr_frame tr]\<rparr>"

definition overflow_handler :: "trap \<Rightarrow> outcome" where
  "overflow_handler tr = Panics \<lparr>fmt_pieces = [exception_text ''Overflow'' @ [0x0A]], fmt_args = [tr_frame tr]\<rparr>"

definition bound_range_exceeded_handler :: "trap \<Rightarrow> outcome" where
  "bound_range_exceeded_handler tr = Panics \<lparr>fmt_pieces = [exception_text ''Bound Range Exceeded'' @ [0x0A]], fmt_args = [tr_frame tr]\<rparr>"

definition invalid_opcode_handler :: "trap \<Rightarrow> outcome" where
  "invalid_opcode_handler tr = Panics \<lparr>fmt_pieces = [exception_text ''Invalid Opcode'' @ [0x0A]], fmt_args = [tr_frame tr]\<rparr>"

definition device_not_available_handler :: "trap \<Rightarrow> outcome" where
  "device_not_available_handler tr = Panics \<lparr>fmt_pieces = [exception_text ''Device Not Available'' @ [0x0A]], fmt_args = [tr_frame tr]\<rparr>"

definition double_fault_handler :: "trap \<Rightarrow> outcome" where
  "double_fault_handler tr = Panics \<lparr>fmt_pieces = [exception_text ''Double Fault with error code '', [0x0A]], fmt_args = [tr_error_code tr, tr_frame tr]\<rparr>"

definition invalid_tss_handler :: "trap \<Rightarrow> outcome" where
  "invalid_tss_handler tr = Panics \<lparr>fmt_pieces = [exception_text ''Invalid TSS with error code '', [0x0A]], fmt_args = [tr_error_code tr, tr_frame tr]\<rparr>"

definition segment_not_present_handler :: "trap \<Rightarrow> outcome" where
  "segment_not_present_handler tr = Panics \<lparr>fmt_pieces = [exception_text ''Segment Not Present with error code '', [0x0A]], fmt_args = [tr_error_code tr, tr_frame tr]\<rparr>"

definition stack_segment_fault_handler :: "trap \<Rightarrow> outcome" where
  "stack_segment_fault_handler tr = Panics \<lparr>fmt_pieces = [exception_text ''Stack Segment Fault with error code '', [0x0A]], fmt_args = [tr_error_code tr, tr_frame tr]\<rparr>"

definition general_protection_fault_handler :: "trap \<Rightarrow> outcome" where
  "general_protection_fault_handler tr = Panics \<lparr>fmt_pieces = [exception_text ''General Protection Fault with error code '', [0x0A]], fmt_args = [tr_error_code tr, tr_frame tr]\<rparr>"

definition page_fault_handler :: "trap \<Rightarrow> outcome" where
  "page_fault_handler tr = Panics \<lparr>fmt_pieces = [exception_text ''Page Fault with error code '', 0x0A # str_bytes ''Address '', [0x0A]],
    fmt_args = [tr_error_code tr, tr_cr2 tr, tr_frame tr]\<rparr>"

definition x87_floating_point_handler :: "trap \<Rightarrow> outcome" where
  "x87_floating_point_handler tr = Panics \<lparr>fmt_pieces = [exception_text ''x87 Floating Point'' @ [0x0A]], fmt_args = [tr_frame tr]\<rparr>"

definition alignment_check_handler :: "trap \<Rightarrow> outcome" where
  "alignment_check_handler tr = Panics \<lparr>fmt_pieces = [exception_text ''Alignment Check with error code '', [0x0A]], fmt_args = [tr_error_code tr, tr_frame tr]\<rparr>"

definition machine_check_handler :: "trap \<Rightarrow> outcome" where
  "machine_check_handler tr = Panics \<lparr>fmt_pieces = [exception_text ''Machine Check'' @ [0x0A]], fmt_args = [tr_frame tr]\<rparr>"

definition simd_floating_point_handler :: "trap \<Rightarrow> outcome" where
  "simd_floating_point_handler tr = Panics \<lparr>fmt_pieces = [exception_text ''SIMD Floating Point'' @ [0x0A]], fmt_args = [tr_frame tr]\<rparr>"

definition virtualization_handler :: "trap \<Rightarrow> outcome" where
  "virtualization_handler tr = Panics \<lparr>fmt_pieces = [exception_text ''Virtualization'' @ [0x0A]], fmt_args = [tr_frame tr]\<rparr>"

definition security_exception_handler :: "trap \<Rightarrow> outcome" where
  "security_exception_handler tr = Panics \<lparr>fmt_pieces = [exception_text ''Security Exception with error code '', [0x0A]], fmt_args = [tr_error_code tr, tr_frame tr]\<rparr>"

subsection \<open>The interrupt descriptor table\<close>

abbreviation handler_fn :: "(trap \<Rightarrow> outcome) \<Rightarrow> idt_entry" where
  "handler_fn h \<equiv> \<lparr>ie_handler = h, ie_stack_index = None\<rparr>"

definition IDT :: "(exception \<times> idt_entry) list" where
  "IDT =
    [(Divide_Error, handler_fn divide_error_handler),
     (Debug_Exception, handler_fn debug_handler),
     (Non_Maskable_Interrupt, handler_fn non_maskable_interrupt_handler),
     (Breakpoint, handler_fn breakpoint_handler),
     (Overflow_Exception, handler_fn overflow_handler),
     (Bound_Range_Exceeded, handler_fn bound_range_exceeded_handler),
     (Invalid_Opcode, handler_fn invalid_opcode_handler),
     (Device_Not_Available, handler_fn device_not_available_handler),
     (Double_Fault, \<lparr>ie_handler = double_fault_handler, ie_stack_index = Some DOUBLE_FAULT_IST_INDEX\<rparr>),
     (Invalid_Tss, handler_fn invalid_tss_handler),
     (Segment_Not_Present, handler_fn segment_not_present_handler),
     (Stack_Segment_Fault, handler_fn stack_segment_fault_handler),
     (General_Protection_Fault, handler_fn general_protection_fault_handler),
     (Page_Fault, handler_fn page_fault_handler),
     (X87_Floating_Point, handler_fn x87_floating_point_handler),
     (Alignment_Check, handler_fn alignment_check_handler),
     (Machine_Check, handler_fn machine_check_handler),
     (Simd_Floating_Point, handler_fn simd_floating_point_handler),
     (Virtualization, handler_fn virtualization_handler),
     (Security_Exception, handler_fn security_exception_handler)]"

definition idt_load :: "'g cpu_event list" where
  "idt_load = [Load_Idt IDT]"

lemmas handler_defs =
  divide_error_handler_def debug_handler_def non_maskable_interrupt_handler_def breakpoint_handler_def
  overflow_handler_def bound_range_exceeded_handler_def invalid_opcode_handler_def device_not_available_handler_def
  double_fault_handler_def invalid_tss_handler_def segment_not_present_handler_def stack_segment_fault_handler_def
  general_protection_fault_handler_def page_fault_handler_def x87_floating_point_handler_def alignment_check_handler_def
  machine_check_handler_def simd_floating_point_handler_def virtualization_handler_def security_exception_handler_def

subsection \<open>Properties\<close>

lemma TSS_Inr:
  assumes "x86_64_laws X" "tables_laws K" "unat stack + 4096 < 2 ^ 47 \<or> 2 ^ 64 - 2 ^ 47 \<le> unat stack \<and> unat stack + 4096 < 2 ^ 64"
  shows "TSS K X stack = Inr ((tss_new K)[0 := stack + 4096])"
proof -
  have "canonical stack" using assms(3) by (auto simp: canonical_def)
  then have "virt_addr_new X stack = Inr stack" using assms(1) by (simp add: virt_addr_new_eq)
  moreover have "virt_addr_add K stack 4096 = Inr (stack + 4096)" "length (tss_new K) = 7"
    using assms(2,3) by (auto simp: tables_laws_def)
  ultimately show ?thesis by (simp add: TSS_def STACK_SIZE_def DOUBLE_FAULT_IST_INDEX_def)
qed

lemma gdt_add_entry_Inr:
  assumes "tables_laws K" "gdt_next K g + slots d \<le> 8"
  shows "\<exists>g'. gdt_add_entry K g d = Inr g' \<and> gdt_next K g' = gdt_next K g + slots d
    \<and> (\<forall>i. gdt_entry K g' i = (if i = gdt_next K g then Some d else gdt_entry K g i))"
  using assms unfolding tables_laws_def by blast

lemma GDT_Inr:
  assumes "tables_laws K"
  shows "\<exists>gdt. GDT K tss = Inr gdt \<and> gdt_entry K gdt 0 = None \<and> gdt_entry K gdt 1 = Some Kernel_Code_Segment
    \<and> gdt_entry K gdt 2 = Some (Tss_Segment tss)"
proof -
  have new: "gdt_next K (gdt_new K) = 1" "\<And>i. gdt_entry K (gdt_new K) i = None"
    using assms by (simp_all add: tables_laws_def)
  obtain g where g: "gdt_add_entry K (gdt_new K) Kernel_Code_Segment = Inr g" "gdt_next K g = 2"
    "\<And>i. gdt_entry K g i = (if i = 1 then Some Kernel_Code_Segment else None)"
    using gdt_add_entry_Inr [OF assms, of "gdt_new K" Kernel_Code_Segment] by (auto simp: new slots_def)
  obtain gdt where "gdt_add_entry K g (Tss_Segment tss) = Inr gdt"
    "\<And>i. gdt_entry K gdt i = (if i = 2 then Some (Tss_Segment tss) else gdt_entry K g i)"
    using gdt_add_entry_Inr [OF assms, of g "Tss_Segment tss"] by (auto simp: g(2) slots_def)
  with g show ?thesis by (simp add: GDT_def)
qed

lemma IDT_entry:
  "\<exists>entry. map_of IDT e = Some entry \<and> ie_stack_index entry = (if e = Double_Fault then Some DOUBLE_FAULT_IST_INDEX else None)
    \<and> (\<forall>tr. \<exists>a. ie_handler entry tr = (if e = Breakpoint then Logs Level_Trace a else Panics a))"
  by (cases e) (simp_all add: IDT_def handler_defs)

text \<open>
  Claim C24 (the descriptor tables fit together). For a stack in either half of the address space the tables are
  built without a panic. The selectors that \<^verbatim>\<open>gdt::load\<close> puts into the code segment and task registers refer to the
  code segment and to the task state segment, the data segment registers get the null selector. Each of the twenty
  exceptions has a handler; each handler panics, but for the breakpoint, which returns. The double
  fault alone switches stacks, and the entry it names holds the end of the reserved stack.
\<close>

theorem descriptor_tables_correct:
  assumes "x86_64_laws X" "tables_laws K"
    and "unat stack + 4096 < 2 ^ 47 \<or> 2 ^ 64 - 2 ^ 47 \<le> unat stack \<and> unat stack + 4096 < 2 ^ 64"
  shows "\<exists>tss gdt. TSS K X stack = Inr tss \<and> GDT K tss = Inr gdt
    \<and> (\<forall>i. Load_Seg CS i \<in> set (gdt_load gdt) \<longrightarrow> gdt_entry K gdt (unat i) = Some Kernel_Code_Segment)
    \<and> (\<forall>i. Load_Tss i \<in> set (gdt_load gdt) \<longrightarrow> gdt_entry K gdt (unat i) = Some (Tss_Segment tss))
    \<and> (\<forall>r i. r \<noteq> CS \<and> Load_Seg r i \<in> set (gdt_load gdt) \<longrightarrow> gdt_entry K gdt (unat i) = None)
    \<and> tss ! unat DOUBLE_FAULT_IST_INDEX = stack + STACK_SIZE
    \<and> (\<forall>e. \<exists>entry. map_of IDT e = Some entry
        \<and> ie_stack_index entry = (if e = Double_Fault then Some DOUBLE_FAULT_IST_INDEX else None)
        \<and> (\<forall>tr. \<exists>a. ie_handler entry tr = (if e = Breakpoint then Logs Level_Trace a else Panics a)))"
proof -
  let ?tss = "(tss_new K)[0 := stack + 4096]"
  obtain gdt where gdt: "GDT K ?tss = Inr gdt" "gdt_entry K gdt 0 = None" "gdt_entry K gdt 1 = Some Kernel_Code_Segment"
    "gdt_entry K gdt 2 = Some (Tss_Segment ?tss)" using GDT_Inr [OF assms(2)] by blast
  have "length (tss_new K) = 7" using assms(2) by (simp add: tables_laws_def)
  then have "?tss ! unat DOUBLE_FAULT_IST_INDEX = stack + STACK_SIZE" by (simp add: DOUBLE_FAULT_IST_INDEX_def STACK_SIZE_def)
  moreover note IDT_entry
  ultimately show ?thesis
    using gdt TSS_Inr [OF assms] by (intro exI [of _ ?tss] exI [of _ gdt]) (auto simp: gdt_load_def)
qed

theorem descriptor_tables_correct_witness:
  "\<exists>tss gdt. TSS tables_ref x86_64_ref 0x200000 = Inr tss \<and> GDT tables_ref tss = Inr gdt
    \<and> gdt_entry tables_ref gdt 1 = Some Kernel_Code_Segment \<and> tss ! 0 = 0x201000"
proof -
  obtain tss gdt where t: "TSS tables_ref x86_64_ref 0x200000 = Inr tss" "GDT tables_ref tss = Inr gdt"
    "\<forall>i. Load_Seg CS i \<in> set (gdt_load gdt) \<longrightarrow> gdt_entry tables_ref gdt (unat i) = Some Kernel_Code_Segment"
    "tss ! unat DOUBLE_FAULT_IST_INDEX = 0x200000 + STACK_SIZE"
    using descriptor_tables_correct [OF x86_64_laws_ref tables_laws_ref, of "0x200000"] by auto
  have "Load_Seg CS 1 \<in> set (gdt_load gdt)" by (simp add: gdt_load_def)
  with t(3) have "gdt_entry tables_ref gdt (unat (1 :: u16)) = Some Kernel_Code_Segment" by blast
  with t(1,2,4) show ?thesis by (simp add: DOUBLE_FAULT_IST_INDEX_def STACK_SIZE_def)
qed

end
