(* ===== verification/Acpi.thy ===== *)
theory Acpi
  imports Mm Console
begin

text \<open>
  The ACPI driver (\<^verbatim>\<open>drivers/acpi.rs\<close>). The tables and the AML interpreter belong to the crates \<^verbatim>\<open>acpi\<close> and \<^verbatim>\<open>aml\<close>: they
  are a record of functions (\<open>acpi_crate\<close>) and the definitions are correct for any such functions, so no law is
  needed. \<open>dev n p\<close> is what the \<open>n\<close>-th port read returns when it reads the 16-bit port \<open>p\<close>, and \<open>mem16 a\<close> is the value
  behind the pointer \<open>a\<close>. A log line is a level with its format arguments.
\<close>

subsection \<open>The crates\<close>

record fadt =
  pm1a_control_block :: "u64 option"
  pm1b_control_block :: "u64 option option"
  smi_cmd_port :: u32
  acpi_enable :: u8

datatype InterruptModel = Unknown_Model | Apic_Model | Other_Model

record aml_table =
  aml_address :: usize
  aml_length :: u32

record ('t, 'c, 'n, 'v, 'm, 'p) acpi_crate =
  search_for_rsdp_bios :: "'t option"
  tables_dsdt :: "'t \<Rightarrow> aml_table option"
  tables_ssdts :: "'t \<Rightarrow> aml_table list"
  get_madt :: "'t \<Rightarrow> 'm option option"
  get_fadt :: "'t \<Rightarrow> fadt option option"
  parse_interrupt_model :: "'m \<Rightarrow> (InterruptModel \<times> 'p option) option"
  aml_new :: 'c
  aml_parse_table :: "'c \<Rightarrow> virt_addr \<Rightarrow> usize \<Rightarrow> 'c option"
  aml_name :: "string \<Rightarrow> 'n option"
  aml_root :: 'n
  aml_search :: "'c \<Rightarrow> 'n \<Rightarrow> 'n \<Rightarrow> 'n option"
  aml_get :: "'c \<Rightarrow> 'n \<Rightarrow> 'v option"
  aml_as_name :: "'v \<Rightarrow> 'v option"
  aml_as_package :: "'v \<Rightarrow> 'v list option"
  aml_as_integer :: "'v \<Rightarrow> u64 option"

type_synonym log_line = "Level \<times> Arguments"

definition message :: "string \<Rightarrow> Arguments" where
  "message s = \<lparr>fmt_pieces = [str_bytes s], fmt_args = []\<rparr>"

subsection \<open>Reading the tables\<close>

definition parse_table :: "('t, 'c, 'n, 'v, 'm, 'p) acpi_crate \<Rightarrow> x86_64 \<Rightarrow> 'c \<Rightarrow> aml_table \<Rightarrow> 'c option res" where
  "parse_table C X ctx table =
    bind_res (virt_addr_new X (aml_address table)) (\<lambda>virt. Inr (aml_parse_table C ctx virt (ucast (aml_length table))))"

fun parse_ssdts :: "('t, 'c, 'n, 'v, 'm, 'p) acpi_crate \<Rightarrow> x86_64 \<Rightarrow> 'c \<Rightarrow> nat \<Rightarrow> aml_table list \<Rightarrow> ('c \<times> log_line list) res" where
  "parse_ssdts C X ctx i [] = Inr (ctx, [])"
| "parse_ssdts C X ctx i (ssdt # ssdts) =
    bind_res (parse_table C X ctx ssdt) (\<lambda>r.
    bind_res (expect_some Expect_Failed r) (\<lambda>ctx.
    bind_res (parse_ssdts C X ctx (Suc i) ssdts) (\<lambda>(ctx, logs).
      Inr (ctx, (Level_Debug, \<lparr>fmt_pieces = [str_bytes ''acpi: parsed ssdt ''], fmt_args = [dec_digits i]\<rparr>) # logs))))"

text \<open>The AML context after the tables have been parsed.\<close>

definition acpi_context :: "('t, 'c, 'n, 'v, 'm, 'p) acpi_crate \<Rightarrow> x86_64 \<Rightarrow> 't \<Rightarrow> ('c \<times> log_line list) res" where
  "acpi_context C X t =
    bind_res (case tables_dsdt C t of
        Some dsdt \<Rightarrow>
          bind_res (parse_table C X (aml_new C) dsdt) (\<lambda>r.
          bind_res (expect_some Expect_Failed r) (\<lambda>ctx. Inr (ctx, [(Level_Debug, message ''acpi: parsed dsdt'')])))
      | None \<Rightarrow> Inr (aml_new C, [(Level_Warn, message ''acpi: DSDT not found!'')])) (\<lambda>(ctx, logs1).
    bind_res (parse_ssdts C X ctx 0 (tables_ssdts C t)) (\<lambda>(ctx, logs2). Inr (ctx, logs1 @ logs2)))"

text \<open>The value of the \<^verbatim>\<open>_S5_\<close> object: the first element of its package.\<close>

definition s5_value :: "('t, 'c, 'n, 'v, 'm, 'p) acpi_crate \<Rightarrow> 'c \<Rightarrow> u64 res" where
  "s5_value C ctx =
    bind_res (expect_some Expect_Failed (aml_name C ''_S5_'')) (\<lambda>name.
    bind_res (expect_some Expect_Failed (aml_search C ctx name (aml_root C))) (\<lambda>name.
    bind_res (expect_some Expect_Failed (aml_get C ctx name)) (\<lambda>v.
    case aml_as_name C v of
      None \<Rightarrow> Inl Unreachable
    | Some p \<Rightarrow>
        (case aml_as_package C p of
          None \<Rightarrow> Inl Unreachable
        | Some vs \<Rightarrow> bind_res (index_res vs 0) (\<lambda>e. expect_some Unwrap_None (aml_as_integer C e))))))"

record ('t, 'm, 'p) AcpiObject =
  ac_tables :: 't
  ac_fadt :: fadt
  ac_madt :: 'm
  ac_interrupt_model :: InterruptModel
  ac_processor_info :: "'p option"

definition acpi_object_new :: "('t, 'c, 'n, 'v, 'm, 'p) acpi_crate \<Rightarrow> 't \<Rightarrow> ('t, 'm, 'p) AcpiObject res" where
  "acpi_object_new C t =
    bind_res (expect_some Expect_Failed (get_madt C t)) (\<lambda>r.
    bind_res (expect_some Expect_Failed r) (\<lambda>madt.
    bind_res (expect_some Expect_Failed (get_fadt C t)) (\<lambda>r.
    bind_res (expect_some Expect_Failed r) (\<lambda>fadt.
    bind_res (expect_some Expect_Failed (parse_interrupt_model C madt)) (\<lambda>(model, info).
      Inr \<lparr>ac_tables = t, ac_fadt = fadt, ac_madt = madt, ac_interrupt_model = model, ac_processor_info = info\<rparr>)))))"

text \<open>\<^verbatim>\<open>init\<close>: the object, the value of the static \<^verbatim>\<open>SLP_TYPA\<close>, and the log.\<close>

definition acpi_init :: "('t, 'c, 'n, 'v, 'm, 'p) acpi_crate \<Rightarrow> x86_64 \<Rightarrow> (('t, 'm, 'p) AcpiObject \<times> u64 \<times> log_line list) res" where
  "acpi_init C X =
    bind_res (expect_some Expect_Failed (search_for_rsdp_bios C)) (\<lambda>t.
    bind_res (acpi_context C X t) (\<lambda>(ctx, logs).
    bind_res (s5_value C ctx) (\<lambda>v.
    bind_res (acpi_object_new C t) (\<lambda>ob.
      Inr (ob, push_bit 10 v, (Level_Debug, message ''acpi: found tables'') # logs
        @ [(Level_Debug, message ''acpi: getting SLP_TYPA'')])))))"

text \<open>\<^verbatim>\<open>map_physical_region\<close>: the virtual address and the two lengths of the mapping.\<close>

definition map_physical_region :: "x86_64 \<Rightarrow> bool \<Rightarrow> usize \<Rightarrow> usize \<Rightarrow> (usize \<times> virt_addr \<times> usize \<times> usize) res" where
  "map_physical_region X dbg physical_address len =
    bind_res (phys_addr_new X physical_address) (\<lambda>phys.
    bind_res (phys_to_kernel_virt X dbg phys) (\<lambda>start_virt.
    bind_res (expect_some Expect_Failed (if start_virt = 0 then None else Some start_virt)) (\<lambda>p.
      Inr (physical_address, p, len, len))))"

definition apic_supported :: "u32 \<Rightarrow> bool" where
  "apic_supported edx \<longleftrightarrow> edx AND push_bit 9 1 \<noteq> 0"

subsection \<open>Power states\<close>

definition sci_enabled :: "(nat \<Rightarrow> u16 \<Rightarrow> u16) \<Rightarrow> u16 \<Rightarrow> nat \<Rightarrow> bool" where
  "sci_enabled dev port i \<longleftrightarrow> dev i port AND 1 \<noteq> 0"

definition reads :: "(nat \<Rightarrow> u16 \<Rightarrow> u16) \<Rightarrow> u16 \<Rightarrow> nat \<Rightarrow> nat \<Rightarrow> port_io list" where
  "reads dev port n m = map (\<lambda>i. In16 port (dev i port)) [n..<m]"

definition enable :: "(nat \<Rightarrow> u16 \<Rightarrow> u16) \<Rightarrow> (u64 \<Rightarrow> u16) \<Rightarrow> fadt \<Rightarrow> nat \<Rightarrow> (nat \<times> port_io list \<times> log_line list) run" where
  "enable dev mem16 f n =
    bind_run (Some (expect_some Expect_Failed (pm1a_control_block f))) (\<lambda>a.
      let pm1a = mem16 a in
      if dev n pm1a AND 1 = 0 then
        if smi_cmd_port f \<noteq> 0 \<and> acpi_enable f \<noteq> 0 then
          (case poll (sci_enabled dev pm1a) (Suc n) of
            None \<Rightarrow> None
          | Some m \<Rightarrow>
              let io = In16 pm1a (dev n pm1a) # Out8 (ucast (smi_cmd_port f)) (acpi_enable f) # reads dev pm1a (Suc n) (Suc m) in
              bind_run (Some (expect_some Expect_Failed (pm1b_control_block f))) (\<lambda>b.
                case b of
                  None \<Rightarrow> Some (Inr (Suc m, io, []))
                | Some a \<Rightarrow>
                    let pm1b = mem16 a in
                    (case poll (sci_enabled dev pm1b) (Suc m) of
                      None \<Rightarrow> None
                    | Some m' \<Rightarrow> Some (Inr (Suc m', io @ reads dev pm1b (Suc m) (Suc m'), [])))))
        else Some (Inr (Suc n, [In16 pm1a (dev n pm1a)], [(Level_Debug, message ''ACPI cannot be enabled'')]))
      else Some (Inr (Suc n, [In16 pm1a (dev n pm1a)], [(Level_Warn, message ''ACPI already enabled'')])))"

text \<open>
  \<^verbatim>\<open>shutdown\<close> never returns: \<open>shutdown_loop k\<close> is the trace of its first \<open>k\<close> iterations. A panic has no trace, so the
  order of the first write and of the test behind it does not show.
\<close>

definition shutdown_iter :: "u64 \<Rightarrow> (u64 \<Rightarrow> u16) \<Rightarrow> fadt \<Rightarrow> u16 \<Rightarrow> port_io list res" where
  "shutdown_iter slp_typa mem16 f pm1a =
    bind_res (expect_some Expect_Failed (pm1b_control_block f)) (\<lambda>b.
      Inr (Out16 pm1a (ucast (slp_typa OR push_bit 13 1)) #
        (case b of None \<Rightarrow> [] | Some a \<Rightarrow> [Out16 (mem16 a) (ucast (slp_typa OR push_bit 13 1))])))"

fun shutdown_loop :: "nat \<Rightarrow> u64 \<Rightarrow> (u64 \<Rightarrow> u16) \<Rightarrow> fadt \<Rightarrow> u16 \<Rightarrow> port_io list res" where
  "shutdown_loop 0 slp_typa mem16 f pm1a = Inr []"
| "shutdown_loop (Suc k) slp_typa mem16 f pm1a =
    bind_res (shutdown_iter slp_typa mem16 f pm1a) (\<lambda>io.
    bind_res (shutdown_loop k slp_typa mem16 f pm1a) (\<lambda>io'. Inr (io @ io')))"

definition shutdown :: "nat \<Rightarrow> u64 \<Rightarrow> (u64 \<Rightarrow> u16) \<Rightarrow> fadt \<Rightarrow> port_io list res" where
  "shutdown k slp_typa mem16 f =
    bind_res (expect_some Expect_Failed (pm1a_control_block f)) (\<lambda>a. shutdown_loop k slp_typa mem16 f (mem16 a))"

subsection \<open>Properties\<close>

fun written16 :: "port_io \<Rightarrow> (u16 \<times> u16) list" where
  "written16 (Out8 p x) = [(p, ucast x)]"
| "written16 (Out16 p x) = [(p, x)]"
| "written16 io = []"

lemma written_reads [simp]: "concat (map written16 (reads dev port n m)) = []"
  by (induction m) (simp_all add: reads_def)

lemma poll_None: "(\<And>i. n \<le> i \<Longrightarrow> \<not> ready i) \<Longrightarrow> poll ready n = None"
  using poll_ends [of ready n] by (cases "poll ready n") auto


text \<open>A machine that reports ACPI as enabled from the fourth read on, with one register at port \<open>0x604\<close>.\<close>

definition sample_fadt :: fadt where
  "sample_fadt = \<lparr>pm1a_control_block = Some 0x7000, pm1b_control_block = Some None, smi_cmd_port = 0xB2, acpi_enable = 0xF0\<rparr>"



text \<open>Tables with a sleep type of 5, without AML code.\<close>

definition sample_acpi :: "(unit, unit, unit, nat, unit, unit) acpi_crate" where
  "sample_acpi = \<lparr>search_for_rsdp_bios = Some (), tables_dsdt = (\<lambda>t. None), tables_ssdts = (\<lambda>t. []),
    get_madt = (\<lambda>t. Some (Some ())), get_fadt = (\<lambda>t. Some (Some sample_fadt)),
    parse_interrupt_model = (\<lambda>m. Some (Apic_Model, None)), aml_new = (), aml_parse_table = (\<lambda>c v n. Some ()),
    aml_name = (\<lambda>s. Some ()), aml_root = (), aml_search = (\<lambda>c n r. Some ()), aml_get = (\<lambda>c n. Some 0),
    aml_as_name = (\<lambda>v. Some 1), aml_as_package = (\<lambda>v. Some [2]), aml_as_integer = (\<lambda>v. Some 5)\<rparr>"

lemma sample_acpi_init:
  "\<exists>ob logs. acpi_init sample_acpi X = Inr (ob, 0x1400, logs) \<and> ac_interrupt_model ob = Apic_Model \<and> length logs = 3"
  by (simp add: acpi_init_def acpi_context_def sample_acpi_def s5_value_def acpi_object_new_def)


end
