(* ===== verification/Kernel.thy ===== *)
theory Kernel
  imports Boot_Memory Cpu_Tables Acpi
begin

text \<open>
  The entry of the kernel (\<^verbatim>\<open>kernel.rs\<close>, \<^verbatim>\<open>main.rs\<close>): \<^verbatim>\<open>kernel_main\<close> brings up the drivers, the descriptor tables, the memory
  and ACPI, in this order, and \<^verbatim>\<open>_start\<close> halts after it. \<open>boot_input\<close> is what the hardware and the bootloader provide. The log
  lines of a component are printed where its call stands, since nothing else prints meanwhile.
\<close>

subsection \<open>Panics and the end\<close>

text \<open>\<^verbatim>\<open>halt_loop\<close> never returns: its first \<open>k\<close> iterations.\<close>

definition halt_loop :: "nat \<Rightarrow> 'g cpu_event list" where
  "halt_loop k = concat (replicate k [Disable_Interrupts, Hlt])"

text \<open>The panic handler: \<open>info\<close> is the text of the panic information.\<close>

definition kernel_panic :: "bool \<Rightarrow> 'v volatile \<Rightarrow> log_crate \<Rightarrow> LevelFilter \<Rightarrow> u8 list \<Rightarrow> nat \<Rightarrow> 'v Writer
    \<Rightarrow> ('v Writer \<times> port_io list \<times> 'g cpu_event list) res" where
  "kernel_panic dbg V G max_level info k w =
    bind_res (log_record dbg V G max_level Level_Error \<lparr>fmt_pieces = [[]], fmt_args = [info]\<rparr> w) (\<lambda>(w, io).
      Inr (w, io, halt_loop k))"

subsection \<open>\<open>kernel_main\<close>\<close>

definition log_all :: "bool \<Rightarrow> 'v volatile \<Rightarrow> log_crate \<Rightarrow> LevelFilter \<Rightarrow> log_line list \<Rightarrow> 'v Writer \<Rightarrow> ('v Writer \<times> port_io list) res" where
  "log_all dbg V G max_level = io_all (\<lambda>(level, a). log_record dbg V G max_level level a)"

text \<open>The lines of the banner; a tilde stands for the backslash of the source.\<close>

definition art :: "string \<Rightarrow> u8 list" where
  "art s = map (\<lambda>c. if c = CHR ''~'' then 0x5C else ascii c) s"

definition banner :: "u8 list list" where
  "banner =
    [art ''  _____       _     _   _             Developed by:'',
     art '' / ____|     | |   | | (_)              - Vinc'',
     art ''| (___   ___ | |___| |_ _  ___ ___      - Crally'',
     art '' ~___ ~ / _ ~| / __| __| |/ __/ _ ~     - Mehodin'',
     art '' ____) | (_) | ~__ ~ |_| | (_|  __/     - Alex8675'',
     art ''|_____/ ~___/|_|___/~__|_|~___~___|   - trash'',
     []]"

definition println_all :: "bool \<Rightarrow> 'v volatile \<Rightarrow> u8 list list \<Rightarrow> 'v Writer \<Rightarrow> ('v Writer \<times> port_io list) res" where
  "println_all dbg V = io_all (\<lambda>s. print dbg V \<lparr>fmt_pieces = [s @ [0x0A]], fmt_args = []\<rparr>)"

record ('v, 'pt) boot_input =
  bi_cursor_start :: u16
  bi_cursor_end :: u16
  bi_logger_set :: bool
  bi_vga :: "usize \<Rightarrow> 'v"
  bi_stack :: u64
  bi_memory_map :: "MemoryRegion list"
  bi_page_table :: 'pt
  bi_cpuid_edx :: u32

record ('g, 'v, 'pt) kernel =
  kn_max_level :: LevelFilter
  kn_writer :: "'v Writer"
  kn_page_table :: 'pt
  kn_pmm :: pmm
  kn_slp_typa :: u64
  kn_port_io :: "port_io list"
  kn_cpu :: "'g cpu_event list"

definition interrupt_model_line :: "InterruptModel \<Rightarrow> u32 \<Rightarrow> log_line res" where
  "interrupt_model_line model edx =
    (case model of
      Unknown_Model \<Rightarrow> Inl Explicit_Panic
    | Apic_Model \<Rightarrow>
        if \<not> apic_supported edx then Inr (Level_Error, message ''apic: xapic is not supported'')
        else Inr (Level_Info, message ''apic: detected xapic support'')
    | Other_Model \<Rightarrow> Inl Explicit_Panic)"

definition kernel_main ::
  "bool \<Rightarrow> x86_64 \<Rightarrow> Region arrayvec \<Rightarrow> Zone arrayvec \<Rightarrow> ('pt, MemoryMap) paging \<Rightarrow> 'g tables_crate \<Rightarrow>
    ('t, 'c, 'n, 'a, 'm, 'p) acpi_crate \<Rightarrow> 'v volatile \<Rightarrow> log_crate \<Rightarrow> ('v, 'pt) boot_input \<Rightarrow> ('g, 'v, 'pt) kernel res" where
  "kernel_main dbg X A AZ PT K C V G bi =
    (let (io1, level) = text_mode_init dbg (bi_cursor_start bi) (bi_cursor_end bi) (bi_logger_set bi) in
     bind_res (expect_some Unwrap_None level) (\<lambda>max_level.
     bind_res (writer_default dbg (bi_vga bi)) (\<lambda>w.
     bind_res (println_all dbg V banner w) (\<lambda>(w, io2).
     bind_res (TSS K X (bi_stack bi)) (\<lambda>tss.
     bind_res (GDT K tss) (\<lambda>gdt.
     bind_res (boot_memory PT X A AZ dbg (bi_memory_map bi) (bi_page_table bi)) (\<lambda>(pmm, pt, ev).
     bind_res (log_record dbg V G max_level Level_Debug (message ''pmm: initialised'') w) (\<lambda>(w, io3).
     bind_res (acpi_init C X) (\<lambda>(acpi, slp_typa, logs).
     bind_res (log_all dbg V G max_level logs w) (\<lambda>(w, io4).
     bind_res (interrupt_model_line (ac_interrupt_model acpi) (bi_cpuid_edx bi)) (\<lambda>line.
     bind_res (log_all dbg V G max_level [line] w) (\<lambda>(w, io5).
       Inr \<lparr>kn_max_level = max_level, kn_writer = w, kn_page_table = pt, kn_pmm = pmm, kn_slp_typa = slp_typa,
            kn_port_io = serial_init @ io1 @ io2 @ io3 @ io4 @ io5, kn_cpu = gdt_load gdt @ idt_load\<rparr>))))))))))))"

definition start ::
  "nat \<Rightarrow> bool \<Rightarrow> x86_64 \<Rightarrow> Region arrayvec \<Rightarrow> Zone arrayvec \<Rightarrow> ('pt, MemoryMap) paging \<Rightarrow> 'g tables_crate \<Rightarrow>
    ('t, 'c, 'n, 'a, 'm, 'p) acpi_crate \<Rightarrow> 'v volatile \<Rightarrow> log_crate \<Rightarrow> ('v, 'pt) boot_input \<Rightarrow> ('g, 'v, 'pt) kernel res" where
  "start k dbg X A AZ PT K C V G bi =
    bind_res (kernel_main dbg X A AZ PT K C V G bi) (\<lambda>kn.
    bind_res (log_record dbg V G (kn_max_level kn) Level_Info (message ''nothing to do, halting...'') (kn_writer kn)) (\<lambda>(w, io).
      Inr (kn\<lparr>kn_writer := w, kn_port_io := kn_port_io kn @ io, kn_cpu := kn_cpu kn @ halt_loop k\<rparr>)))"

subsection \<open>Properties\<close>


text \<open>A machine with eight pages of usable memory and an APIC.\<close>

definition sample_input :: "(u16, u64 \<rightharpoonup> u64) boot_input" where
  "sample_input = \<lparr>bi_cursor_start = 0, bi_cursor_end = 0, bi_logger_set = True, bi_vga = (\<lambda>x. 0), bi_stack = 0x200000,
    bi_memory_map = sample_boot_8, bi_page_table = Map.empty, bi_cpuid_edx = 0x200\<rparr>"


text \<open>
  Claim C40 (the text of a panic is lost). The panic handler logs its information as a formatted argument, which the logger does
  not print. On a console at the beginning of a row the handler writes the same line for every panic:
  \<^verbatim>\<open>[ERROR] Cannot format log entry\<close>.
\<close>

theorem panic_text_lost:
  assumes "volatile_laws V" "log_laws G" "displays V w t" "wr_state w = attr_state Esc (attr_style plain) plain"
    and "t_col t = 0" "max_level \<noteq> Filter_Off"
  shows "\<exists>w' io. kernel_panic dbg V G max_level info k w = Inr (w', io, halt_loop k)
    \<and> displays V w' (tty_newline (t\<lparr>t_cells := overwrite (80 * t_row t)
        (log_line G Level_Error (str_bytes ''Cannot format log entry'')) (t_cells t)\<rparr>))"
proof -
  let ?a = "\<lparr>fmt_pieces = [[]], fmt_args = [info]\<rparr>"
  have a: "log_text ?a = str_bytes ''Cannot format log entry''" by (simp add: log_text_def)
  have "level_le G Level_Error max_level"
    using assms(2,6) by (cases max_level) (simp_all add: log_laws_def level_rank_def filter_rank_def)
  moreover have "list_all printable (log_text ?a)" unfolding a by (simp add: str_bytes_def printable_def)
  moreover have "length (level_display G Level_Error) \<le> 5" using assms(2) by (simp add: log_laws_def)
  then have "length (level_display G Level_Error) + length (log_text ?a) < 77" unfolding a by (simp add: str_bytes_def)
  ultimately obtain w' io where "log_record dbg V G max_level Level_Error ?a w = Inr (w', io)"
    "displays V w' (tty_newline (t\<lparr>t_cells := overwrite (80 * t_row t) (log_line G Level_Error (log_text ?a)) (t_cells t)\<rparr>))"
    using log_record_line [OF assms(1-5)] by blast
  then show ?thesis by (simp add: kernel_panic_def a)
qed

theorem panic_text_lost_witness:
  "\<exists>w w' io. writer_default False (\<lambda>x. 0) = Inr w
    \<and> kernel_panic False volatile_ref log_ref Filter_Info (str_bytes ''heap corrupted'') 1 w = Inr (w', io, halt_loop 1)
    \<and> displays volatile_ref w' \<lparr>t_cells = map (cell 0x0F) (str_bytes ''['') @ map (cell 0x0C) (str_bytes ''ERROR'')
        @ map (cell 0x0F) (str_bytes ''] Cannot format log entry'') @ replicate 1969 0, t_row = 1, t_col = 0\<rparr>"
proof -
  obtain w where w: "writer_default False (\<lambda>x. 0) = Inr w" "wr_state w = attr_state Esc (attr_style plain) plain"
    "displays volatile_ref w (tty_new (replicate 2000 0))"
    using writer_default_ok [of False "\<lambda>x. 0" volatile_ref] by (auto simp: volatile_ref_def map_replicate_const)
  have "log_line log_ref Level_Error (str_bytes ''Cannot format log entry'') = map (cell 0x0F) (str_bytes ''['')
      @ map (cell 0x0C) (str_bytes ''ERROR'') @ map (cell 0x0F) (str_bytes ''] Cannot format log entry'')"
    by (simp add: log_line_def str_bytes_def log_ref_def level_fg_def create_style_def)
  with panic_text_lost [OF volatile_laws_ref log_laws_ref w(3,2), of Filter_Info False "str_bytes ''heap corrupted''" 1] w(1)
  show ?thesis by (auto simp: tty_new_def tty_newline_def overwrite_def str_bytes_def)
qed

end
