(* ===== verification/Spec2Isabelle.thy ===== *)
theory Spec2Isabelle
  imports Percpu Spin_Lock Rw_Spin_Lock Slob_Props Keyboard Testing Kernel
begin

text \<open>
  A verification development of the Solstice kernel, a small x86-64 kernel in Rust.

  \<^bold>\<open>The program.\<close> \<^verbatim>\<open>_start\<close> (\<^verbatim>\<open>main.rs\<close>) calls \<^verbatim>\<open>kernel_main\<close> (\<^verbatim>\<open>kernel.rs\<close>), which sets up the serial port and the text console,
  prints a banner, loads the descriptor tables, collects the usable memory from the bootloader's map (\<^verbatim>\<open>mm/map.rs\<close>), maps the
  \<^verbatim>\<open>PageInfo\<close> array through the page tables (\<^verbatim>\<open>mm/addr_space.rs\<close>), hands the rest of the memory to a buddy allocator
  (\<^verbatim>\<open>mm/pmm.rs\<close>), reads the ACPI tables (\<^verbatim>\<open>drivers/acpi.rs\<close>) and halts. The heap (\<^verbatim>\<open>mm/slob.rs\<close>) takes its pages from the buddy
  allocator. All shared state is behind two kinds of spin locks (\<^verbatim>\<open>ds/sync\<close>) that count on \<^verbatim>\<open>cpu/percpu.rs\<close> to hold off preemption.
  Everything the kernel prints goes through the logger and the formatting macros (\<^verbatim>\<open>macros.rs\<close>) to the console
  (\<^verbatim>\<open>drivers/vga\<close>) and, in a debug build, to the serial port. All paths here are relative to \<^verbatim>\<open>src/src\<close>.

  \<^bold>\<open>Conventions.\<close> Machine integers are words of their width. A panic is a value \<open>Inl\<close> of \<open>'a res\<close>, and \<open>dbg\<close> tells the debug
  profile, where overflow and failed debug assertions panic, from the release profile; a theorem with a free \<open>dbg\<close> holds for both. A loop
  that may run forever is a \<open>partial_function\<close> with a result of type \<open>'a run\<close> or \<open>option\<close>, where \<open>None\<close> means that it does not
  end, and theorems say outright when it ends. A loop that never ends by design (\<^verbatim>\<open>halt_loop\<close>, \<^verbatim>\<open>shutdown\<close>) is the trace of its first \<open>k\<close>
  iterations, for every \<open>k\<close>; no other definition has a bound of this kind. Port accesses, writes of whole pages and loads of
  processor tables are traces of events. Third-party crates (\<^verbatim>\<open>x86_64\<close>, \<^verbatim>\<open>arrayvec\<close>, \<^verbatim>\<open>volatile\<close>, \<^verbatim>\<open>log\<close>,
  \<^verbatim>\<open>acpi\<close>, \<^verbatim>\<open>aml\<close>) are records of functions that the definitions take as arguments; the documented behaviour the theorems rely
  on is in the predicates \<open>x86_64_laws\<close>, \<open>arrayvec_laws\<close>, \<open>paging_laws\<close>, \<open>volatile_laws\<close>, \<open>log_laws\<close> and \<open>tables_laws\<close>, and each of them
  is shown to hold of concrete functions (\<open>x86_64_ref\<close> and so on), at which the witnesses evaluate the model.

  \<^bold>\<open>Foundations.\<close>
  \<^item> \<open>Prelude\<close>: results and panics, checked arithmetic, polling loops, the locale \<open>machine\<close> for invariants of step
    relations. \<open>Rust_Core\<close>: the functions of \<^verbatim>\<open>core\<close> that are used. \<open>Crates\<close>, \<open>Driver_Crates\<close>: the parameters for the crates; the latter has
    the locale \<open>io_device\<close> for operations that access ports and cannot panic.
  \<^item> \<open>Frame_Allocator\<close>: the locales \<open>frame_allocator\<close> and \<open>range_allocator\<close> with their total variants, the contracts between the
    allocators and their clients. They are interpreted on the boot memory map (\<open>mm_alloc\<close>, \<open>mm_roomy\<close>), the page-wise
    proxy of the buddy allocator (\<open>proxy\<close>), one zone (\<open>zone\<close>) and the whole allocator (\<open>pmm_ranges\<close>).

  \<^bold>\<open>Locks.\<close>
  \<^item> \<open>Percpu\<close>: the preemption counter.
  \<^item> \<open>Spin_Lock\<close>, \<open>Rw_Spin_Lock\<close>: every entry point of the two locks as atomic operations of interleaved agents, with the lock
    word at its width. The theorems are mutual exclusion, that the word counts the guards exactly, that the preemption counter is
    balanced, that no assertion of a \<^verbatim>\<open>drop\<close> fails, that protected data is stable under a reader, and progress of
    acquisition. \<^verbatim>\<open>SpinLock::try_lock\<close> is shown to be inverted. The later theories treat an operation under a lock as one step.

  \<^bold>\<open>Memory.\<close>
  \<^item> \<open>Mm\<close>: the constants and address conversions of \<^verbatim>\<open>mm/mod.rs\<close>.
  \<^item> \<open>Memory_Map\<close>: regions, the boot-time frame allocator and the bump allocator of \<^verbatim>\<open>mm/map.rs\<close>. An allocated frame leaves the map,
    and blocks of the bump allocator are disjoint for sizes that are multiples of their alignment, and can overlap otherwise.
  \<^item> \<open>Pmm_Zone\<close>: one zone of \<^verbatim>\<open>mm/pmm.rs\<close>; \<open>Pmm_Tree\<close>, \<open>Pmm_Refine\<close>, \<open>Pmm_Alloc\<close>: its lists implement binary trees, on which \<^verbatim>\<open>Zone::alloc\<close> is
    first fit for aligned blocks; \<open>Pmm_New\<close>: \<^verbatim>\<open>Zone::new\<close>; \<open>Pmm\<close>, \<open>Pmm_Ranges\<close>: the allocator over all zones, its construction, and that it never hands
    out memory twice. Releasing memory always panics, and a zone whose size is no power of two reaches beyond its end.
  \<^item> \<open>Addr_Space\<close>: \<^verbatim>\<open>mm/addr_space.rs\<close> and the mapping of the \<^verbatim>\<open>PageInfo\<close> array.
  \<^item> \<open>Slob\<close>: the heap as pointer code on a memory of headers; \<open>Slob_Spec\<close>: first fit and sorted insertion with coalescing on
    lists of chunks; \<open>Slob_Refine\<close>, \<open>Slob_Heap\<close>, \<open>Slob_Props\<close>: the first implements the second, every call ends, and blocks in use stay
    disjoint under any sequence of calls and writes. Releases into an empty list are excluded there, and shown to hand out memory twice.
  \<^item> \<open>Boot_Memory\<close>: map, page tables and buddy allocator together at boot.

  \<^bold>\<open>Drivers and entry.\<close>
  \<^item> \<open>Ransid\<close>: the escape sequence parser, that it never panics, and a round trip of styled text. \<open>Text_Mode\<close>: the console,
    which shows the last 25 rows of an unbounded transcript. \<open>Console\<close>: serial port, printing and logging.
  \<^item> \<open>Keyboard\<close>, \<open>Acpi\<close>: the drivers with their waiting loops; \<open>dev n p\<close> is what the \<open>n\<close>-th read finds at port \<open>p\<close>, so the theorems hold for
    every behaviour of the hardware.
  \<^item> \<open>Cpu_Tables\<close>: descriptor tables and exception handlers. \<open>Kernel\<close>: the boot sequence from end to end and the panic handler.
    \<open>Testing\<close>: the test harness, which reports success exactly if no test panics.

  \<^bold>\<open>Not modelled.\<close> Weak memory: atomic operations are sequentially consistent. Fairness: progress is stated for an agent that runs,
  since the locks are unfair. The formatting of locks, errors and layouts for \<^verbatim>\<open>Debug\<close> (a text argument here), the macro \<^verbatim>\<open>dbg!\<close>, which
  expands to a print, reading the page table register and the kernel's static page table (\<^verbatim>\<open>AddrSpace::kernel\<close>), and the delivery of
  interrupts: an exception handler is a function of what the processor passes to it. \<^verbatim>\<open>alloc_error_handler\<close> is a panic with
  one argument. The unit tests of the files are not part of the model; the modules \<^verbatim>\<open>mod.rs\<close> of \<^verbatim>\<open>cpu\<close>,
  \<^verbatim>\<open>drivers\<close> and \<^verbatim>\<open>ds\<close> only declare others.
\<close>

end
